(* ===== verification/Prelude.thy ===== *)
theory Prelude
  imports Main "HOL-Library.Word"
begin

text \<open>
  Shared material of the development: the machine types of the i686 kernel, the
  failure values the kernel code can end in, wrap-around arithmetic on 32-bit
  unsigned integers kept as natural numbers, and the generic lemmas on lists, bits
  and arithmetic that the component theories use.

  A failure of the code is a value: \<open>Panic\<close> is \<open>kernelPanic\<close>
  (inc/klibs/panic.h), \<open>Trap n\<close> is \<open>trigger_exception<n>\<close>
  (inc/x86/err_handler.h), and \<open>Fault\<close> is an access outside the array or through
  a pointer that does not point to a live object, which C and C++ leave undefined.
\<close>

unbundle bit_operations_syntax

type_synonym u8 = "8 word"
type_synonym u16 = "16 word"
type_synonym u32 = "32 word"

datatype kerror = Panic | Trap nat | Fault

type_synonym 'a kresult = "kerror + 'a"

text \<open>Sequencing of fallible steps, and array accesses with their bound checks.\<close>

definition kbind :: "'a kresult \<Rightarrow> ('a \<Rightarrow> 'b kresult) \<Rightarrow> 'b kresult" where
  "kbind m f = (case m of Inl e \<Rightarrow> Inl e | Inr x \<Rightarrow> f x)"

definition rd :: "'a list \<Rightarrow> nat \<Rightarrow> 'a kresult" where
  "rd xs i = (if i < length xs then Inr (xs ! i) else Inl Fault)"

definition wr :: "'a list \<Rightarrow> nat \<Rightarrow> 'a \<Rightarrow> 'a list kresult" where
  "wr xs i v = (if i < length xs then Inr (xs[i := v]) else Inl Fault)"

lemma kbind_simps [simp]:
  "kbind (Inl e) f = Inl e"
  "kbind (Inr x) f = f x"
  by (simp_all add: kbind_def)

lemma kbind_eq_Inr: "kbind m f = Inr y \<longleftrightarrow> (\<exists>x. m = Inr x \<and> f x = Inr y)"
  by (auto simp: kbind_def split: sum.splits)

lemma rd_ok [simp]: "i < length xs \<Longrightarrow> rd xs i = Inr (xs ! i)"
  and wr_ok [simp]: "i < length xs \<Longrightarrow> wr xs i v = Inr (xs[i := v])"
  by (simp_all add: rd_def wr_def)

named_theorems list_simps \<open>facts about indexed updates of arrays kept as lists\<close>
named_theorems wrap_simps \<open>32-bit arithmetic that does not wrap\<close>

subsection \<open>32-bit unsigned arithmetic on natural numbers\<close>

text \<open>
  \<open>size_t\<close> and \<open>uint32_t\<close> are 32 bits wide. Counters and indices are natural
  numbers below \<open>2 ^ 32\<close>, and each C operation is written with its reduction.
\<close>

abbreviation two32 :: nat where
  "two32 \<equiv> 4294967296"

definition add32 :: "nat \<Rightarrow> nat \<Rightarrow> nat" where
  "add32 a b = (a + b) mod two32"

definition sub32 :: "nat \<Rightarrow> nat \<Rightarrow> nat" where
  "sub32 a b = (a + two32 - b mod two32) mod two32"

definition mul32 :: "nat \<Rightarrow> nat \<Rightarrow> nat" where
  "mul32 a b = (a * b) mod two32"

lemma add32_exact [wrap_simps]: "a + b < two32 \<Longrightarrow> add32 a b = a + b"
  by (simp add: add32_def)

lemma mul32_exact [wrap_simps]: "a * b < two32 \<Longrightarrow> mul32 a b = a * b"
  by (simp add: mul32_def)

lemma sub32_exact [wrap_simps]:
  assumes "b \<le> a" and "a < two32"
  shows "sub32 a b = a - b"
proof -
  have "b mod two32 = b"
    using assms by simp
  then have "sub32 a b = (a - b + two32) mod two32"
    using assms by (simp only: sub32_def) simp
  also have "\<dots> = (a - b) mod two32"
    by (rule mod_add_self2)
  finally show ?thesis
    using assms by simp
qed

lemma sub32_zero_one: "sub32 0 1 = 4294967295"
  by (simp add: sub32_def)

text \<open>The C idiom \<open>(i - 1 + n) % n\<close>: the intermediate value may wrap below zero.\<close>

lemma pred_mod32 [wrap_simps]:
  assumes "i < n" and "n \<le> 2147483648"
  shows "add32 (sub32 i 1) n mod n = (if i = 0 then n - 1 else i - 1)"
proof (cases "i = 0")
  case True
  from assms True have "4294967295 + n = (n - 1) + two32"
    by simp
  then have "add32 (sub32 i 1) n = ((n - 1) + two32) mod two32"
    using True by (simp only: add32_def sub32_zero_one)
  also have "\<dots> = (n - 1) mod two32"
    by (rule mod_add_self2)
  finally have "add32 (sub32 i 1) n = n - 1"
    using assms by simp
  with True assms show ?thesis by simp
next
  case False
  then have "sub32 i 1 = i - 1"
    using assms by (intro sub32_exact) auto
  then have "add32 (sub32 i 1) n = i - 1 + n"
    using assms by (simp add: add32_exact)
  then have "add32 (sub32 i 1) n mod n = (i - 1) mod n"
    by (simp only: mod_add_self2)
  with False assms show ?thesis by simp
qed

lemma succ_mod [wrap_simps]:
  fixes i n :: nat
  assumes "i < n"
  shows "(i + 1) mod n = (if i + 1 = n then 0 else i + 1)"
  using assms by auto

subsection \<open>Arrays as lists\<close>

lemma take_Suc_update [list_simps]:
  "k < length xs \<Longrightarrow> take (Suc k) (xs[k := v]) = take k xs @ [v]"
  by (simp add: take_Suc_conv_app_nth)

lemma take_pred_butlast [list_simps]:
  "0 < k \<Longrightarrow> k \<le> length xs \<Longrightarrow> take (k - Suc 0) xs = butlast (take k xs)"
  by (simp add: butlast_take)

lemma nth_pred_last [list_simps]:
  "0 < k \<Longrightarrow> k \<le> length xs \<Longrightarrow> xs ! (k - Suc 0) = last (take k xs)"
  by (subst last_conv_nth) (auto simp: min_def)

subsection \<open>Single bits of a 32-bit word\<close>

text \<open>The mask \<open>1U << j\<close> of the C code, and its effect on the bits of a word.\<close>

definition bitmask32 :: "nat \<Rightarrow> u32" where
  "bitmask32 j = push_bit j 1"

lemma bit_bitmask32 [simp]: "bit (bitmask32 j) i \<longleftrightarrow> i = j \<and> j < 32"
  by (auto simp: bitmask32_def bit_simps)

lemma and_bitmask32_eq_0 [simp]:
  assumes "j < 32"
  shows "w AND bitmask32 j = 0 \<longleftrightarrow> \<not> bit w j"
proof
  assume "w AND bitmask32 j = 0"
  then have "bit (w AND bitmask32 j) j = bit (0 :: u32) j"
    by simp
  with assms show "\<not> bit w j"
    by (simp add: bit_and_iff)
next
  assume "\<not> bit w j"
  then show "w AND bitmask32 j = 0"
    by (intro bit_word_eqI) (auto simp: bit_and_iff)
qed

end
