(* ===== verification/KBitSet.thy ===== *)
theory KBitSet
  imports Prelude
begin

text \<open>
  The kernel's bit set, \<open>util::BitSet<n>\<close> of inc/klibs/bitset.h. The object is the
  array of 32-bit words; the template argument \<open>n\<close> is an argument of every
  operation. The source declares \<open>uint32_t array[n]\<close>, one word per bit, of which the
  operations use the first \<open>n / 32\<close>.

  The interface \<open>index_set\<close> states what clients rely on; \<open>BitSet\<close> is its
  provider. \<open>findConsZeros\<close> is modelled as written: its loop tests the bit
  \<open>num\<close> in every round, not the bit \<open>i\<close>.
\<close>

subsection \<open>The interface: a bounded set of indices\<close>

locale index_set =
  fixes sz :: nat
    and put :: "nat \<Rightarrow> 's \<Rightarrow> 's"
    and del :: "nat \<Rightarrow> 's \<Rightarrow> 's"
    and mem :: "nat \<Rightarrow> 's \<Rightarrow> bool"
    and inv :: "'s \<Rightarrow> bool"
  assumes mem_put: "inv s \<Longrightarrow> mem k (put i s) \<longleftrightarrow> (k = i \<and> i < sz) \<or> mem k s"
    and mem_del: "inv s \<Longrightarrow> mem k (del i s) \<longleftrightarrow> k \<noteq> i \<and> mem k s"
    and mem_bound: "mem k s \<Longrightarrow> k < sz"
    and inv_put: "inv s \<Longrightarrow> inv (put i s)"
    and inv_del: "inv s \<Longrightarrow> inv (del i s)"
begin

lemma Collect_put: "inv s \<Longrightarrow> i < sz \<Longrightarrow> {k. mem k (put i s)} = insert i {k. mem k s}"
  by (auto simp: mem_put)

lemma Collect_del: "inv s \<Longrightarrow> {k. mem k (del i s)} = {k. mem k s} - {i}"
  by (auto simp: mem_del)

lemma finite_mem: "finite {k. mem k s}"
  by (rule finite_subset [of _ "{..<sz}"]) (auto dest: mem_bound)

lemma card_put:
  assumes "inv s" and "i < sz" and "\<not> mem i s"
  shows "card {k. mem k (put i s)} = Suc (card {k. mem k s})"
  using assms finite_mem by (simp add: Collect_put)

lemma card_del:
  assumes "inv s" and "mem i s"
  shows "Suc (card {k. mem k (del i s)}) = card {k. mem k s}"
  using assms card_Suc_Diff1 [OF finite_mem, of i s] by (simp add: Collect_del)

end

subsection \<open>The object and its operations\<close>

type_synonym bitset = "u32 list"

definition IntBits :: nat where
  "IntBits = 8 * 4"

definition BitSet_new :: "nat \<Rightarrow> bitset" where
  "BitSet_new n = replicate n 0"

definition BitSet_set :: "nat \<Rightarrow> nat \<Rightarrow> bitset \<Rightarrow> bitset" where
  "BitSet_set n k bs =
     (if k \<ge> n then bs
      else bs[k div IntBits := (bs ! (k div IntBits)) OR bitmask32 (k mod IntBits)])"

definition BitSet_clear :: "nat \<Rightarrow> nat \<Rightarrow> bitset \<Rightarrow> bitset" where
  "BitSet_clear n k bs =
     (if k \<ge> n then bs
      else bs[k div IntBits := (bs ! (k div IntBits)) AND NOT (bitmask32 (k mod IntBits))])"

definition BitSet_flip :: "nat \<Rightarrow> nat \<Rightarrow> bitset \<Rightarrow> bitset" where
  "BitSet_flip n k bs =
     (if k \<ge> n then bs
      else bs[k div IntBits := (bs ! (k div IntBits)) XOR bitmask32 (k mod IntBits)])"

definition BitSet_test :: "nat \<Rightarrow> nat \<Rightarrow> bitset \<Rightarrow> bool" where
  "BitSet_test n k bs =
     (if k \<ge> n then False
      else (bs ! (k div IntBits)) AND bitmask32 (k mod IntBits) \<noteq> 0)"

text \<open>The loop of \<open>findConsZeros\<close>, with its local variables as arguments.\<close>

function findConsZeros_loop ::
  "nat \<Rightarrow> nat \<Rightarrow> bitset \<Rightarrow> nat \<Rightarrow> nat \<Rightarrow> nat \<Rightarrow> bool \<Rightarrow> nat option" where
  "findConsZeros_loop n num bs i currMax startOfMax foundSomething =
     (if i < n then
        if BitSet_test n num bs = False then
          let currMax' = currMax + 1;
              startOfMax' = (if \<not> foundSomething then i else startOfMax)
          in if currMax' \<ge> num then Some startOfMax'
             else findConsZeros_loop n num bs (i + 1) currMax' startOfMax' True
        else findConsZeros_loop n num bs (i + 1) 0 startOfMax False
      else None)"
  by pat_completeness auto
termination
  by (relation "measure (\<lambda>(n, num, bs, i, _). n - i)") auto

declare findConsZeros_loop.simps [simp del]

definition BitSet_findConsZeros :: "nat \<Rightarrow> nat \<Rightarrow> bitset \<Rightarrow> nat option" where
  "BitSet_findConsZeros n num bs = findConsZeros_loop n num bs 0 0 0 False"

subsection \<open>The operations implement the interface\<close>

definition BitSet_inv :: "nat \<Rightarrow> bitset \<Rightarrow> bool" where
  "BitSet_inv n bs \<longleftrightarrow> length bs = n"

lemma BitSet_word_index: "k < n \<Longrightarrow> k div IntBits < n"
  by (simp add: IntBits_def)

lemma IntBits_mod_less [simp]: "k mod IntBits < 32"
  by (simp add: IntBits_def)

lemma same_bit_iff: "k div IntBits = i div IntBits \<and> k mod IntBits = i mod IntBits \<longleftrightarrow> k = i"
  by (metis div_mult_mod_eq)

lemma BitSet_test_bit:
  "BitSet_test n k bs \<longleftrightarrow> k < n \<and> bit (bs ! (k div IntBits)) (k mod IntBits)"
  by (simp add: BitSet_test_def)

text \<open>Every operation acts on one bit: the bits of an updated word, one by one.\<close>

lemma BitSet_update_test:
  assumes "length bs = n" and "i < n"
    and f: "\<And>j. j < 32 \<Longrightarrow> bit (f (bs ! (i div IntBits))) j \<longleftrightarrow>
      (if j = i mod IntBits then b else bit (bs ! (i div IntBits)) j)"
  shows "BitSet_test n k (bs[i div IntBits := f (bs ! (i div IntBits))]) \<longleftrightarrow>
      (if k = i then b else BitSet_test n k bs)"
proof (cases "k div IntBits = i div IntBits")
  case True
  with assms same_bit_iff [of k i] show ?thesis
    by (auto simp: BitSet_test_bit BitSet_word_index)
next
  case False
  then have "k \<noteq> i" by auto
  with False show ?thesis by (auto simp: BitSet_test_bit)
qed

lemma BitSet_test_set:
  assumes "BitSet_inv n bs"
  shows "BitSet_test n k (BitSet_set n i bs) \<longleftrightarrow> (k = i \<and> i < n) \<or> BitSet_test n k bs"
  using assms BitSet_update_test [of bs n i "\<lambda>w. w OR bitmask32 (i mod IntBits)" True k]
  by (auto simp: BitSet_set_def BitSet_inv_def bit_or_iff split: if_splits)

lemma BitSet_test_clear:
  assumes "BitSet_inv n bs"
  shows "BitSet_test n k (BitSet_clear n i bs) \<longleftrightarrow> k \<noteq> i \<and> BitSet_test n k bs"
proof (cases "i < n")
  case True
  with assms BitSet_update_test [of bs n i "\<lambda>w. w AND NOT (bitmask32 (i mod IntBits))" False k]
  show ?thesis
    by (auto simp: BitSet_clear_def BitSet_inv_def bit_and_iff bit_not_iff split: if_splits)
next
  case False
  then show ?thesis by (auto simp: BitSet_clear_def BitSet_test_def)
qed

lemma BitSet_test_flip:
  assumes "BitSet_inv n bs"
  shows "BitSet_test n k (BitSet_flip n i bs) \<longleftrightarrow>
    (if k = i \<and> i < n then \<not> BitSet_test n i bs else BitSet_test n k bs)"
proof (cases "i < n")
  case True
  with assms BitSet_update_test [of bs n i "\<lambda>w. w XOR bitmask32 (i mod IntBits)"
      "\<not> bit (bs ! (i div IntBits)) (i mod IntBits)" k]
  show ?thesis
    by (auto simp: BitSet_flip_def BitSet_inv_def bit_xor_iff BitSet_test_bit split: if_splits)
next
  case False
  then show ?thesis by (auto simp: BitSet_flip_def)
qed

lemma BitSet_inv_ops [simp]:
  "BitSet_inv n (BitSet_new n)"
  "BitSet_inv n (BitSet_set n i bs) = BitSet_inv n bs"
  "BitSet_inv n (BitSet_clear n i bs) = BitSet_inv n bs"
  "BitSet_inv n (BitSet_flip n i bs) = BitSet_inv n bs"
  by (simp_all add: BitSet_inv_def BitSet_new_def BitSet_set_def BitSet_clear_def BitSet_flip_def)

lemma BitSet_test_new [simp]: "\<not> BitSet_test n k (BitSet_new n)"
  by (auto simp: BitSet_test_bit BitSet_new_def BitSet_word_index)

lemma BitSet_test_bound: "BitSet_test n k bs \<Longrightarrow> k < n"
  by (simp add: BitSet_test_bit)

interpretation bset: index_set n "BitSet_set n" "BitSet_clear n" "BitSet_test n" "BitSet_inv n"
  for n
  by unfold_locales (auto simp: BitSet_test_set BitSet_test_clear dest: BitSet_test_bound)

lemmas bitset_simps = BitSet_test_set BitSet_test_clear BitSet_test_flip

subsection \<open>What findConsZeros computes\<close>

lemma findConsZeros_loop_set:
  "BitSet_test n num bs \<Longrightarrow> findConsZeros_loop n num bs i c s f = None"
proof (induction n num bs i c s f rule: findConsZeros_loop.induct)
  case (1 n num bs i c s f)
  then show ?case
    by (subst findConsZeros_loop.simps) auto
qed

lemma findConsZeros_loop_clear:
  "\<not> BitSet_test n num bs \<Longrightarrow> c < max num 1 \<Longrightarrow>
   findConsZeros_loop n num bs i c s f =
     (if i + (max num 1 - c) \<le> n then Some (if f then s else i) else None)"
proof (induction n num bs i c s f rule: findConsZeros_loop.induct)
  case (1 n num bs i c s f)
  show ?case
  proof (cases "i < n \<and> \<not> num \<le> c + 1")
    case True
    with 1 show ?thesis
      by (subst findConsZeros_loop.simps) (auto simp: Let_def max_def split: if_splits)
  next
    case False
    with 1 show ?thesis
      by (subst findConsZeros_loop.simps) (auto simp: Let_def max_def)
  qed
qed

subsection \<open>Properties\<close>

lemma BitSet_out_of_range:
  "n \<le> i \<Longrightarrow> BitSet_set n i bs = bs \<and> BitSet_clear n i bs = bs \<and> BitSet_flip n i bs = bs"
  by (simp add: BitSet_set_def BitSet_clear_def BitSet_flip_def)

text \<open>
  C1: The words of a \<open>BitSet<n>\<close> represent a set of indices below \<open>n\<close>:
  \<open>set\<close>, \<open>clear\<close> and \<open>flip\<close> insert, remove and toggle exactly the given
  index, and an index that is out of range changes nothing.
\<close>

theorem bitset_implements_set:
  assumes "BitSet_inv n bs"
  shows "{k. BitSet_test n k (BitSet_set n i bs)} = {k. BitSet_test n k bs} \<union> ({i} \<inter> {..<n}) \<and>
    {k. BitSet_test n k (BitSet_clear n i bs)} = {k. BitSet_test n k bs} - {i} \<and>
    {k. BitSet_test n k (BitSet_flip n i bs)} =
      (if BitSet_test n i bs then {k. BitSet_test n k bs} - {i}
       else {k. BitSet_test n k bs} \<union> ({i} \<inter> {..<n})) \<and>
    (n \<le> i \<longrightarrow> BitSet_set n i bs = bs \<and> BitSet_clear n i bs = bs \<and> BitSet_flip n i bs = bs)"
  using assms BitSet_out_of_range [of n i bs]
  by (auto simp: bitset_simps dest: BitSet_test_bound)

theorem bitset_implements_set_witness:
  "BitSet_inv 40 (BitSet_new 40) \<and>
   {k. BitSet_test 40 k (BitSet_set 40 35 (BitSet_new 40))} = {35}"
proof -
  have inv: "BitSet_inv 40 (BitSet_new 40)" by simp
  from bitset_implements_set [OF inv, of 35] inv show ?thesis by auto
qed

text \<open>
  C2: \<open>findConsZeros(num)\<close> never looks at the run it reports: it answers 0 exactly when
  bit \<open>num\<close> itself is clear and \<open>max(num, 1)\<close> indices fit, and nothing otherwise,
  whatever the other bits are.
\<close>

lemma findConsZeros_tests_only_num:
  "BitSet_findConsZeros n num bs =
     (if \<not> BitSet_test n num bs \<and> max num 1 \<le> n then Some 0 else None)"
  by (cases "BitSet_test n num bs")
    (simp_all add: BitSet_findConsZeros_def findConsZeros_loop_set findConsZeros_loop_clear)

end
