(* ===== verification/KStack.thy ===== *)
theory KStack
  imports KBitSet
begin

text \<open>
  The kernel's fixed-capacity containers: \<open>util::Stack<T, Num>\<close> of
  inc/klibs/stack.h and \<open>util::MemoryPool<T, capacity>\<close> of
  inc/klibs/fixedmemorypool.h.

  A stack is its array \<open>arr\<close> (of length \<open>Num\<close>) and its index \<open>idx\<close>; the
  contents are the first \<open>idx\<close> elements. \<open>dflt\<close> is the value of \<open>T()\<close>.
  \<open>drop\<close> copies elements down with a loop whose bound is \<open>idx - 1\<close> in
  unsigned arithmetic; an access outside the array is a \<open>Fault\<close>.

  The interface \<open>lifo\<close> states the stack contract, and the locale
  \<open>free_list\<close> puts a stack of free indices and a bit set of free indices together,
  the shape that the page allocators, the object pools and the file descriptor table
  share: as long as both agree, an index is never handed out twice.
\<close>

subsection \<open>The interfaces\<close>

locale lifo =
  fixes cap :: nat
    and elems :: "'s \<Rightarrow> 'a list"
    and psh :: "'a \<Rightarrow> 's \<Rightarrow> 's"
    and top :: "'s \<Rightarrow> 'a"
    and rest :: "'s \<Rightarrow> 's"
    and inv :: "'s \<Rightarrow> bool"
  assumes elems_psh: "inv s \<Longrightarrow> length (elems s) < cap \<Longrightarrow> elems (psh x s) = elems s @ [x]"
    and psh_full: "inv s \<Longrightarrow> length (elems s) = cap \<Longrightarrow> psh x s = s"
    and top_last: "inv s \<Longrightarrow> elems s \<noteq> [] \<Longrightarrow> top s = last (elems s)"
    and elems_rest: "inv s \<Longrightarrow> elems (rest s) = butlast (elems s)"
    and elems_bound: "inv s \<Longrightarrow> length (elems s) \<le> cap"
    and inv_psh: "inv s \<Longrightarrow> inv (psh x s)"
    and inv_rest: "inv s \<Longrightarrow> inv (rest s)"
begin

lemma pop_psh:
  assumes "inv s" and "length (elems s) < cap"
  shows "top (psh x s) = x" and "elems (rest (psh x s)) = elems s"
  using assms by (simp_all add: top_last elems_psh elems_rest inv_psh)

end

text \<open>
  A stack of free indices beside a bit set that marks the free indices. The two agree
  when the stack holds each marked index exactly once.
\<close>

locale free_list = st: lifo cap elems psh top rest sinv + ix: index_set cap put del mem binv
  for cap :: nat
    and elems :: "'s \<Rightarrow> nat list"
    and psh :: "nat \<Rightarrow> 's \<Rightarrow> 's"
    and top :: "'s \<Rightarrow> nat"
    and rest :: "'s \<Rightarrow> 's"
    and sinv :: "'s \<Rightarrow> bool"
    and put :: "nat \<Rightarrow> 'b \<Rightarrow> 'b"
    and del :: "nat \<Rightarrow> 'b \<Rightarrow> 'b"
    and mem :: "nat \<Rightarrow> 'b \<Rightarrow> bool"
    and binv :: "'b \<Rightarrow> bool"
begin

definition agree :: "'s \<Rightarrow> 'b \<Rightarrow> bool" where
  "agree s b \<longleftrightarrow> sinv s \<and> binv b \<and> distinct (elems s) \<and> (\<forall>k. mem k b \<longleftrightarrow> k \<in> set (elems s))"

lemma agree_take:
  assumes "agree s b" and "elems s \<noteq> []"
  shows "mem (top s) b" and "agree (rest s) (del (top s) b)"
proof -
  from assms obtain ys where ys: "elems s = ys @ [top s]"
    by (metis agree_def append_butlast_last_id st.top_last)
  with assms(1) show "mem (top s) b"
    by (simp add: agree_def)
  from assms(1) ys have "elems (rest s) = ys"
    by (simp add: agree_def st.elems_rest)
  with assms(1) ys show "agree (rest s) (del (top s) b)"
    by (auto simp: agree_def ix.mem_del ix.inv_del st.inv_rest)
qed

lemma agree_room:
  assumes "agree s b" and "\<not> mem i b" and "i < cap"
  shows "length (elems s) < cap"
proof -
  have "set (elems s) \<subseteq> {..<cap} - {i}"
    using assms by (auto simp: agree_def dest: ix.mem_bound)
  then have "card (set (elems s)) \<le> card ({..<cap} - {i})"
    by (intro card_mono) auto
  with assms show ?thesis
    by (simp add: agree_def distinct_card)
qed

lemma agree_give:
  assumes "agree s b" and "\<not> mem i b" and "i < cap"
  shows "agree (psh i s) (put i b)" and "elems (psh i s) = elems s @ [i]"
proof -
  from assms have "length (elems s) < cap"
    by (rule agree_room)
  with assms(1) show e: "elems (psh i s) = elems s @ [i]"
    by (simp add: agree_def st.elems_psh)
  with assms show "agree (psh i s) (put i b)"
    by (auto simp: agree_def ix.mem_put ix.inv_put st.inv_psh)
qed

end

subsection \<open>The stack\<close>

record 'a stack =
  arr :: "'a list"
  idx :: nat

definition Stack_new :: "nat \<Rightarrow> 'a \<Rightarrow> 'a stack" where
  "Stack_new Num dflt = \<lparr>arr = replicate Num dflt, idx = 0\<rparr>"

definition Stack_empty :: "'a stack \<Rightarrow> bool" where
  "Stack_empty s \<longleftrightarrow> idx s = 0"

definition Stack_full :: "nat \<Rightarrow> 'a stack \<Rightarrow> bool" where
  "Stack_full Num s \<longleftrightarrow> idx s = Num"

definition Stack_size :: "'a stack \<Rightarrow> nat" where
  "Stack_size s = idx s"

definition Stack_resetStackPointer :: "'a stack \<Rightarrow> 'a stack" where
  "Stack_resetStackPointer s = s\<lparr>idx := 0\<rparr>"

definition Stack_pop :: "'a \<Rightarrow> 'a stack \<Rightarrow> 'a \<times> 'a stack" where
  "Stack_pop dflt s =
     (if idx s = 0 then (dflt, s)
      else let s' = s\<lparr>idx := idx s - 1\<rparr> in (arr s' ! idx s', s'))"

definition Stack_push :: "nat \<Rightarrow> 'a \<Rightarrow> 'a stack \<Rightarrow> 'a stack" where
  "Stack_push Num val s =
     (if idx s \<ge> Num then s
      else s\<lparr>arr := (arr s)[idx s := val], idx := idx s + 1\<rparr>)"

text \<open>The copy loop of \<open>drop\<close>: \<open>for (i = killIdx; i < bound; i++) arr[i] = arr[i + 1]\<close>.\<close>

function drop_loop :: "nat \<Rightarrow> nat \<Rightarrow> 'a list \<Rightarrow> 'a list kresult" where
  "drop_loop i bound xs =
     (if i < bound then
        if i + 1 < length xs then drop_loop (i + 1) bound (xs[i := xs ! (i + 1)])
        else Inl Fault
      else Inr xs)"
  by pat_completeness auto
termination
  by (relation "measure (\<lambda>(i, bound, _). bound - i)") auto

declare drop_loop.simps [simp del]

definition Stack_drop :: "nat \<Rightarrow> 'a stack \<Rightarrow> ('a \<times> 'a stack) kresult" where
  "Stack_drop killIdx s =
     (if killIdx \<ge> length (arr s) then Inl Fault
      else case drop_loop killIdx (sub32 (idx s) 1) (arr s) of
             Inl e \<Rightarrow> Inl e
           | Inr xs \<Rightarrow> Inr (arr s ! killIdx, s\<lparr>arr := xs, idx := sub32 (idx s) 1\<rparr>))"

definition Stack_get :: "nat \<Rightarrow> 'a stack \<Rightarrow> 'a kresult" where
  "Stack_get x s = (if x < length (arr s) then Inr (arr s ! x) else Inl Fault)"

text \<open>
  The loops of \<open>first\<close> and \<open>firstTrue\<close>. \<open>first\<close> stores every index it
  visits in \<open>in_idx\<close>, \<open>firstTrue\<close> only the one it stops at.
\<close>

fun first_loop :: "('a \<Rightarrow> 'r option) \<Rightarrow> 'a list \<Rightarrow> nat \<Rightarrow> nat \<Rightarrow> 'r option \<times> nat" where
  "first_loop fn [] i in_idx = (None, in_idx)"
| "first_loop fn (x # xs) i in_idx =
     (case fn x of Some r \<Rightarrow> (Some r, i) | None \<Rightarrow> first_loop fn xs (i + 1) i)"

definition Stack_first :: "nat \<Rightarrow> ('a \<Rightarrow> 'r option) \<Rightarrow> 'a stack \<Rightarrow> 'r option \<times> nat" where
  "Stack_first in_idx fn s = first_loop fn (take (idx s) (arr s)) 0 in_idx"

fun firstTrue_loop :: "('a \<Rightarrow> bool) \<Rightarrow> 'a list \<Rightarrow> nat \<Rightarrow> nat \<Rightarrow> bool \<times> nat" where
  "firstTrue_loop fn [] i in_idx = (False, in_idx)"
| "firstTrue_loop fn (x # xs) i in_idx =
     (if fn x then (True, i) else firstTrue_loop fn xs (i + 1) in_idx)"

definition Stack_firstTrue :: "nat \<Rightarrow> ('a \<Rightarrow> bool) \<Rightarrow> 'a stack \<Rightarrow> bool \<times> nat" where
  "Stack_firstTrue in_idx fn s = firstTrue_loop fn (take (idx s) (arr s)) 0 in_idx"

definition Stack_dropFirst :: "('a \<Rightarrow> bool) \<Rightarrow> 'a stack \<Rightarrow> ('a option \<times> 'a stack) kresult" where
  "Stack_dropFirst fn s =
     (case Stack_first 0 (\<lambda>x. if fn x then Some (0 :: int) else None) s of
        (None, _) \<Rightarrow> Inr (None, s)
      | (Some _, in_idx) \<Rightarrow>
          (case Stack_drop in_idx s of
             Inl e \<Rightarrow> Inl e
           | Inr (mem, s') \<Rightarrow> Inr (Some mem, s')))"

subsection \<open>The stack implements the interface\<close>

definition Stack_list :: "'a stack \<Rightarrow> 'a list" where
  "Stack_list s = take (idx s) (arr s)"

definition Stack_inv :: "nat \<Rightarrow> 'a stack \<Rightarrow> bool" where
  "Stack_inv Num s \<longleftrightarrow> length (arr s) = Num \<and> idx s \<le> Num \<and> Num < two32"

lemma Stack_list_length: "Stack_inv Num s \<Longrightarrow> length (Stack_list s) = idx s"
  by (simp add: Stack_list_def Stack_inv_def)

lemma Stack_idx_le: "Stack_inv Num s \<Longrightarrow> idx s \<le> Num"
  by (simp add: Stack_inv_def)

lemma Stack_new_inv [simp]: "Num < two32 \<Longrightarrow> Stack_inv Num (Stack_new Num d)"
  and Stack_new_list [simp]: "Stack_list (Stack_new Num d) = []"
  by (simp_all add: Stack_inv_def Stack_new_def Stack_list_def)

lemma Stack_push_list:
  "Stack_inv Num s \<Longrightarrow> Stack_list (Stack_push Num x s) =
     (if length (Stack_list s) < Num then Stack_list s @ [x] else Stack_list s)"
  by (auto simp: Stack_list_def Stack_inv_def Stack_push_def list_simps)

lemma Stack_push_inv: "Stack_inv Num s \<Longrightarrow> Stack_inv Num (Stack_push Num x s)"
  by (auto simp: Stack_inv_def Stack_push_def)

lemma Stack_pop_list:
  "Stack_inv Num s \<Longrightarrow> Stack_list s \<noteq> [] \<Longrightarrow> fst (Stack_pop d s) = last (Stack_list s)"
  "Stack_inv Num s \<Longrightarrow> Stack_list (snd (Stack_pop d s)) = butlast (Stack_list s)"
  by (auto simp: Stack_list_def Stack_inv_def Stack_pop_def Let_def nth_pred_last butlast_take)

lemma Stack_pop_inv: "Stack_inv Num s \<Longrightarrow> Stack_inv Num (snd (Stack_pop d s))"
  by (auto simp: Stack_inv_def Stack_pop_def Let_def)

lemma Stack_empty_iff: "Stack_inv Num s \<Longrightarrow> Stack_empty s \<longleftrightarrow> Stack_list s = []"
  by (auto simp: Stack_inv_def Stack_empty_def Stack_list_def)

interpretation stk: lifo Num Stack_list "Stack_push Num" "\<lambda>s. fst (Stack_pop d s)"
    "\<lambda>s. snd (Stack_pop d s)" "Stack_inv Num"
  for Num d
proof unfold_locales
  fix s :: "'a stack" and x :: 'a
  assume "Stack_inv Num s"
  then show "length (Stack_list s) = Num \<Longrightarrow> Stack_push Num x s = s"
    by (simp add: Stack_list_length Stack_push_def)
qed (auto simp: Stack_push_list Stack_push_inv Stack_pop_list Stack_pop_inv Stack_list_length
    Stack_idx_le)

interpretation flist: free_list Num Stack_list "Stack_push Num" "\<lambda>s. fst (Stack_pop 0 s)"
    "\<lambda>s. snd (Stack_pop 0 s)" "Stack_inv Num"
    "BitSet_set Num" "BitSet_clear Num" "BitSet_test Num" "BitSet_inv Num"
  for Num
  by unfold_locales

subsection \<open>Searching and dropping\<close>

lemma drop_loop_result:
  "bound < length xs \<Longrightarrow> i \<le> bound \<Longrightarrow>
   \<exists>ys. drop_loop i bound xs = Inr ys \<and> length ys = length xs \<and>
     take bound ys = take i xs @ take (bound - i) (drop (i + 1) xs)"
proof (induction i bound xs rule: drop_loop.induct)
  case (1 i bound xs)
  show ?case
  proof (cases "i < bound")
    case True
    let ?xs = "xs[i := xs ! (i + 1)]"
    from True 1 obtain ys where ys: "drop_loop (i + 1) bound ?xs = Inr ys"
      "length ys = length xs"
      "take bound ys = take (i + 1) ?xs @ take (bound - (i + 1)) (drop (i + 2) ?xs)"
      by auto
    have "drop (i + 1) xs = xs ! (i + 1) # drop (i + 2) xs"
      using True 1 by (simp add: Cons_nth_drop_Suc)
    moreover have "bound - i = Suc (bound - (i + 1))"
      using True by simp
    ultimately have "take bound ys = take i xs @ take (bound - i) (drop (i + 1) xs)"
      using True 1 ys(3) by (simp add: take_Suc_update)
    with True 1 ys show ?thesis
      by (subst drop_loop.simps) auto
  next
    case False
    with 1 show ?thesis
      by (subst drop_loop.simps) auto
  qed
qed

text \<open>
  \<open>drop k\<close> of an index in use returns that element and closes the gap; it keeps the
  order of all the others.
\<close>

lemma Stack_drop_correct:
  assumes "Stack_inv Num s" and "k < idx s"
  shows "\<exists>s'. Stack_drop k s = Inr (Stack_list s ! k, s') \<and> Stack_inv Num s' \<and>
    Stack_list s' = take k (Stack_list s) @ drop (Suc k) (Stack_list s)"
proof -
  have idx: "sub32 (idx s) 1 = idx s - 1"
    using assms by (intro sub32_exact) (auto simp: Stack_inv_def)
  have bnd: "idx s - 1 < length (arr s)" "k \<le> idx s - 1"
    using assms by (auto simp: Stack_inv_def)
  obtain ys where ys: "drop_loop k (idx s - 1) (arr s) = Inr ys" "length ys = length (arr s)"
    "take (idx s - 1) ys = take k (arr s) @ take (idx s - 1 - k) (drop (k + 1) (arr s))"
    using drop_loop_result [of "idx s - 1" "arr s" k] bnd by blast
  have "take (idx s - 1) ys = take k (Stack_list s) @ drop (Suc k) (Stack_list s)"
    using assms ys(3) by (simp add: Stack_list_def drop_take min_def)
  with assms ys(1,2) idx show ?thesis
    by (auto simp: Stack_drop_def Stack_inv_def Stack_list_def)
qed

lemma first_loop_None:
  "fst (first_loop fn xs i j) = None \<longleftrightarrow> (\<forall>x \<in> set xs. fn x = None)"
  by (induction fn xs i j rule: first_loop.induct) (auto split: option.splits)

lemma first_loop_Some:
  "first_loop fn xs i j = (Some r, m) \<Longrightarrow>
   \<exists>k. m = i + k \<and> k < length xs \<and> fn (xs ! k) = Some r \<and> (\<forall>l < k. fn (xs ! l) = None)"
proof (induction fn xs i j rule: first_loop.induct)
  case (2 fn x xs i j)
  show ?case
  proof (cases "fn x")
    case None
    with 2 obtain k where "m = i + 1 + k" "k < length xs" "fn (xs ! k) = Some r"
      "\<forall>l < k. fn (xs ! l) = None" by auto
    with None show ?thesis
      by (intro exI [of _ "Suc k"]) (auto simp: nth_Cons split: nat.splits)
  next
    case (Some a)
    with 2 show ?thesis by (intro exI [of _ 0]) auto
  qed
qed simp

lemma firstTrue_loop_spec:
  "firstTrue_loop fn xs i j = (True, m) \<Longrightarrow>
   \<exists>k. m = i + k \<and> k < length xs \<and> fn (xs ! k) \<and> (\<forall>l < k. \<not> fn (xs ! l))"
proof (induction fn xs i j rule: firstTrue_loop.induct)
  case (2 fn x xs i j)
  show ?case
  proof (cases "fn x")
    case False
    with 2 obtain k where "m = i + 1 + k" "k < length xs" "fn (xs ! k)"
      "\<forall>l < k. \<not> fn (xs ! l)" by auto
    with False show ?thesis
      by (intro exI [of _ "Suc k"]) (auto simp: nth_Cons split: nat.splits)
  next
    case True
    with 2 show ?thesis by (intro exI [of _ 0]) auto
  qed
qed simp

lemma Stack_dropFirst_none:
  "\<forall>x \<in> set (Stack_list s). \<not> fn x \<Longrightarrow> Stack_dropFirst fn s = Inr (None, s)"
  using first_loop_None [of "\<lambda>x. if fn x then Some (0::int) else None" "Stack_list s" 0 0]
  by (auto simp: Stack_dropFirst_def Stack_first_def Stack_list_def split: prod.splits option.splits)

text \<open>
  \<open>dropFirst\<close> removes the first element that satisfies the predicate, and only it.
\<close>

lemma Stack_dropFirst_some:
  assumes "Stack_inv Num s" and "\<exists>x \<in> set (Stack_list s). fn x"
  shows "\<exists>k s'. k < length (Stack_list s) \<and> fn (Stack_list s ! k) \<and>
    (\<forall>l < k. \<not> fn (Stack_list s ! l)) \<and>
    Stack_dropFirst fn s = Inr (Some (Stack_list s ! k), s') \<and> Stack_inv Num s' \<and>
    Stack_list s' = take k (Stack_list s) @ drop (Suc k) (Stack_list s)"
proof -
  let ?g = "\<lambda>x. if fn x then Some (0 :: int) else None"
  obtain r m where fl: "first_loop ?g (Stack_list s) 0 0 = (Some r, m)"
    using assms(2) first_loop_None [of ?g "Stack_list s" 0 0]
    by (metis (mono_tags, lifting) not_Some_eq prod.collapse)
  from first_loop_Some [OF fl] have m: "m < length (Stack_list s)" "fn (Stack_list s ! m)"
    "\<forall>l < m. \<not> fn (Stack_list s ! l)"
    by (auto split: if_splits)
  then obtain s' where "Stack_drop m s = Inr (Stack_list s ! m, s')" "Stack_inv Num s'"
    "Stack_list s' = take m (Stack_list s) @ drop (Suc m) (Stack_list s)"
    using Stack_drop_correct [OF assms(1), of m] assms(1) by (auto simp: Stack_list_length)
  with m fl show ?thesis
    by (intro exI [of _ m] exI [of _ s'])
      (simp add: Stack_dropFirst_def Stack_first_def Stack_list_def [symmetric])
qed

subsection \<open>The fixed memory pool\<close>

text \<open>
  \<open>MemoryPool<T, capacity>\<close>: the objects are the indices of \<open>memory\<close>;
  \<open>unusedMemory\<close> holds the unused ones up to \<open>unusedIndex\<close>. \<open>get\<close> returns
  \<open>nullptr\<close> (\<open>None\<close>) when none is left; \<open>release\<close> stores at the next index
  without a bound check.
\<close>

record pool =
  unusedIndex :: int
  unusedMemory :: "nat list"

definition MemoryPool_new :: "nat \<Rightarrow> pool" where
  "MemoryPool_new capacity = \<lparr>unusedIndex = int capacity - 1, unusedMemory = [0..<capacity]\<rparr>"

definition MemoryPool_get :: "pool \<Rightarrow> nat option \<times> pool" where
  "MemoryPool_get p =
     (if unusedIndex p < 0 then (None, p)
      else (Some (unusedMemory p ! nat (unusedIndex p)), p\<lparr>unusedIndex := unusedIndex p - 1\<rparr>))"

definition MemoryPool_release :: "nat \<Rightarrow> pool \<Rightarrow> pool kresult" where
  "MemoryPool_release ptr p =
     (let i = unusedIndex p + 1 in
      if 0 \<le> i \<and> i < int (length (unusedMemory p)) then
        Inr (p\<lparr>unusedIndex := i, unusedMemory := (unusedMemory p)[nat i := ptr]\<rparr>)
      else Inl Fault)"

definition pool_free :: "pool \<Rightarrow> nat list" where
  "pool_free p = take (nat (unusedIndex p + 1)) (unusedMemory p)"

definition pool_inv :: "nat \<Rightarrow> pool \<Rightarrow> bool" where
  "pool_inv capacity p \<longleftrightarrow> length (unusedMemory p) = capacity \<and> - 1 \<le> unusedIndex p \<and>
     unusedIndex p < int capacity \<and> distinct (pool_free p) \<and> set (pool_free p) \<subseteq> {..<capacity}"

lemma MemoryPool_new_inv: "pool_inv n (MemoryPool_new n)" "pool_free (MemoryPool_new n) = [0..<n]"
  by (auto simp: pool_inv_def pool_free_def MemoryPool_new_def)

lemma MemoryPool_get_some:
  assumes "pool_inv n p" and "pool_free p \<noteq> []"
  shows "\<exists>p'. MemoryPool_get p = (Some (last (pool_free p)), p') \<and>
    pool_free p' = butlast (pool_free p) \<and> pool_inv n p'"
proof -
  define k where "k = nat (unusedIndex p + 1)"
  have k: "0 < k" "k \<le> n" "unusedIndex p = int k - 1" "length (unusedMemory p) = n"
    using assms by (auto simp: k_def pool_inv_def pool_free_def)
  have fr: "pool_free p = take k (unusedMemory p)"
    by (simp add: pool_free_def k_def)
  let ?p = "p\<lparr>unusedIndex := unusedIndex p - 1\<rparr>"
  have fr': "pool_free ?p = butlast (pool_free p)"
    using k fr by (simp add: pool_free_def nat_diff_distrib butlast_take)
  have "nat (int k - 1) = k - Suc 0"
    using k by simp
  then have "MemoryPool_get p = (Some (last (pool_free p)), ?p)"
    using k fr by (simp add: MemoryPool_get_def nth_pred_last)
  moreover have "pool_inv n ?p"
    using assms k fr' by (auto simp: pool_inv_def distinct_butlast dest: in_set_butlastD)
  ultimately show ?thesis
    using fr' by auto
qed

lemma MemoryPool_release_free:
  assumes "pool_inv n p" and "ptr < n" and "ptr \<notin> set (pool_free p)"
  shows "\<exists>p'. MemoryPool_release ptr p = Inr p' \<and> pool_free p' = pool_free p @ [ptr] \<and> pool_inv n p'"
proof -
  define k where "k = nat (unusedIndex p + 1)"
  have k: "k \<le> n" "unusedIndex p = int k - 1" "length (unusedMemory p) = n"
    using assms by (auto simp: k_def pool_inv_def)
  have fr: "pool_free p = take k (unusedMemory p)"
    by (simp add: pool_free_def k_def)
  have "set (pool_free p) \<subseteq> {..<n} - {ptr}" and "distinct (pool_free p)"
    using assms by (auto simp: pool_inv_def)
  then have "length (pool_free p) \<le> card ({..<n} - {ptr})"
    by (metis card_mono distinct_card finite_Diff finite_lessThan)
  then have "k < n"
    using assms(2) k fr by simp
  with assms k fr show ?thesis
    by (auto simp: MemoryPool_release_def Let_def pool_inv_def pool_free_def take_Suc_update
        nat_add_distrib)
qed

subsection \<open>Properties\<close>

text \<open>
  C2: \<open>Stack\<close> is last-in first-out within its capacity: a push on a stack that is not
  full followed by a pop returns the pushed value and leaves the earlier contents, a push on a full
  stack changes nothing, and a pop of an empty stack returns the default value.
\<close>

theorem stack_push_pop:
  assumes "Stack_inv Num s"
  shows "(\<not> Stack_full Num s \<longrightarrow> fst (Stack_pop d (Stack_push Num x s)) = x \<and>
      Stack_list (snd (Stack_pop d (Stack_push Num x s))) = Stack_list s) \<and>
    (Stack_full Num s \<longrightarrow> Stack_push Num x s = s) \<and>
    (Stack_empty s \<longrightarrow> Stack_pop d s = (d, s))"
proof -
  have "Stack_empty s \<Longrightarrow> Stack_pop d s = (d, s)"
    by (simp add: Stack_empty_def Stack_pop_def)
  then show ?thesis
    using assms stk.pop_psh [where d = d, OF assms] stk.psh_full [OF assms] Stack_idx_le [OF assms]
    by (auto simp: Stack_full_def Stack_list_length)
qed

theorem stack_push_pop_witness:
  "fst (Stack_pop 0 (Stack_push 3 (7::int) (Stack_new 3 0))) = 7"
  using stack_push_pop [of 3 "Stack_new 3 (0::int)" 0 7]
  by (simp add: Stack_full_def Stack_new_def Stack_inv_def)

text \<open>
  C3: \<open>dropFirst\<close> removes the first element that satisfies the predicate, keeps the order
  of all others and never accesses the array out of range; when no element satisfies the predicate it
  changes nothing.
\<close>

theorem stack_dropFirst_removes_first:
  assumes "Stack_inv Num s"
  shows "(find fn (Stack_list s) = None \<and> Stack_dropFirst fn s = Inr (None, s)) \<or>
    (\<exists>ys x zs s'. Stack_list s = ys @ x # zs \<and> fn x \<and> (\<forall>y \<in> set ys. \<not> fn y) \<and>
       Stack_dropFirst fn s = Inr (Some x, s') \<and> Stack_list s' = ys @ zs \<and> Stack_inv Num s')"
proof (cases "\<exists>x \<in> set (Stack_list s). fn x")
  case False
  then show ?thesis by (simp add: Stack_dropFirst_none find_None_iff)
next
  case True
  from Stack_dropFirst_some [OF assms True] obtain k s' where
    k: "k < length (Stack_list s)" "fn (Stack_list s ! k)" "\<forall>l < k. \<not> fn (Stack_list s ! l)"
    and s': "Stack_dropFirst fn s = Inr (Some (Stack_list s ! k), s')" "Stack_inv Num s'"
      "Stack_list s' = take k (Stack_list s) @ drop (Suc k) (Stack_list s)"
    by blast
  from k have "\<forall>y \<in> set (take k (Stack_list s)). \<not> fn y"
    by (auto simp: in_set_conv_nth)
  with k s' id_take_nth_drop [OF k(1)] show ?thesis by blast
qed

theorem stack_dropFirst_removes_first_witness:
  "\<exists>s'. Stack_dropFirst (\<lambda>x. x = 4) \<lparr>arr = [3, 4, 5, 0], idx = 3\<rparr> = Inr (Some (4::nat), s') \<and>
     Stack_list s' = [3, 5]"
proof -
  have "Stack_inv 4 \<lparr>arr = [3, 4, 5, 0::nat], idx = 3\<rparr>" by (simp add: Stack_inv_def)
  from stack_dropFirst_removes_first [OF this, of "\<lambda>x. x = 4"] obtain ys x zs s' where
    e: "[3, 4, 5 :: nat] = ys @ x # zs" "x = 4" "\<forall>y \<in> set ys. y \<noteq> 4" and
    "Stack_dropFirst (\<lambda>x. x = 4) \<lparr>arr = [3, 4, 5, 0], idx = 3\<rparr> = Inr (Some x, s')"
    "Stack_list s' = ys @ zs"
    by (auto simp: Stack_list_def)
  moreover from e have "ys = [3] \<and> zs = [5]"
    by (auto simp: Cons_eq_append_conv)
  ultimately show ?thesis by auto
qed

end
