(* ===== verification/KRing.thy ===== *)
theory KRing
  imports Prelude
begin

text \<open>
  Circular reading of an array: \<open>ring cap f n xs\<close> lists the \<open>n\<close> elements that
  start at index \<open>f\<close> and wrap at \<open>cap\<close>. The deque and the ring buffer both keep
  their contents this way; the lemmas say how one store changes the sequence read.
\<close>

definition ring :: "nat \<Rightarrow> nat \<Rightarrow> nat \<Rightarrow> 'b list \<Rightarrow> 'b list" where
  "ring cap f n xs = map (\<lambda>i. xs ! ((f + i) mod cap)) [0..<n]"

lemma length_ring [simp]: "length (ring cap f n xs) = n"
  by (simp add: ring_def)

lemma nth_ring [simp]: "i < n \<Longrightarrow> ring cap f n xs ! i = xs ! ((f + i) mod cap)"
  by (simp add: ring_def)

lemma ring_0 [simp]: "ring cap f 0 xs = []"
  by (simp add: ring_def)

lemma ring_offset_inj:
  assumes "i < cap" and "j < cap" and "(f + i) mod cap = (f + j) mod (cap::nat)"
  shows "i = j"
  using assms
proof (induction i j rule: linorder_wlog)
  case (le i j)
  then have "cap dvd (f + j) - (f + i)"
    by (metis mod_eq_dvd_iff_nat add_le_mono1 add.commute)
  moreover from le have "j - i < cap" by simp
  ultimately have "j - i = 0"
    by (metis add_diff_cancel_left nat_dvd_not_less neq0_conv)
  with le show ?case by simp
qed simp

lemma ring_snoc: "ring cap f (Suc n) xs = ring cap f n xs @ [xs ! ((f + n) mod cap)]"
  by (simp add: ring_def)

lemma ring_Cons:
  "ring cap f (Suc n) xs = xs ! (f mod cap) # ring cap ((f + 1) mod cap) n xs"
  by (rule nth_equalityI) (auto simp: nth_Cons mod_simps split: nat.splits)

lemma ring_update_other:
  assumes "n \<le> m" and "m < cap" and "length xs = cap"
  shows "ring cap f n (xs[(f + m) mod cap := v]) = ring cap f n xs"
proof (rule nth_equalityI)
  fix i assume "i < length (ring cap f n (xs[(f + m) mod cap := v]))"
  then have "i < n" by simp
  then have "(f + i) mod cap \<noteq> (f + m) mod cap"
    using assms ring_offset_inj [of i cap m f] by auto
  with \<open>i < n\<close> show "ring cap f n (xs[(f + m) mod cap := v]) ! i = ring cap f n xs ! i"
    by simp
qed simp

lemma ring_whole: "length xs = cap \<Longrightarrow> ring cap 0 n xs = take n xs" if "n \<le> cap"
  using that by (intro nth_equalityI) auto

lemma succ_ring: "cap \<le> 262144 \<Longrightarrow> i < cap \<Longrightarrow> add32 i (Suc 0) mod cap = Suc i mod cap"
  by (simp add: add32_exact)

lemma pred_ring:
  assumes "0 < cap" and "cap \<le> 262144"
  shows "add32 (sub32 ((f + Suc m) mod cap) 1) cap mod cap = (f + m) mod cap"
proof -
  define a where "a = (f + m) mod cap"
  have a: "a < cap" and "(f + Suc m) mod cap = (a + 1) mod cap"
    using assms by (simp_all add: a_def mod_simps)
  moreover have "add32 (sub32 ((a + 1) mod cap) 1) cap mod cap =
      (if (a + 1) mod cap = 0 then cap - 1 else (a + 1) mod cap - 1)"
    using assms by (intro pred_mod32) auto
  ultimately show ?thesis
    using a succ_mod [OF a] unfolding a_def [symmetric] by (auto split: if_splits)
qed

lemma ring_prev:
  assumes "0 < cap" and "f < cap"
  shows "((f + cap - 1) mod cap + 1) mod cap = (f :: nat)"
  using assms by (cases f) (auto simp: mod_simps)

lemma ring_shift: "(p + Suc k) mod cap = ((p + 1) mod cap + k) mod (cap :: nat)"
  by (simp add: mod_simps)

lemma ring_next:
  assumes "f < cap"
  shows "((f + 1) mod cap + (cap - 1)) mod cap = (f :: nat)"
proof -
  have "((f + 1) mod cap + (cap - 1)) mod cap = (f + Suc (cap - 1)) mod cap"
    by (rule ring_shift [symmetric])
  with assms show ?thesis by simp
qed

definition at_off :: "nat \<Rightarrow> nat \<Rightarrow> 'b list \<Rightarrow> nat \<Rightarrow> 'b" where
  "at_off cap f xs q = xs ! ((f + q) mod cap)"

lemma at_off_update:
  assumes "length xs = cap" and "q < cap" and "m < cap"
  shows "at_off cap f (xs[(f + m) mod cap := v]) q = (if q = m then v else at_off cap f xs q)"
proof (cases "q = m")
  case True
  with assms show ?thesis by (simp add: at_off_def)
next
  case False
  then have "(f + q) mod cap \<noteq> (f + m) mod cap"
    using ring_offset_inj [of q cap m f] assms by blast
  with False show ?thesis by (simp add: at_off_def)
qed

lemma ring_at_off: "ring cap f n xs = map (at_off cap f xs) [0..<n]"
  by (simp add: ring_def at_off_def)

end
