(* ===== verification/KDeque.thy ===== *)
theory KDeque
  imports KRing
begin

text \<open>
  The kernel's double-ended queue, \<open>Deque<T>\<close> of inc/klibs/deque.h: a circular array
  of pointers to heap objects, which the run queue of the scheduler and the window lists
  use.

  A slot of the array is \<open>Uninit\<close> (the array came from \<open>new T*[n]\<close> and was never
  stored to), \<open>Null\<close>, or a pointer to a live object. \<open>size_t\<close> fields are natural
  numbers; the sentinel \<open>-1\<close> is \<open>4294967295\<close>. A deleted array is the empty list.

  \<open>operator new\<close> may fail (klibs/kmalloc.cpp raises exception 24). The argument
  \<open>al\<close> says which request sizes in bytes the allocator serves, \<open>esz\<close> is
  \<open>sizeof(T)\<close>. The only fact used about \<open>al\<close> is that no request above
  1 MB is served, which \<open>allocImpl\<close> guarantees.

  The interface \<open>rr_queue\<close> is the part the scheduler calls, with a list as its
  abstract value.
\<close>

subsection \<open>The interface\<close>

locale rr_queue =
  fixes elems :: "'q \<Rightarrow> 'a list"
    and inv :: "'q \<Rightarrow> bool"
    and isempty :: "'q \<Rightarrow> bool"
    and frnt :: "'q \<Rightarrow> 'a kresult"
    and popf :: "'q \<Rightarrow> 'q kresult"
    and pushb :: "'a \<Rightarrow> 'q \<Rightarrow> 'q kresult"
  assumes isempty_iff: "inv q \<Longrightarrow> isempty q \<longleftrightarrow> elems q = []"
    and frnt_hd: "inv q \<Longrightarrow> elems q \<noteq> [] \<Longrightarrow> frnt q = Inr (hd (elems q))"
    and popf_tl: "inv q \<Longrightarrow> popf q = Inr q' \<Longrightarrow> elems q' = tl (elems q) \<and> inv q'"
    and pushb_snoc: "inv q \<Longrightarrow> pushb x q = Inr q' \<Longrightarrow> elems q' = elems q @ [x] \<and> inv q'"
begin

text \<open>One round of the round-robin loop: the head moves to the tail.\<close>

lemma rotate_step:
  assumes "inv q" and "elems q = x # xs" and "popf q = Inr q1" and "pushb x q1 = Inr q2"
  shows "elems q2 = rotate1 (elems q)" and "inv q2"
proof -
  from popf_tl [OF assms(1,3)] have "elems q1 = tl (elems q)" and "inv q1" by simp_all
  with pushb_snoc [OF \<open>inv q1\<close> assms(4)] assms(2)
  show "elems q2 = rotate1 (elems q)" and "inv q2" by simp_all
qed

end

subsection \<open>The object\<close>

datatype 'a slot = Uninit | Null | Obj 'a

record 'a deque =
  mCapacity :: nat
  mSize :: nat
  mFront :: nat
  mBack :: nat
  mContents :: "'a slot list"

definition sInitialCapacity :: nat where
  "sInitialCapacity = 2"

definition minus_one32 :: nat where
  "minus_one32 = 4294967295"

definition new_array :: "(nat \<Rightarrow> bool) \<Rightarrow> nat \<Rightarrow> 'a slot list kresult" where
  "new_array al n = (if al (4 * n) then Inr (replicate n Uninit) else Inl (Trap 24))"

definition new_elem :: "(nat \<Rightarrow> bool) \<Rightarrow> nat \<Rightarrow> 'a \<Rightarrow> 'a slot kresult" where
  "new_elem al esz v = (if al esz then Inr (Obj v) else Inl (Trap 24))"

definition delete_slot :: "'a slot \<Rightarrow> unit kresult" where
  "delete_slot sl = (case sl of Uninit \<Rightarrow> Inl Fault | Null \<Rightarrow> Inr () | Obj _ \<Rightarrow> Inr ())"

definition deref :: "'a slot \<Rightarrow> 'a kresult" where
  "deref sl = (case sl of Obj v \<Rightarrow> Inr v | _ \<Rightarrow> Inl Fault)"

subsection \<open>Private helpers\<close>

fun nullify_loop :: "nat \<Rightarrow> nat \<Rightarrow> nat \<Rightarrow> 'a slot list \<Rightarrow> 'a slot list kresult" where
  "nullify_loop 0 cap item xs = Inr xs"
| "nullify_loop (Suc k) cap item xs =
     kbind (rd xs item) (\<lambda>p. kbind (delete_slot p) (\<lambda>_. kbind (wr xs item Null) (\<lambda>xs'.
       nullify_loop k cap (add32 item 1 mod cap) xs')))"

definition Deque_nullifyContent :: "'a deque \<Rightarrow> 'a deque kresult" where
  "Deque_nullifyContent d =
     kbind (nullify_loop (mSize d) (mCapacity d) (mFront d) (mContents d))
       (\<lambda>xs. Inr (d\<lparr>mContents := xs\<rparr>))"

definition Deque_clear_priv :: "'a deque \<Rightarrow> 'a deque kresult" where
  "Deque_clear_priv d = kbind (Deque_nullifyContent d) (\<lambda>d'. Inr (d'\<lparr>mContents := []\<rparr>))"

fun copy_loop ::
  "(nat \<Rightarrow> bool) \<Rightarrow> nat \<Rightarrow> nat \<Rightarrow> nat \<Rightarrow> nat \<Rightarrow> 'a slot list \<Rightarrow> 'a slot list \<Rightarrow> 'a slot list kresult"
where
  "copy_loop al esz 0 cap item other xs = Inr xs"
| "copy_loop al esz (Suc k) cap item other xs =
     kbind (rd other item) (\<lambda>p. kbind (deref p) (\<lambda>v. kbind (new_elem al esz v) (\<lambda>p'.
       kbind (wr xs item p') (\<lambda>xs'. copy_loop al esz k cap (add32 item 1 mod cap) other xs'))))"

definition Deque_copy_priv :: "(nat \<Rightarrow> bool) \<Rightarrow> nat \<Rightarrow> 'a deque \<Rightarrow> 'a deque kresult" where
  "Deque_copy_priv al esz other =
     kbind (new_array al (mCapacity other)) (\<lambda>xs.
       kbind (copy_loop al esz (mSize other) (mCapacity other) (mFront other) (mContents other) xs)
         (\<lambda>xs'. Inr \<lparr>mCapacity = mCapacity other, mSize = mSize other, mFront = mFront other,
                  mBack = mBack other, mContents = xs'\<rparr>))"

definition Deque_init :: "(nat \<Rightarrow> bool) \<Rightarrow> 'a deque kresult" where
  "Deque_init al =
     kbind (new_array al sInitialCapacity) (\<lambda>xs.
       Inr \<lparr>mCapacity = sInitialCapacity, mSize = 0, mFront = minus_one32, mBack = minus_one32,
            mContents = map (\<lambda>_. Null) (xs :: 'a slot list)\<rparr>)"

fun resetCap_loop ::
  "nat \<Rightarrow> nat \<Rightarrow> nat \<Rightarrow> nat \<Rightarrow> 'a slot list \<Rightarrow> 'a slot list \<Rightarrow> 'a slot list kresult" where
  "resetCap_loop 0 i cap item old new = Inr new"
| "resetCap_loop (Suc k) i cap item old new =
     kbind (rd old item) (\<lambda>p. kbind (wr new i p) (\<lambda>new'.
       resetCap_loop k (i + 1) cap (add32 item 1 mod cap) old new'))"

definition Deque_resetCap :: "(nat \<Rightarrow> bool) \<Rightarrow> nat \<Rightarrow> 'a deque \<Rightarrow> 'a deque kresult" where
  "Deque_resetCap al newCap d =
     (if newCap \<le> mSize d then Inr d
      else kbind (new_array al newCap) (\<lambda>newArr.
        kbind (resetCap_loop (mSize d) 0 (mCapacity d) (mFront d) (mContents d) newArr) (\<lambda>newArr'.
          Inr (d\<lparr>mFront := 0, mBack := sub32 (mSize d) 1, mCapacity := newCap,
                 mContents := newArr'\<rparr>))))"

subsection \<open>Public operations\<close>

definition Deque_new :: "(nat \<Rightarrow> bool) \<Rightarrow> 'a deque kresult" where
  "Deque_new al = Deque_init al"

definition Deque_new_copy :: "(nat \<Rightarrow> bool) \<Rightarrow> nat \<Rightarrow> 'a deque \<Rightarrow> 'a deque kresult" where
  "Deque_new_copy al esz other = Deque_copy_priv al esz other"

definition Deque_destroy :: "'a deque \<Rightarrow> 'a deque kresult" where
  "Deque_destroy d = Deque_clear_priv d"

text \<open>
  \<open>operator=\<close> clears the target and then copies. When the source is the target
  itself, the copy reads the cleared object.
\<close>

definition Deque_assign :: "(nat \<Rightarrow> bool) \<Rightarrow> nat \<Rightarrow> 'a deque \<Rightarrow> 'a deque \<Rightarrow> 'a deque kresult" where
  "Deque_assign al esz d other =
     kbind (Deque_clear_priv d) (\<lambda>_. Deque_copy_priv al esz other)"

definition Deque_assign_self :: "(nat \<Rightarrow> bool) \<Rightarrow> nat \<Rightarrow> 'a deque \<Rightarrow> 'a deque kresult" where
  "Deque_assign_self al esz d =
     kbind (Deque_clear_priv d) (\<lambda>d'. Deque_copy_priv al esz d')"

definition Deque_index :: "nat \<Rightarrow> 'a deque \<Rightarrow> 'a kresult" where
  "Deque_index pos d =
     (if pos \<ge> mSize d then Inl Panic
      else kbind (rd (mContents d) (add32 (mFront d) pos mod mCapacity d)) deref)"

definition Deque_empty :: "'a deque \<Rightarrow> bool" where
  "Deque_empty d \<longleftrightarrow> mSize d = 0"

definition Deque_size :: "'a deque \<Rightarrow> nat" where
  "Deque_size d = mSize d"

definition Deque_max_size :: "'a deque \<Rightarrow> nat" where
  "Deque_max_size d = mCapacity d"

definition Deque_clear :: "(nat \<Rightarrow> bool) \<Rightarrow> 'a deque \<Rightarrow> 'a deque kresult" where
  "Deque_clear al d = kbind (Deque_clear_priv d) (\<lambda>_. Deque_init al)"

definition Deque_front :: "'a deque \<Rightarrow> 'a slot kresult" where
  "Deque_front d = (if mSize d = 0 then Inr Null else rd (mContents d) (mFront d))"

definition Deque_back :: "'a deque \<Rightarrow> 'a slot kresult" where
  "Deque_back d = (if mSize d = 0 then Inr Null else rd (mContents d) (mBack d))"

definition Deque_push_first :: "(nat \<Rightarrow> bool) \<Rightarrow> nat \<Rightarrow> 'a \<Rightarrow> 'a deque \<Rightarrow> 'a deque kresult" where
  "Deque_push_first al esz val d =
     kbind (new_elem al esz val) (\<lambda>p. kbind (wr (mContents d) 0 p) (\<lambda>xs.
       Inr (d\<lparr>mContents := xs, mBack := 0, mFront := 0, mSize := mSize d + 1\<rparr>)))"

definition Deque_grow :: "(nat \<Rightarrow> bool) \<Rightarrow> 'a deque \<Rightarrow> 'a deque kresult" where
  "Deque_grow al d =
     (if mSize d = mCapacity d then Deque_resetCap al (mul32 2 (mCapacity d)) d else Inr d)"

definition Deque_push_back :: "(nat \<Rightarrow> bool) \<Rightarrow> nat \<Rightarrow> 'a \<Rightarrow> 'a deque \<Rightarrow> 'a deque kresult" where
  "Deque_push_back al esz val d =
     (if mSize d = 0 then Deque_push_first al esz val d
      else kbind (Deque_grow al d) (\<lambda>d1.
        let pos = add32 (mBack d1) 1 mod mCapacity d1 in
        kbind (new_elem al esz val) (\<lambda>p. kbind (wr (mContents d1) pos p) (\<lambda>xs.
          Inr (d1\<lparr>mSize := mSize d1 + 1, mContents := xs, mBack := pos\<rparr>)))))"

definition Deque_push_front :: "(nat \<Rightarrow> bool) \<Rightarrow> nat \<Rightarrow> 'a \<Rightarrow> 'a deque \<Rightarrow> 'a deque kresult" where
  "Deque_push_front al esz val d =
     (if mSize d = 0 then Deque_push_first al esz val d
      else kbind (Deque_grow al d) (\<lambda>d1.
        let pos = add32 (sub32 (mFront d1) 1) (mCapacity d1) mod mCapacity d1 in
        kbind (new_elem al esz val) (\<lambda>p. kbind (wr (mContents d1) pos p) (\<lambda>xs.
          Inr (d1\<lparr>mSize := mSize d1 + 1, mContents := xs, mFront := pos\<rparr>)))))"

fun insert_loop :: "nat \<Rightarrow> nat \<Rightarrow> nat \<Rightarrow> 'a slot list \<Rightarrow> 'a slot list kresult" where
  "insert_loop 0 cap i xs = Inr xs"
| "insert_loop (Suc k) cap i xs =
     kbind (rd xs i) (\<lambda>p. kbind (wr xs (add32 i 1 mod cap) p) (\<lambda>xs'.
       insert_loop k cap (add32 (sub32 i 1) cap mod cap) xs'))"

definition Deque_insert ::
  "(nat \<Rightarrow> bool) \<Rightarrow> nat \<Rightarrow> 'a \<Rightarrow> nat \<Rightarrow> 'a deque \<Rightarrow> 'a deque kresult" where
  "Deque_insert al esz val index d =
     (if index = mSize d then Deque_push_back al esz val d
      else if index = 0 then Deque_push_front al esz val d
      else if mSize d = 0 then Deque_push_first al esz val d
      else kbind (Deque_grow al d) (\<lambda>d1.
        let size1 = mSize d1 + 1;
            pos = add32 (mFront d1) index mod mCapacity d1;
            toMove = sub32 size1 index
        in kbind (insert_loop toMove (mCapacity d1) (mBack d1) (mContents d1)) (\<lambda>xs.
           kbind (new_elem al esz val) (\<lambda>p. kbind (wr xs pos p) (\<lambda>xs'.
             Inr (d1\<lparr>mSize := size1, mBack := add32 (mBack d1) 1 mod mCapacity d1,
                     mContents := xs'\<rparr>))))))"

definition Deque_shrink :: "(nat \<Rightarrow> bool) \<Rightarrow> 'a deque \<Rightarrow> 'a deque kresult" where
  "Deque_shrink al d =
     (if mSize d \<le> mCapacity d div 2 then Deque_resetCap al (mCapacity d div 2) d else Inr d)"

definition Deque_pop_back :: "(nat \<Rightarrow> bool) \<Rightarrow> 'a deque \<Rightarrow> 'a deque kresult" where
  "Deque_pop_back al d =
     (if mSize d = 0 then Inr d
      else kbind (rd (mContents d) (mBack d)) (\<lambda>p. kbind (delete_slot p) (\<lambda>_.
        kbind (wr (mContents d) (mBack d) Null) (\<lambda>xs.
          Deque_shrink al (d\<lparr>mContents := xs,
            mBack := add32 (sub32 (mBack d) 1) (mCapacity d) mod mCapacity d,
            mSize := mSize d - 1\<rparr>)))))"

definition Deque_pop_front :: "(nat \<Rightarrow> bool) \<Rightarrow> 'a deque \<Rightarrow> 'a deque kresult" where
  "Deque_pop_front al d =
     (if mSize d = 0 then Inr d
      else kbind (rd (mContents d) (mFront d)) (\<lambda>p. kbind (delete_slot p) (\<lambda>_.
        kbind (wr (mContents d) (mFront d) Null) (\<lambda>xs.
          Deque_shrink al (d\<lparr>mContents := xs,
            mFront := add32 (mFront d) 1 mod mCapacity d,
            mSize := mSize d - 1\<rparr>)))))"

subsection \<open>Representation relation\<close>

text \<open>\<open>Deque_rep d vs\<close>: the object \<open>d\<close> holds the sequence \<open>vs\<close>.\<close>

definition Deque_rep :: "'a deque \<Rightarrow> 'a list \<Rightarrow> bool" where
  "Deque_rep d vs \<longleftrightarrow>
     length (mContents d) = mCapacity d \<and> 0 < mCapacity d \<and> mCapacity d \<le> 262144 \<and>
     mSize d = length vs \<and> mSize d \<le> mCapacity d \<and>
     (vs \<noteq> [] \<longrightarrow> mFront d < mCapacity d \<and> mBack d = (mFront d + (mSize d - 1)) mod mCapacity d) \<and>
     ring (mCapacity d) (mFront d) (mSize d) (mContents d) = map Obj vs"

definition Deque_elems :: "'a deque \<Rightarrow> 'a list" where
  "Deque_elems d = map (\<lambda>sl. case sl of Obj v \<Rightarrow> v | _ \<Rightarrow> undefined)
     (ring (mCapacity d) (mFront d) (mSize d) (mContents d))"

definition Deque_inv :: "'a deque \<Rightarrow> bool" where
  "Deque_inv d \<longleftrightarrow> Deque_rep d (Deque_elems d)"

lemma Deque_rep_elems: "Deque_rep d vs \<Longrightarrow> Deque_elems d = vs"
  by (auto simp: Deque_rep_def Deque_elems_def o_def)

lemma Deque_rep_iff: "Deque_rep d vs \<longleftrightarrow> Deque_inv d \<and> Deque_elems d = vs"
  by (auto simp: Deque_inv_def dest: Deque_rep_elems)

definition al_small :: "(nat \<Rightarrow> bool) \<Rightarrow> bool" where
  "al_small al \<longleftrightarrow> (\<forall>b. al b \<longrightarrow> b \<le> 1048576)"

lemma resetCap_loop_correct:
  "length old = cap \<Longrightarrow> cap \<le> 262144 \<Longrightarrow> item < cap \<or> k = 0 \<Longrightarrow> i + k \<le> length new \<Longrightarrow>
   resetCap_loop k i cap item old new = Inr (take i new @ ring cap item k old @ drop (i + k) new)"
proof (induction k i cap item old new rule: resetCap_loop.induct)
  case (2 k i cap item old new)
  then show ?case
    by (simp add: succ_ring ring_Cons take_Suc_update)
qed simp

lemma Deque_resetCap_correct:
  assumes "Deque_rep d vs" and "al_small al" and "Deque_resetCap al newCap d = Inr d'"
  shows "Deque_rep d' vs" and "newCap > mSize d \<Longrightarrow> mCapacity d' = newCap"
proof -
  have "Deque_rep d' vs \<and> (newCap > mSize d \<longrightarrow> mCapacity d' = newCap)"
  proof (cases "newCap \<le> mSize d")
    case True
    with assms show ?thesis by (simp add: Deque_resetCap_def)
  next
    case False
    with assms(3) have al: "al (4 * newCap)"
      by (auto simp: Deque_resetCap_def new_array_def split: if_splits)
    with assms(2) have cap: "newCap \<le> 262144"
      by (auto simp: al_small_def)
    let ?r = "ring (mCapacity d) (mFront d) (mSize d) (mContents d)"
    have "resetCap_loop (mSize d) 0 (mCapacity d) (mFront d) (mContents d) (replicate newCap Uninit)
        = Inr (?r @ replicate (newCap - mSize d) Uninit)"
      using assms(1) False by (subst resetCap_loop_correct) (auto simp: Deque_rep_def)
    with assms(3) False al have d': "d' = d\<lparr>mFront := 0, mBack := sub32 (mSize d) 1,
        mCapacity := newCap, mContents := ?r @ replicate (newCap - mSize d) Uninit\<rparr>"
      by (simp add: Deque_resetCap_def new_array_def)
    have "vs \<noteq> [] \<Longrightarrow> sub32 (mSize d) 1 = mSize d - 1"
      using assms(1) by (intro sub32_exact) (auto simp: Deque_rep_def Suc_le_eq)
    with assms(1) False cap show ?thesis
      by (auto simp: d' Deque_rep_def ring_whole)
  qed
  then show "Deque_rep d' vs" and "newCap > mSize d \<Longrightarrow> mCapacity d' = newCap"
    by simp_all
qed

subsection \<open>Every operation on the represented sequence\<close>

lemma Deque_grow_correct:
  assumes "Deque_rep d vs" and "al_small al" and "Deque_grow al d = Inr d'" and "vs \<noteq> []"
  shows "Deque_rep d' vs" and "mSize d' < mCapacity d'"
proof -
  have cap: "mul32 2 (mCapacity d) = 2 * mCapacity d"
    using assms(1) by (intro mul32_exact) (auto simp: Deque_rep_def)
  show rep: "Deque_rep d' vs"
    using assms by (auto simp: Deque_grow_def intro: Deque_resetCap_correct split: if_splits)
  show "mSize d' < mCapacity d'"
  proof (cases "mSize d = mCapacity d")
    case True
    then have "mCapacity d' = 2 * mCapacity d"
      using assms Deque_resetCap_correct(2) [of d vs al "2 * mCapacity d" d'] cap
      by (auto simp: Deque_grow_def Deque_rep_def)
    with True assms(1) rep show ?thesis by (auto simp: Deque_rep_def)
  next
    case False
    with assms show ?thesis by (auto simp: Deque_grow_def Deque_rep_def)
  qed
qed

lemma Deque_push_first_correct:
  assumes "Deque_rep d []" and "Deque_push_first al esz v d = Inr d'"
  shows "Deque_rep d' [v]"
  using assms
  by (auto simp: Deque_push_first_def Deque_rep_def new_elem_def ring_def split: if_splits)

lemma Deque_push_back_correct:
  assumes "Deque_rep d vs" and "al_small al" and "Deque_push_back al esz v d = Inr d'"
  shows "Deque_rep d' (vs @ [v])"
proof (cases "vs = []")
  case True
  moreover from this assms(1) have "mSize d = 0" by (simp add: Deque_rep_def)
  ultimately show ?thesis
    using assms Deque_push_first_correct [of d al esz v d'] by (simp add: Deque_push_back_def)
next
  case False
  then have "mSize d \<noteq> 0"
    using assms(1) by (auto simp: Deque_rep_def)
  then obtain d1 where d1: "Deque_grow al d = Inr d1"
    using assms(3) by (auto simp: Deque_push_back_def kbind_eq_Inr)
  note g = Deque_grow_correct [OF assms(1,2) d1 False]
  let ?cap = "mCapacity d1" and ?n = "mSize d1"
  have n: "?n = length vs" "0 < ?n" and cap: "?cap \<le> 262144" "length (mContents d1) = ?cap"
    and fr: "mFront d1 < ?cap"
    using g False by (auto simp: Deque_rep_def)
  have "mBack d1 = (mFront d1 + (?n - 1)) mod ?cap"
    using g(1) False by (simp add: Deque_rep_def)
  then have "add32 (mBack d1) 1 mod ?cap = (mFront d1 + ?n) mod ?cap"
    using n cap g(2) by (simp add: succ_ring mod_simps)
  with assms(3) d1 \<open>mSize d \<noteq> 0\<close> cap g(2) have d': "d' = d1\<lparr>mSize := ?n + 1,
      mContents := (mContents d1)[(mFront d1 + ?n) mod ?cap := Obj v],
      mBack := (mFront d1 + ?n) mod ?cap\<rparr>"
    by (auto simp: Deque_push_back_def Let_def new_elem_def split: if_splits)
  show ?thesis
    using g n cap fr
    by (auto simp: d' Deque_rep_def ring_snoc ring_update_other)
qed

lemma Deque_push_front_correct:
  assumes "Deque_rep d vs" and "al_small al" and "Deque_push_front al esz v d = Inr d'"
  shows "Deque_rep d' (v # vs)"
proof (cases "vs = []")
  case True
  moreover from this assms(1) have "mSize d = 0" by (simp add: Deque_rep_def)
  ultimately show ?thesis
    using assms Deque_push_first_correct [of d al esz v d'] by (simp add: Deque_push_front_def)
next
  case False
  then have "mSize d \<noteq> 0"
    using assms(1) by (auto simp: Deque_rep_def)
  then obtain d1 where d1: "Deque_grow al d = Inr d1"
    using assms(3) by (auto simp: Deque_push_front_def kbind_eq_Inr)
  note g = Deque_grow_correct [OF assms(1,2) d1 False]
  let ?cap = "mCapacity d1" and ?n = "mSize d1" and ?f = "mFront d1"
  define p where "p = (?f + ?cap - 1) mod ?cap"
  have n: "?n = length vs" "0 < ?n" and cap: "?cap \<le> 262144" "length (mContents d1) = ?cap"
    "0 < ?cap" and fr: "?f < ?cap"
    using g False by (auto simp: Deque_rep_def)
  have p: "p < ?cap" "(p + 1) mod ?cap = ?f"
    using cap fr ring_prev [of ?cap ?f] by (simp_all add: p_def)
  have "add32 (sub32 ?f 1) ?cap mod ?cap = p"
    using pred_ring [of ?cap p 0] p cap by simp
  with assms(3) d1 \<open>mSize d \<noteq> 0\<close> cap p have d': "d' = d1\<lparr>mSize := ?n + 1,
      mContents := (mContents d1)[p := Obj v], mFront := p\<rparr>"
    by (auto simp: Deque_push_front_def Let_def new_elem_def split: if_splits)
  have last_pos: "(?f + (?cap - 1)) mod ?cap = p"
    using cap fr by (simp add: p_def)
  have "ring ?cap ?f ?n ((mContents d1)[p := Obj v]) = ring ?cap ?f ?n (mContents d1)"
    using ring_update_other [of ?n "?cap - 1" ?cap "mContents d1" ?f "Obj v"] g(2) cap last_pos
    by simp
  moreover have "(p + ?n) mod ?cap = (?f + (?n - 1)) mod ?cap"
    using p(2) n(2) ring_shift [of p "?n - 1" ?cap] by simp
  ultimately show ?thesis
    using g n cap p by (auto simp: d' Deque_rep_def ring_Cons)
qed

lemma Deque_shrink_correct:
  assumes "Deque_rep d vs" and "al_small al" and "Deque_shrink al d = Inr d'"
  shows "Deque_rep d' vs"
  using assms by (auto simp: Deque_shrink_def intro: Deque_resetCap_correct split: if_splits)

lemma Deque_popped_front_rep:
  assumes "Deque_rep d (v # ws)"
  shows "Deque_rep (d\<lparr>mContents := (mContents d)[mFront d := Null],
      mFront := Suc (mFront d) mod mCapacity d, mSize := length ws\<rparr>) ws"
    and "Deque_pop_front al d = Deque_shrink al (d\<lparr>mContents := (mContents d)[mFront d := Null],
      mFront := Suc (mFront d) mod mCapacity d, mSize := length ws\<rparr>)"
proof -
  let ?cap = "mCapacity d" and ?f = "mFront d"
  have sz: "mSize d = Suc (length ws)" and cap: "length (mContents d) = ?cap" "?cap \<le> 262144"
    and fr: "?f < ?cap" and le: "length ws < ?cap"
    using assms by (auto simp: Deque_rep_def)
  have r: "ring ?cap ((?f + 1) mod ?cap) (length ws) (mContents d) = map Obj ws"
    and hd: "mContents d ! ?f = Obj v"
    using assms fr by (auto simp: Deque_rep_def ring_Cons)
  have "((?f + 1) mod ?cap + (?cap - 1)) mod ?cap = ?f"
    using fr by (rule ring_next)
  then have "ring ?cap ((?f + 1) mod ?cap) (length ws) ((mContents d)[?f := Null]) = map Obj ws"
    using ring_update_other [of "length ws" "?cap - 1" ?cap "mContents d" "(?f + 1) mod ?cap" Null]
      le cap r by simp
  moreover have "ws \<noteq> [] \<Longrightarrow>
      mBack d = ((?f + 1) mod ?cap + (length ws - 1)) mod ?cap"
    using assms sz ring_shift [of ?f "length ws - 1" ?cap] by (auto simp: Deque_rep_def)
  ultimately show "Deque_rep (d\<lparr>mContents := (mContents d)[?f := Null],
      mFront := Suc ?f mod ?cap, mSize := length ws\<rparr>) ws"
    using cap fr le by (auto simp: Deque_rep_def)
  show "Deque_pop_front al d = Deque_shrink al (d\<lparr>mContents := (mContents d)[?f := Null],
      mFront := Suc ?f mod ?cap, mSize := length ws\<rparr>)"
    using sz cap fr hd by (simp add: Deque_pop_front_def delete_slot_def succ_ring)
qed

lemma Deque_pop_front_correct:
  assumes "Deque_rep d vs" and "al_small al" and "Deque_pop_front al d = Inr d'"
  shows "Deque_rep d' (tl vs)"
proof (cases vs)
  case Nil
  with assms show ?thesis by (auto simp: Deque_pop_front_def Deque_rep_def)
next
  case (Cons v ws)
  with assms Deque_popped_front_rep [of d v ws] show ?thesis
    by (auto intro: Deque_shrink_correct)
qed

lemma Deque_popped_back_rep:
  assumes "Deque_rep d (ws @ [v])"
  shows "Deque_rep (d\<lparr>mContents := (mContents d)[mBack d := Null],
      mBack := add32 (sub32 (mBack d) 1) (mCapacity d) mod mCapacity d, mSize := length ws\<rparr>) ws"
    and "Deque_pop_back al d = Deque_shrink al (d\<lparr>mContents := (mContents d)[mBack d := Null],
      mBack := add32 (sub32 (mBack d) 1) (mCapacity d) mod mCapacity d, mSize := length ws\<rparr>)"
proof -
  let ?cap = "mCapacity d" and ?f = "mFront d" and ?n = "length ws"
  have sz: "mSize d = Suc ?n" and cap: "length (mContents d) = ?cap" "?cap \<le> 262144" "0 < ?cap"
    and fr: "?f < ?cap" and le: "?n < ?cap" and bk: "mBack d = (?f + ?n) mod ?cap"
    using assms by (auto simp: Deque_rep_def)
  have r: "ring ?cap ?f ?n (mContents d) = map Obj ws"
    and last: "mContents d ! ((?f + ?n) mod ?cap) = Obj v"
    using assms by (auto simp: Deque_rep_def ring_snoc)
  have "ws \<noteq> [] \<Longrightarrow> add32 (sub32 (mBack d) 1) ?cap mod ?cap = (?f + (?n - 1)) mod ?cap"
    using pred_ring [of ?cap ?f "?n - 1"] cap bk by (cases ?n) auto
  then show "Deque_rep (d\<lparr>mContents := (mContents d)[mBack d := Null],
      mBack := add32 (sub32 (mBack d) 1) ?cap mod ?cap, mSize := ?n\<rparr>) ws"
    using cap fr le r by (auto simp: Deque_rep_def ring_update_other bk)
  show "Deque_pop_back al d = Deque_shrink al (d\<lparr>mContents := (mContents d)[mBack d := Null],
      mBack := add32 (sub32 (mBack d) 1) ?cap mod ?cap, mSize := ?n\<rparr>)"
    using sz cap bk last by (simp add: Deque_pop_back_def delete_slot_def)
qed

lemma Deque_pop_back_correct:
  assumes "Deque_rep d vs" and "al_small al" and "Deque_pop_back al d = Inr d'"
  shows "Deque_rep d' (butlast vs)"
proof (cases vs rule: rev_cases)
  case Nil
  with assms show ?thesis by (auto simp: Deque_pop_back_def Deque_rep_def)
next
  case (snoc ws v)
  with assms Deque_popped_back_rep [of d ws v] show ?thesis
    by (auto intro: Deque_shrink_correct)
qed

subsection \<open>Insertion in the middle\<close>

text \<open>
  \<open>k\<close> rounds of the shifting loop, started at offset \<open>m\<close> from the front, move
  the last \<open>k\<close> elements up by one.
\<close>

lemma insert_loop_correct:
  "length xs = cap \<Longrightarrow> cap \<le> 262144 \<Longrightarrow> k \<le> Suc m \<Longrightarrow> Suc m < cap \<Longrightarrow>
   \<exists>ys. insert_loop k cap ((f + m) mod cap) xs = Inr ys \<and> length ys = cap \<and>
     (\<forall>q < cap. at_off cap f ys q =
        (if Suc m - k < q \<and> q \<le> Suc m then at_off cap f xs (q - 1) else at_off cap f xs q))"
proof (induction k arbitrary: m xs)
  case 0
  then show ?case by auto
next
  case (Suc k)
  let ?i = "(f + m) mod cap" and ?j = "(f + Suc m) mod cap"
  let ?xs = "xs[?j := xs ! ?i]"
  have i: "?i < cap" and j: "?j < cap"
    using Suc.prems by (simp_all only: mod_less_divisor)
  have "add32 ?i 1 mod cap = Suc ?i mod cap"
    using succ_ring [OF Suc.prems(2) i] by simp
  then have "add32 ?i 1 mod cap = ?j"
    by (simp only: mod_Suc_eq add_Suc_right)
  with i j Suc.prems have step: "insert_loop (Suc k) cap ?i xs =
      insert_loop k cap (add32 (sub32 ?i 1) cap mod cap) ?xs"
    by simp
  have xs': "\<forall>q < cap. at_off cap f ?xs q = (if q = Suc m then at_off cap f xs m else at_off cap f xs q)"
    using at_off_update [OF Suc.prems(1) _ Suc.prems(4)] by (simp add: at_off_def)
  show ?case
  proof (cases m)
    case 0
    with Suc.prems have "k = 0" by simp
    have "(Suc m - Suc k < q \<and> q \<le> Suc m) = (q = Suc m)" for q
      using 0 \<open>k = 0\<close> by auto
    with step xs' Suc.prems \<open>k = 0\<close> show ?thesis by simp
  next
    case (Suc m')
    have pr: "add32 (sub32 ?i 1) cap mod cap = (f + m') mod cap"
      using pred_ring [of cap f m'] Suc.prems Suc by simp
    obtain ys where ys: "insert_loop k cap ((f + m') mod cap) ?xs = Inr ys" "length ys = cap"
      "\<forall>q < cap. at_off cap f ys q =
        (if Suc m' - k < q \<and> q \<le> Suc m' then at_off cap f ?xs (q - 1) else at_off cap f ?xs q)"
      using Suc.IH [of ?xs m'] Suc.prems Suc by auto
    have "at_off cap f ys q =
        (if Suc m - Suc k < q \<and> q \<le> Suc m then at_off cap f xs (q - 1) else at_off cap f xs q)"
      if "q < cap" for q
    proof -
      consider "q \<le> m" | "q = Suc m" | "Suc m < q" by linarith
      then show ?thesis
      proof cases
        case 1
        with that xs' have "at_off cap f ?xs (q - 1) = at_off cap f xs (q - 1)"
          "at_off cap f ?xs q = at_off cap f xs q" by auto
        with 1 that ys(3) Suc show ?thesis by (simp only: diff_Suc_Suc) simp
      next
        case 2
        with that xs' have "at_off cap f ?xs q = at_off cap f xs m" by auto
        with 2 that ys(3) Suc Suc.prems show ?thesis by (simp only:) (simp add: less_Suc_eq_le)
      next
        case 3
        with that xs' have "at_off cap f ?xs q = at_off cap f xs q" by auto
        with 3 that ys(3) Suc show ?thesis by (simp only:) simp
      qed
    qed
    with step pr ys(1,2) show ?thesis by simp
  qed
qed

lemma Deque_insert_loop_rep:
  assumes "Deque_rep d vs" and "mSize d < mCapacity d" and "0 < index" and "index < length vs"
  shows "\<exists>ys. insert_loop (sub32 (mSize d + 1) index) (mCapacity d) (mBack d) (mContents d) = Inr ys \<and>
    length ys = mCapacity d \<and>
    (\<forall>q < mCapacity d. at_off (mCapacity d) (mFront d) ys q =
      (if index - 1 < q \<and> q \<le> length vs then at_off (mCapacity d) (mFront d) (mContents d) (q - 1)
       else at_off (mCapacity d) (mFront d) (mContents d) q))"
proof -
  let ?n = "length vs"
  have n: "mSize d = ?n" "?n < mCapacity d" "mCapacity d \<le> 262144" "0 < ?n"
    "length (mContents d) = mCapacity d" "mBack d = (mFront d + (?n - 1)) mod mCapacity d"
    using assms by (auto simp: Deque_rep_def)
  have "sub32 (mSize d + 1) index = ?n + 1 - index"
    using n assms by (simp add: sub32_exact)
  moreover have "?n + 1 - index \<le> Suc (?n - 1)" "Suc (?n - 1) < mCapacity d"
    "Suc (?n - 1) - (?n + 1 - index) = index - 1" "Suc (?n - 1) = ?n"
    using n assms by linarith+
  ultimately show ?thesis
    using insert_loop_correct [of "mContents d" "mCapacity d" "?n + 1 - index" "?n - 1" "mFront d"] n
    by metis
qed

lemma Deque_insert_correct:
  assumes "Deque_rep d vs" and "al_small al" and "index \<le> length vs"
    and "Deque_insert al esz v index d = Inr d'"
  shows "Deque_rep d' (take index vs @ v # drop index vs)"
proof (cases "index = length vs \<or> index = 0")
  case True
  moreover from assms(1) have "mSize d = length vs" by (simp add: Deque_rep_def)
  ultimately show ?thesis
    using assms(4) Deque_push_back_correct [OF assms(1,2)] Deque_push_front_correct [OF assms(1,2)]
    by (auto simp: Deque_insert_def split: if_splits)
next
  case False
  with assms(1,3) have ne: "vs \<noteq> []" and "mSize d \<noteq> 0" and sz: "mSize d = length vs"
    by (auto simp: Deque_rep_def)
  with assms(4) False obtain d1 where d1: "Deque_grow al d = Inr d1"
    by (auto simp: Deque_insert_def kbind_eq_Inr)
  note g = Deque_grow_correct [OF assms(1,2) d1 ne]
  let ?cap = "mCapacity d1" and ?f = "mFront d1" and ?n = "length vs"
  have n: "mSize d1 = ?n" "0 < ?n" "?n < ?cap"
    and cap: "?cap \<le> 262144" "length (mContents d1) = ?cap" "0 < ?cap"
    and fr: "?f < ?cap" and bk: "mBack d1 = (?f + (?n - 1)) mod ?cap"
    and r: "ring ?cap ?f ?n (mContents d1) = map Obj vs"
    using g ne by (auto simp: Deque_rep_def)
  have ix: "0 < index" "index < ?n" using False assms(3) by auto
  obtain ys where ys: "insert_loop (sub32 (mSize d1 + 1) index) ?cap (mBack d1) (mContents d1) = Inr ys"
    "length ys = ?cap" "\<forall>q < ?cap. at_off ?cap ?f ys q =
      (if index - 1 < q \<and> q \<le> ?n then at_off ?cap ?f (mContents d1) (q - 1)
       else at_off ?cap ?f (mContents d1) q)"
    using Deque_insert_loop_rep [OF g ix] by blast
  let ?pos = "(?f + index) mod ?cap"
  have bck: "add32 (mBack d1) 1 mod ?cap = (?f + ?n) mod ?cap"
    using n cap bk by (simp add: succ_ring mod_simps flip: add_Suc_right)
  have pos: "add32 ?f index mod ?cap = ?pos"
    using fr ix n cap by (simp add: add32_exact)
  have d': "d' = d1\<lparr>mSize := ?n + 1, mBack := (?f + ?n) mod ?cap, mContents := ys[?pos := Obj v]\<rparr>"
    using assms(4) False d1 sz \<open>mSize d \<noteq> 0\<close> ys(1,2) bck pos n cap ix
    by (auto simp: Deque_insert_def Let_def new_elem_def split: if_splits)
  have "ring ?cap ?f (?n + 1) (ys[?pos := Obj v]) = map Obj (take index vs @ v # drop index vs)"
  proof (rule nth_equalityI)
    fix q assume "q < length (ring ?cap ?f (?n + 1) (ys[?pos := Obj v]))"
    then have q: "q < ?cap" "q \<le> ?n" using n by auto
    have "\<forall>i < ?n. map (at_off ?cap ?f (mContents d1)) [0..<?n] ! i = map Obj vs ! i"
      using r by (simp add: ring_at_off)
    then have elem: "\<forall>i < ?n. at_off ?cap ?f (mContents d1) i = Obj (vs ! i)"
      by simp
    have "at_off ?cap ?f (ys[?pos := Obj v]) q =
        (if q = index then Obj v else at_off ?cap ?f ys q)"
      using ys(2) q ix n by (intro at_off_update) auto
    then have lhs: "ring ?cap ?f (?n + 1) (ys[?pos := Obj v]) ! q =
        (if q = index then Obj v else at_off ?cap ?f ys q)"
      using q by (simp add: at_off_def)
    show "ring ?cap ?f (?n + 1) (ys[?pos := Obj v]) ! q =
        map Obj (take index vs @ v # drop index vs) ! q"
    proof (cases "q \<le> index")
      case True
      with q n ix ys(3) elem show ?thesis
        unfolding lhs by (cases "q = index") (auto simp: nth_append)
    next
      case False
      then obtain j where "q = Suc (index + j)"
        using less_imp_Suc_add [of index q] by auto
      with q n ix ys(3) elem show ?thesis
        unfolding lhs by (auto simp: nth_append)
    qed
  qed (use ix in simp)
  with g n cap fr ix ys(2) show ?thesis
    by (simp add: d' Deque_rep_def)
qed

subsection \<open>Construction, copying and clearing\<close>

lemma Deque_new_correct:
  assumes "al (4 * sInitialCapacity)"
  shows "\<exists>d. Deque_new al = Inr d \<and> Deque_rep d []"
  using assms by (simp add: Deque_new_def Deque_init_def new_array_def Deque_rep_def sInitialCapacity_def)

lemma nullify_loop_correct:
  "length xs = cap \<Longrightarrow> cap \<le> 262144 \<Longrightarrow> f < cap \<or> k = 0 \<Longrightarrow> k \<le> cap \<Longrightarrow>
   Uninit \<notin> set (ring cap f k xs) \<Longrightarrow>
   \<exists>ys. nullify_loop k cap f xs = Inr ys \<and> length ys = cap"
proof (induction k arbitrary: f xs)
  case (Suc k)
  then have f: "f < cap" and sl: "delete_slot (xs ! f) = Inr ()"
    by (auto simp: ring_Cons delete_slot_def split: slot.splits)
  have nxt: "((f + 1) mod cap + (cap - 1)) mod cap = f"
    using f by (rule ring_next)
  have "ring cap ((f + 1) mod cap) k (xs[f := Null]) = ring cap ((f + 1) mod cap) k xs"
    using ring_update_other [of k "cap - 1" cap xs "(f + 1) mod cap" Null] Suc.prems f nxt by simp
  then have "\<exists>ys. nullify_loop k cap ((f + 1) mod cap) (xs[f := Null]) = Inr ys \<and> length ys = cap"
    using Suc.prems f by (intro Suc.IH) (auto simp: ring_Cons)
  with f sl Suc.prems show ?case
    by (simp add: succ_ring)
qed simp

lemma Deque_clear_priv_correct:
  assumes "Deque_rep d vs"
  shows "Deque_clear_priv d = Inr (d\<lparr>mContents := []\<rparr>)"
proof -
  have "Uninit \<notin> set (ring (mCapacity d) (mFront d) (mSize d) (mContents d))"
    using assms by (auto simp: Deque_rep_def)
  then show ?thesis
    using assms nullify_loop_correct [of "mContents d" "mCapacity d" "mFront d" "mSize d"]
    by (auto simp: Deque_clear_priv_def Deque_nullifyContent_def Deque_rep_def)
qed

lemma copy_loop_correct:
  "length other = cap \<Longrightarrow> length xs = cap \<Longrightarrow> cap \<le> 262144 \<Longrightarrow> f < cap \<or> k = 0 \<Longrightarrow> k \<le> cap \<Longrightarrow>
   ring cap f k other = map Obj vs \<Longrightarrow> al esz \<Longrightarrow>
   \<exists>ys. copy_loop al esz k cap f other xs = Inr ys \<and> length ys = cap \<and>
     ring cap f k ys = map Obj vs \<and>
     (\<forall>q < cap. k \<le> q \<longrightarrow> at_off cap f ys q = at_off cap f xs q)"
proof (induction k arbitrary: f xs vs)
  case (Suc k)
  then obtain v ws where vs: "vs = v # ws" by (cases vs) (auto dest: arg_cong [where f = length])
  with Suc.prems have f: "f < cap" and v: "other ! f = Obj v"
    and ws: "ring cap ((f + 1) mod cap) k other = map Obj ws"
    by (auto simp: ring_Cons)
  have nxt: "((f + 1) mod cap + (cap - 1)) mod cap = f"
    using f by (rule ring_next)
  obtain ys where ys: "copy_loop al esz k cap ((f + 1) mod cap) other (xs[f := Obj v]) = Inr ys"
    "length ys = cap" "ring cap ((f + 1) mod cap) k ys = map Obj ws"
    "\<forall>q < cap. k \<le> q \<longrightarrow> at_off cap ((f + 1) mod cap) ys q = at_off cap ((f + 1) mod cap) (xs[f := Obj v]) q"
    using Suc.IH [of "xs[f := Obj v]" "(f + 1) mod cap" ws] Suc.prems f ws by auto
  have shift: "at_off cap ((f + 1) mod cap) zs q = at_off cap f zs (Suc q)" for zs :: "'a slot list" and q
    by (simp add: at_off_def mod_simps)
  have "ys ! f = Obj v"
    using ys(4) Suc.prems f nxt by (auto simp: at_off_def dest: spec [of _ "cap - 1"])
  moreover have "at_off cap f ys q = at_off cap f xs q" if "q < cap" "Suc k \<le> q" for q
  proof -
    from that obtain p where p: "q = Suc p" by (cases q) auto
    then have "at_off cap f ys q = at_off cap f (xs[f := Obj v]) q"
      using ys(4) that shift by (metis Suc_lessD Suc_le_mono)
    also have "\<dots> = at_off cap f xs q"
      using at_off_update [of xs cap q 0 f "Obj v"] Suc.prems f that p by simp
    finally show ?thesis .
  qed
  ultimately show ?case
    using ys f v vs Suc.prems by (simp add: succ_ring new_elem_def deref_def ring_Cons)
qed auto

lemma Deque_copy_correct:
  assumes "Deque_rep other vs" and "al (4 * mCapacity other)" and "al esz"
  shows "\<exists>d. Deque_new_copy al esz other = Inr d \<and> Deque_rep d vs"
proof -
  obtain ys where "copy_loop al esz (mSize other) (mCapacity other) (mFront other)
      (mContents other) (replicate (mCapacity other) Uninit) = Inr ys"
    "length ys = mCapacity other"
    "ring (mCapacity other) (mFront other) (mSize other) ys = map Obj vs"
    using copy_loop_correct [of "mContents other" "mCapacity other"
        "replicate (mCapacity other) Uninit" "mFront other" "mSize other" vs al esz] assms
    by (auto simp: Deque_rep_def)
  then show ?thesis
    using assms by (auto simp: Deque_new_copy_def Deque_copy_priv_def new_array_def Deque_rep_def)
qed

subsection \<open>The provider of the run queue interface\<close>

definition Deque_front_val :: "'a deque \<Rightarrow> 'a kresult" where
  "Deque_front_val d = kbind (Deque_front d) deref"

lemma Deque_front_rep: "Deque_rep d (v # vs) \<Longrightarrow> Deque_front d = Inr (Obj v)"
  by (auto simp: Deque_rep_def Deque_front_def ring_Cons)

lemma Deque_back_rep: "Deque_rep d (vs @ [v]) \<Longrightarrow> Deque_back d = Inr (Obj v)"
  by (auto simp: Deque_rep_def Deque_back_def ring_snoc)

lemma Deque_index_rep:
  assumes "Deque_rep d vs" and "i < length vs"
  shows "Deque_index i d = Inr (vs ! i)"
proof -
  let ?cap = "mCapacity d" and ?p = "(mFront d + i) mod mCapacity d"
  have "mFront d < ?cap" "?cap \<le> 262144" "i < ?cap"
    using assms by (auto simp: Deque_rep_def)
  then have "add32 (mFront d) i mod ?cap = ?p"
    by (simp add: add32_exact)
  moreover have "mContents d ! ?p = Obj (vs ! i)"
    using assms by (metis Deque_rep_def nth_map nth_ring)
  ultimately show ?thesis
    using assms by (auto simp: Deque_index_def Deque_rep_def deref_def)
qed

text \<open>
  The kernel's allocator, whatever room its pools have (\<open>al\<close>), refuses every request
  above 1 MB: the last branch of \<open>allocImpl\<close>.
\<close>

definition serves :: "(nat \<Rightarrow> bool) \<Rightarrow> nat \<Rightarrow> bool" where
  "serves al b \<longleftrightarrow> b \<le> 1048576 \<and> al b"

lemma al_small_serves [simp]: "al_small (serves al)"
  by (simp add: al_small_def serves_def)

interpretation runq: rr_queue Deque_elems Deque_inv Deque_empty Deque_front_val
    "Deque_pop_front (serves al)" "Deque_push_back (serves al) esz"
  for al esz
proof (unfold_locales, goal_cases)
  case (1 q)
  then show ?case by (auto simp: Deque_inv_def Deque_empty_def Deque_rep_def)
next
  case (2 q)
  then obtain v vs where "Deque_rep q (v # vs)" and "Deque_elems q = v # vs"
    by (metis Deque_inv_def neq_Nil_conv)
  then show ?case
    by (simp add: Deque_front_val_def Deque_front_rep deref_def)
next
  case (3 q q')
  then show ?case
    using Deque_pop_front_correct [OF _ al_small_serves, of q "Deque_elems q"]
    by (simp add: Deque_rep_iff)
next
  case (4 q x q')
  then show ?case
    using Deque_push_back_correct [OF _ al_small_serves, of q "Deque_elems q"]
    by (simp add: Deque_rep_iff)
qed

subsection \<open>No operation faults\<close>

text \<open>
  On a well-formed object the array accesses, dereferences and deletes of every operation
  are in order: an operation can only fail because \<open>operator new\<close> fails.
\<close>

definition oom_only :: "'a kresult \<Rightarrow> bool" where
  "oom_only r \<longleftrightarrow> (\<forall>e. r = Inl e \<longrightarrow> e = Trap 24)"

lemma oom_only_simps [simp]:
  "oom_only (Inr x)" "oom_only (Inl e) \<longleftrightarrow> e = Trap 24"
  "oom_only (new_array al n)" "oom_only (new_elem al esz v)"
  by (auto simp: oom_only_def new_array_def new_elem_def)

lemma oom_only_bind: "oom_only m \<Longrightarrow> (\<And>x. m = Inr x \<Longrightarrow> oom_only (f x)) \<Longrightarrow> oom_only (kbind m f)"
  by (auto simp: oom_only_def kbind_def split: sum.splits)

lemma oom_resetCap:
  assumes "Deque_rep d vs"
  shows "oom_only (Deque_resetCap al newCap d)"
proof (cases "newCap \<le> mSize d")
  case False
  show ?thesis
    unfolding Deque_resetCap_def
    using False assms resetCap_loop_correct [of "mContents d" "mCapacity d" "mFront d" "mSize d" 0]
    by (auto intro!: oom_only_bind simp: Deque_rep_def new_array_def split: if_splits)
qed (simp add: Deque_resetCap_def)

lemma oom_grow: "Deque_rep d vs \<Longrightarrow> oom_only (Deque_grow al d)"
  and oom_shrink: "Deque_rep d vs \<Longrightarrow> oom_only (Deque_shrink al d)"
  by (simp_all add: Deque_grow_def Deque_shrink_def oom_resetCap)

lemma oom_push_first: "Deque_rep d vs \<Longrightarrow> oom_only (Deque_push_first al esz v d)"
  unfolding Deque_push_first_def
  by (intro oom_only_bind) (auto simp: Deque_rep_def)

lemma oom_store:
  assumes "Deque_rep d vs" and "\<And>ys. oom_only (f ys)"
  shows "oom_only (kbind (new_elem al esz v)
    (\<lambda>p. kbind (wr (mContents d) (i mod mCapacity d) p) f))"
  using assms by (intro oom_only_bind) (auto simp: Deque_rep_def)

lemma oom_push_back:
  assumes "Deque_rep d vs" and "al_small al"
  shows "oom_only (Deque_push_back al esz v d)"
proof (cases "vs = []")
  case True
  with assms(1) have "mSize d = 0" by (simp add: Deque_rep_def)
  then show ?thesis using oom_push_first [OF assms(1)] by (simp add: Deque_push_back_def)
next
  case False
  then have "mSize d \<noteq> 0" using assms(1) by (auto simp: Deque_rep_def)
  then show ?thesis
    unfolding Deque_push_back_def Let_def if_not_P [OF \<open>mSize d \<noteq> 0\<close>]
    by - (rule oom_only_bind [OF oom_grow [OF assms(1)]],
        rule oom_store [OF Deque_grow_correct(1) [OF assms _ False]], auto)
qed

lemma oom_push_front:
  assumes "Deque_rep d vs" and "al_small al"
  shows "oom_only (Deque_push_front al esz v d)"
proof (cases "vs = []")
  case True
  with assms(1) have "mSize d = 0" by (simp add: Deque_rep_def)
  then show ?thesis using oom_push_first [OF assms(1)] by (simp add: Deque_push_front_def)
next
  case False
  then have "mSize d \<noteq> 0" using assms(1) by (auto simp: Deque_rep_def)
  then show ?thesis
    unfolding Deque_push_front_def Let_def if_not_P [OF \<open>mSize d \<noteq> 0\<close>]
    by - (rule oom_only_bind [OF oom_grow [OF assms(1)]],
        rule oom_store [OF Deque_grow_correct(1) [OF assms _ False]], auto)
qed

lemma oom_pop_front:
  assumes "Deque_rep d vs"
  shows "oom_only (Deque_pop_front al d)"
proof (cases vs)
  case Nil
  with assms show ?thesis by (auto simp: Deque_pop_front_def Deque_rep_def)
next
  case (Cons v ws)
  with assms Deque_popped_front_rep [of d v ws] show ?thesis by (auto intro: oom_shrink)
qed

lemma oom_pop_back:
  assumes "Deque_rep d vs"
  shows "oom_only (Deque_pop_back al d)"
proof (cases vs rule: rev_cases)
  case Nil
  with assms show ?thesis by (auto simp: Deque_pop_back_def Deque_rep_def)
next
  case (snoc ws v)
  with assms Deque_popped_back_rep [of d ws v] show ?thesis by (auto intro: oom_shrink)
qed

lemma oom_clear: "Deque_rep d vs \<Longrightarrow> oom_only (Deque_clear al d)"
  by (auto simp: Deque_clear_def Deque_clear_priv_correct Deque_init_def intro!: oom_only_bind)

lemma Deque_clear_rep: "Deque_clear al d = Inr d' \<Longrightarrow> Deque_rep d' []"
  by (auto simp: Deque_clear_def Deque_init_def new_array_def sInitialCapacity_def Deque_rep_def
      kbind_eq_Inr split: if_splits)

lemma oom_insert:
  assumes "Deque_rep d vs" and "al_small al" and "index \<le> length vs"
  shows "oom_only (Deque_insert al esz v index d)"
proof (cases "index = length vs \<or> index = 0")
  case True
  moreover from assms(1) have "mSize d = length vs" by (simp add: Deque_rep_def)
  ultimately show ?thesis
    using oom_push_back [OF assms(1,2)] oom_push_front [OF assms(1,2)] by (auto simp: Deque_insert_def)
next
  case False
  with assms(1,3) have ne: "vs \<noteq> []" and sz: "mSize d = length vs" "mSize d \<noteq> 0"
    by (auto simp: Deque_rep_def)
  have "oom_only (kbind (insert_loop (sub32 (mSize d1 + 1) index) (mCapacity d1) (mBack d1)
      (mContents d1)) (\<lambda>xs. kbind (new_elem al esz v) (\<lambda>p. kbind
        (wr xs (add32 (mFront d1) index mod mCapacity d1) p) (\<lambda>xs'. Inr (f xs')))))"
    if "Deque_grow al d = Inr d1" for d1 and f :: "'a slot list \<Rightarrow> 'a deque"
  proof -
    note g = Deque_grow_correct [OF assms(1,2) that ne]
    obtain ys where "insert_loop (sub32 (mSize d1 + 1) index) (mCapacity d1) (mBack d1)
        (mContents d1) = Inr ys" "length ys = mCapacity d1" "0 < mCapacity d1"
      using Deque_insert_loop_rep [OF g, of index] False assms(3) g(2) by auto
    then show ?thesis by (auto intro!: oom_only_bind)
  qed
  then show ?thesis
    using False sz unfolding Deque_insert_def Let_def
    by (auto intro!: oom_only_bind [OF oom_grow [OF assms(1)]])
qed

subsection \<open>Runs of operations refine runs on lists\<close>

datatype 'a deque_op =
  PushBack 'a | PushFront 'a | Insert 'a nat | PopBack | PopFront | Clear

fun deque_step :: "(nat \<Rightarrow> bool) \<Rightarrow> nat \<Rightarrow> 'a deque_op \<Rightarrow> 'a deque \<Rightarrow> 'a deque kresult" where
  "deque_step al esz (PushBack v) d = Deque_push_back al esz v d"
| "deque_step al esz (PushFront v) d = Deque_push_front al esz v d"
| "deque_step al esz (Insert v i) d = Deque_insert al esz v i d"
| "deque_step al esz PopBack d = Deque_pop_back al d"
| "deque_step al esz PopFront d = Deque_pop_front al d"
| "deque_step al esz Clear d = Deque_clear al d"

fun deque_run :: "(nat \<Rightarrow> bool) \<Rightarrow> nat \<Rightarrow> 'a deque_op list \<Rightarrow> 'a deque \<Rightarrow> 'a deque kresult" where
  "deque_run al esz [] d = Inr d"
| "deque_run al esz (x # xs) d = kbind (deque_step al esz x d) (deque_run al esz xs)"

text \<open>The abstract sequence; an insertion beyond the end has no meaning.\<close>

fun list_step :: "'a deque_op \<Rightarrow> 'a list \<Rightarrow> 'a list option" where
  "list_step (PushBack v) vs = Some (vs @ [v])"
| "list_step (PushFront v) vs = Some (v # vs)"
| "list_step (Insert v i) vs = (if i \<le> length vs then Some (take i vs @ v # drop i vs) else None)"
| "list_step PopBack vs = Some (butlast vs)"
| "list_step PopFront vs = Some (tl vs)"
| "list_step Clear vs = Some []"

fun list_run :: "'a deque_op list \<Rightarrow> 'a list \<Rightarrow> 'a list option" where
  "list_run [] vs = Some vs"
| "list_run (x # xs) vs = Option.bind (list_step x vs) (list_run xs)"

lemma deque_step_refines:
  assumes "Deque_rep d vs" and "al_small al" and "list_step x vs = Some ws"
  shows "oom_only (deque_step al esz x d) \<and>
    (\<forall>d'. deque_step al esz x d = Inr d' \<longrightarrow> Deque_rep d' ws)"
  using assms
  by (cases x) (auto split: if_splits simp: oom_push_back oom_push_front oom_insert oom_pop_back
      oom_pop_front oom_clear Deque_push_back_correct Deque_push_front_correct
      Deque_insert_correct Deque_pop_back_correct Deque_pop_front_correct Deque_clear_rep)

lemma deque_run_refines:
  "Deque_rep d vs \<Longrightarrow> al_small al \<Longrightarrow> list_run xs vs = Some ws \<Longrightarrow>
   oom_only (deque_run al esz xs d) \<and>
   (\<forall>d'. deque_run al esz xs d = Inr d' \<longrightarrow> Deque_rep d' ws)"
proof (induction xs arbitrary: d vs)
  case Nil
  then show ?case by simp
next
  case (Cons x xs)
  then obtain us where us: "list_step x vs = Some us" "list_run xs us = Some ws"
    by (auto simp: bind_eq_Some_conv)
  from deque_step_refines [OF Cons.prems(1,2) us(1)] Cons.IH [OF _ Cons.prems(2) us(2)]
  show ?case by (auto simp: kbind_eq_Inr intro!: oom_only_bind)
qed

text \<open>
  With an allocator that serves every request up to the largest pool element, a run cannot
  run out of memory before the pointer array would pass 1 MB.
\<close>

definition al_1MB :: "nat \<Rightarrow> bool" where
  "al_1MB b \<longleftrightarrow> b \<le> 1048576"

lemma al_1MB_small [simp]: "al_small al_1MB"
  by (simp add: al_small_def al_1MB_def)

lemma Deque_resetCap_ok:
  assumes "Deque_rep d vs" and "al (4 * newCap)"
  shows "\<exists>d'. Deque_resetCap al newCap d = Inr d'"
  using assms resetCap_loop_correct [of "mContents d" "mCapacity d" "mFront d" "mSize d" 0
      "replicate newCap Uninit"]
  by (auto simp: Deque_resetCap_def new_array_def Deque_rep_def)

lemma Deque_push_back_ok:
  assumes "Deque_rep d vs" and "length vs \<le> 131072" and "esz \<le> 1048576"
  shows "\<exists>d'. Deque_push_back al_1MB esz v d = Inr d'"
proof (cases "vs = []")
  case True
  with assms show ?thesis
    by (auto simp: Deque_push_back_def Deque_push_first_def new_elem_def al_1MB_def Deque_rep_def)
next
  case False
  have sz: "mSize d = length vs" "mSize d \<noteq> 0" and c: "mul32 2 (mCapacity d) = 2 * mCapacity d"
    using assms False by (auto simp: Deque_rep_def intro!: mul32_exact)
  have "\<exists>d1. Deque_grow al_1MB d = Inr d1"
    using Deque_resetCap_ok [OF assms(1), of al_1MB "2 * mCapacity d"] assms(2) sz c
    by (auto simp: Deque_grow_def al_1MB_def)
  then obtain d1 where d1: "Deque_grow al_1MB d = Inr d1" ..
  from Deque_grow_correct(1) [OF assms(1) al_1MB_small d1 False]
  have "0 < mCapacity d1" "length (mContents d1) = mCapacity d1" by (simp_all add: Deque_rep_def)
  with d1 sz assms(3) show ?thesis
    by (simp add: Deque_push_back_def Let_def new_elem_def al_1MB_def)
qed

text \<open>Evaluation of the loops at a numeral number of rounds.\<close>

lemma loop_numerals:
  "resetCap_loop (numeral w) i cap item old new = kbind (rd old item) (\<lambda>p. kbind (wr new i p) (\<lambda>new'.
     resetCap_loop (pred_numeral w) (i + 1) cap (add32 item 1 mod cap) old new'))"
  "insert_loop (numeral w) cap i xs = kbind (rd xs i) (\<lambda>p. kbind (wr xs (add32 i 1 mod cap) p) (\<lambda>xs'.
     insert_loop (pred_numeral w) cap (add32 (sub32 i 1) cap mod cap) xs'))"
  by (simp_all add: numeral_eq_Suc)

lemmas deque_op_defs = Deque_new_def Deque_init_def new_array_def serves_def sInitialCapacity_def
  minus_one32_def Deque_push_back_def Deque_push_front_def Deque_push_first_def new_elem_def
  Deque_insert_def Deque_grow_def Deque_resetCap_def Let_def Deque_pop_back_def Deque_pop_front_def
  Deque_shrink_def delete_slot_def add32_def sub32_def mul32_def loop_numerals

subsection \<open>Properties\<close>

text \<open>
  C4: Every run of push, pop, insert and clear operations on a fresh \<open>Deque\<close> behaves as
  the same run on a list: it never faults and never panics; it either ends in an object that holds
  exactly the list's elements in order, or the allocator refused a request (exception 24).
\<close>

theorem deque_refines_list:
  assumes "Deque_new (serves al) = Inr d" and "list_run xs [] = Some ws"
  shows "deque_run (serves al) esz xs d = Inl (Trap 24) \<or>
    (\<exists>d'. deque_run (serves al) esz xs d = Inr d' \<and> Deque_elems d' = ws \<and>
       Deque_size d' = length ws \<and> (\<forall>i < length ws. Deque_index i d' = Inr (ws ! i)))"
proof -
  from assms(1) have "Deque_rep d []"
    using Deque_new_correct [of "serves al"]
    by (auto simp: Deque_new_def Deque_init_def new_array_def split: if_splits)
  from deque_run_refines [OF this al_small_serves assms(2), of al esz] show ?thesis
    by (cases "deque_run (serves al) esz xs d")
      (auto simp: oom_only_def Deque_rep_elems Deque_index_rep Deque_size_def
        dest: Deque_rep_def [THEN iffD1])
qed

theorem deque_refines_list_witness:
  "\<exists>d. Deque_new (serves (\<lambda>_. True)) = Inr d \<and>
     (\<exists>d'. deque_run (serves (\<lambda>_. True)) 4 [PushBack (1::int), PushFront 2, Insert 3 1, PopBack] d
        = Inr d' \<and> Deque_elems d' = [2, 3])"
proof -
  let ?d = "\<lparr>mCapacity = 2, mSize = 0, mFront = 4294967295, mBack = 4294967295,
      mContents = [Null, Null]\<rparr> :: int deque"
  let ?xs = "[PushBack (1::int), PushFront 2, Insert 3 1, PopBack]"
  have d: "Deque_new (serves (\<lambda>_. True)) = Inr ?d"
    by (simp add: deque_op_defs numeral_2_eq_2)
  have l: "list_run ?xs [] = Some [2, 3]" by simp
  have "\<not> isl (deque_run (serves (\<lambda>_. True)) 4 ?xs ?d)"
    by (simp add: deque_op_defs)
  with deque_refines_list [OF d l, of 4] d show ?thesis by auto
qed

text \<open>
  C5: Appending to a \<open>Deque\<close> of at most 131072 elements always succeeds when the
  allocator serves every request of at most 1 MB, and appends exactly the given value.
\<close>

theorem deque_push_back_total:
  assumes "Deque_rep d vs" and "length vs \<le> 131072" and "esz \<le> 1048576"
  shows "\<exists>d'. Deque_push_back al_1MB esz v d = Inr d' \<and> Deque_elems d' = vs @ [v] \<and>
    Deque_back d' = Inr (Obj v)"
proof -
  obtain d' where d': "Deque_push_back al_1MB esz v d = Inr d'"
    using Deque_push_back_ok [OF assms] by blast
  with Deque_push_back_correct [OF assms(1) al_1MB_small] have "Deque_rep d' (vs @ [v])" .
  with d' show ?thesis by (auto simp: Deque_rep_elems Deque_back_rep)
qed

theorem deque_push_back_total_witness:
  "\<exists>d'. Deque_push_back al_1MB 4 (7::int) \<lparr>mCapacity = 1, mSize = 1, mFront = 0, mBack = 0,
      mContents = [Obj 5]\<rparr> = Inr d' \<and> Deque_elems d' = [5] @ [7] \<and> Deque_back d' = Inr (Obj 7)"
  by (rule deque_push_back_total) (simp_all add: Deque_rep_def ring_def)

text \<open>
  Assigning a non-empty \<open>Deque\<close> to itself dereferences the array that
  \<open>operator=\<close> has just deleted.
\<close>

lemma deque_self_assign_faults:
  assumes "Deque_rep d vs" and "vs \<noteq> []" and "al (4 * mCapacity d)"
  shows "Deque_assign_self al esz d = Inl Fault"
proof -
  have "Deque_clear_priv d = Inr (d\<lparr>mContents := []\<rparr>)"
    using assms(1) by (rule Deque_clear_priv_correct)
  moreover have "mSize d = Suc (mSize d - 1)"
    using assms by (auto simp: Deque_rep_def)
  then have "copy_loop al esz (mSize d) c f [] xs = Inl Fault" for c f and xs :: "'a slot list"
    by (metis copy_loop.simps(2) kbind_simps(1) less_zeroE list.size(3) rd_def)
  ultimately show ?thesis
    using assms(3) by (simp add: Deque_assign_self_def Deque_copy_priv_def new_array_def)
qed

end
