(* ===== verification/KRingBuf.thy ===== *)
theory KRingBuf
  imports KRing
begin

text \<open>
  The ring buffer of inc/klibs/ringbuf.h and klibs/ringbuf.cpp. The buffer knows the
  number of its slots (\<open>_macro_ringbuf_size\<close>) and the size of one item in bytes
  (\<open>_macro_ringbuf_type_size\<close>); the items are byte strings copied in and out of
  \<open>data\<close>. \<open>head\<close> is -1 when the buffer is empty. A push on a full buffer
  overwrites the oldest item.

  Counters that the code never makes negative are natural numbers; \<open>head\<close> is an
  integer because of its sentinel.
\<close>

subsection \<open>Byte blocks\<close>

definition block :: "nat \<Rightarrow> u8 list \<Rightarrow> nat \<Rightarrow> u8 list" where
  "block ts data i = take ts (drop (i * ts) data)"

text \<open>\<open>memcpy\<close> into an array at a byte offset.\<close>

definition bsplice :: "nat \<Rightarrow> u8 list \<Rightarrow> u8 list \<Rightarrow> u8 list" where
  "bsplice off item data = take off data @ item @ drop (off + length item) data"

lemma length_bsplice [simp]:
  "off + length item \<le> length data \<Longrightarrow> length (bsplice off item data) = length data"
  by (simp add: bsplice_def)

lemma block_splice:
  assumes "length item = ts" and "length data = n * ts" and "i < n" and "j < n"
  shows "block ts (bsplice (j * ts) item data) i = (if i = j then item else block ts data i)"
proof -
  have le: "j * ts + ts \<le> n * ts" "i * ts + ts \<le> n * ts"
    using assms(3,4) mult_le_mono1 [of "Suc j" n ts] mult_le_mono1 [of "Suc i" n ts] by simp_all
  consider "i = j" | "i < j" | "j < i" by linarith
  then show ?thesis
  proof cases
    case 1
    with assms le show ?thesis by (simp add: block_def bsplice_def)
  next
    case 2
    then have "i * ts + ts \<le> j * ts"
      using mult_le_mono1 [of "Suc i" j ts] by simp
    then have "take (ts + i * ts) (bsplice (j * ts) item data) = take (ts + i * ts) data"
      using assms le by (simp add: bsplice_def min_def)
    with 2 show ?thesis by (simp add: block_def take_drop)
  next
    case 3
    then have ge: "j * ts + ts \<le> i * ts"
      using mult_le_mono1 [of "Suc j" i ts] by simp
    then have "drop (i * ts) (bsplice (j * ts) item data) = drop (i * ts) data"
      using assms le 3 by (simp add: bsplice_def)
    with 3 show ?thesis by (simp add: block_def)
  qed
qed

lemma length_block: "length data = n * ts \<Longrightarrow> i < n \<Longrightarrow> length (block ts data i) = ts"
  using mult_le_mono1 [of "Suc i" n ts] by (simp add: block_def)

subsection \<open>The buffer and its operations\<close>

record ringbuf =
  macro_ringbuf_size :: nat
  macro_ringbuf_type_size :: nat
  head :: int
  tail :: nat
  len :: nat
  data :: "u8 list"

definition RINGBUF_INIT :: "nat \<Rightarrow> nat \<Rightarrow> u8 list \<Rightarrow> ringbuf" where
  "RINGBUF_INIT num tsize mem =
     \<lparr>macro_ringbuf_size = num, macro_ringbuf_type_size = tsize, head = -1, tail = 0, len = 0,
      data = mem\<rparr>"

definition ringbuf_length :: "ringbuf \<Rightarrow> nat" where
  "ringbuf_length b = len b"

definition ringbuf_is_empty :: "ringbuf \<Rightarrow> bool" where
  "ringbuf_is_empty b \<longleftrightarrow> head b = -1"

definition ringbuf_push :: "u8 list \<Rightarrow> ringbuf \<Rightarrow> ringbuf" where
  "ringbuf_push item b =
     (let b1 =
        (if head b = -1 then b\<lparr>head := int (tail b)\<rparr>
         else if int (tail b) = head b then
           b\<lparr>head := (head b + 1) mod int (macro_ringbuf_size b), len := len b - 1\<rparr>
         else b)
      in b1\<lparr>data := bsplice (tail b1 * macro_ringbuf_type_size b1) item (data b1),
            tail := (tail b1 + 1) mod macro_ringbuf_size b1,
            len := len b1 + 1\<rparr>)"

definition ringbuf_front :: "ringbuf \<Rightarrow> u8 list option" where
  "ringbuf_front b =
     (if head b = -1 then None
      else Some (block (macro_ringbuf_type_size b) (data b) (nat (head b))))"

text \<open>The pointer returned by the \<open>_nocp\<close> variants, as a byte offset into \<open>data\<close>.\<close>

definition ringbuf_front_nocp :: "ringbuf \<Rightarrow> nat option" where
  "ringbuf_front_nocp b =
     (if head b = -1 then None else Some (nat (head b) * macro_ringbuf_type_size b))"

definition ringbuf_pop_front :: "ringbuf \<Rightarrow> ringbuf" where
  "ringbuf_pop_front b =
     (if head b = -1 then b
      else let b1 = b\<lparr>head := (head b + 1) mod int (macro_ringbuf_size b), len := len b - 1\<rparr>
           in if len b1 = 0 then b1\<lparr>head := -1\<rparr> else b1)"

definition ringbuf_end :: "ringbuf \<Rightarrow> nat" where
  "ringbuf_end b = (tail b + macro_ringbuf_size b - 1) mod macro_ringbuf_size b"

definition ringbuf_back :: "ringbuf \<Rightarrow> u8 list option" where
  "ringbuf_back b =
     (if head b = -1 then None
      else Some (block (macro_ringbuf_type_size b) (data b) (ringbuf_end b)))"

definition ringbuf_back_nocp :: "ringbuf \<Rightarrow> nat option" where
  "ringbuf_back_nocp b =
     (if head b = -1 then None else Some (ringbuf_end b * macro_ringbuf_type_size b))"

definition ringbuf_pop_back :: "ringbuf \<Rightarrow> ringbuf" where
  "ringbuf_pop_back b =
     (if head b = -1 then b
      else let b1 = b\<lparr>tail := ringbuf_end b, len := len b - 1\<rparr>
           in if len b1 = 0 then b1\<lparr>head := -1\<rparr> else b1)"

subsection \<open>The represented sequence\<close>

definition ringbuf_items :: "ringbuf \<Rightarrow> u8 list list" where
  "ringbuf_items b = map (block (macro_ringbuf_type_size b) (data b)) [0..<macro_ringbuf_size b]"

definition ringbuf_rep :: "nat \<Rightarrow> nat \<Rightarrow> ringbuf \<Rightarrow> u8 list list \<Rightarrow> bool" where
  "ringbuf_rep num tsize b vs \<longleftrightarrow>
     macro_ringbuf_size b = num \<and> macro_ringbuf_type_size b = tsize \<and> 1 < num \<and>
     length (data b) = num * tsize \<and> tail b < num \<and> len b = length vs \<and> len b \<le> num \<and>
     (if vs = [] then head b = -1
      else \<exists>h. head b = int h \<and> h < num \<and> tail b = (h + len b) mod num \<and>
             ring num h (len b) (ringbuf_items b) = vs)"

lemma length_ringbuf_items [simp]: "length (ringbuf_items b) = macro_ringbuf_size b"
  by (simp add: ringbuf_items_def)

lemma ringbuf_items_splice:
  assumes "length item = macro_ringbuf_type_size b" and "j < macro_ringbuf_size b"
    and "length (data b) = macro_ringbuf_size b * macro_ringbuf_type_size b"
  shows "ringbuf_items (b\<lparr>data := bsplice (j * macro_ringbuf_type_size b) item (data b)\<rparr>) =
    (ringbuf_items b)[j := item]"
  using assms
  by (intro list_eq_iff_nth_eq [THEN iffD2])
    (auto simp: ringbuf_items_def nth_list_update
      block_splice [where n = "macro_ringbuf_size b"])

lemma ringbuf_items_cong:
  "data b = data b' \<Longrightarrow> macro_ringbuf_size b = macro_ringbuf_size b' \<Longrightarrow>
   macro_ringbuf_type_size b = macro_ringbuf_type_size b' \<Longrightarrow> ringbuf_items b = ringbuf_items b'"
  by (simp add: ringbuf_items_def)

lemma ringbuf_init_rep:
  "1 < num \<Longrightarrow> length mem = num * tsize \<Longrightarrow> ringbuf_rep num tsize (RINGBUF_INIT num tsize mem) []"
  by (simp add: ringbuf_rep_def RINGBUF_INIT_def)

lemma ringbuf_repE:
  assumes "ringbuf_rep num tsize b vs" and "vs \<noteq> []"
  obtains h where "head b = int h" "h < num" "tail b = (h + length vs) mod num"
    "ring num h (length vs) (ringbuf_items b) = vs"
  using assms by (auto simp: ringbuf_rep_def)

lemma nat_mod_succ: "0 < n \<Longrightarrow> (int h + 1) mod int n = int ((h + 1) mod n)"
  by (simp add: zmod_int add.commute)

lemma ringbuf_pop_front_rep:
  assumes "ringbuf_rep num tsize b (v # vs)"
  shows "ringbuf_rep num tsize (ringbuf_pop_front b) vs" and "ringbuf_front b = Some v"
proof -
  obtain h where h: "head b = int h" "h < num" "tail b = (h + Suc (length vs)) mod num"
    "ring num h (Suc (length vs)) (ringbuf_items b) = v # vs"
    using ringbuf_repE [OF assms] by auto
  have b: "macro_ringbuf_size b = num" "macro_ringbuf_type_size b = tsize" "1 < num"
    "length (data b) = num * tsize" "tail b < num" "len b = Suc (length vs)" "len b \<le> num"
    using assms by (auto simp: ringbuf_rep_def)
  from h have "ringbuf_items b ! h = v"
    and r: "ring num ((h + 1) mod num) (length vs) (ringbuf_items b) = vs"
    by (simp_all add: ring_Cons)
  with h b show "ringbuf_front b = Some v"
    by (simp add: ringbuf_front_def ringbuf_items_def)
  have "(int h + 1) mod int num = int ((h + 1) mod num)"
    using b by (intro nat_mod_succ) simp
  moreover have "ringbuf_items (b\<lparr>head := x, len := y\<rparr>) = ringbuf_items b" for x y
    by (rule ringbuf_items_cong) simp_all
  ultimately show "ringbuf_rep num tsize (ringbuf_pop_front b) vs"
    using h b r ring_shift [of h "length vs" num]
    by (auto simp: ringbuf_pop_front_def Let_def ringbuf_rep_def)
qed

lemma ringbuf_push_rep:
  assumes "ringbuf_rep num tsize b vs" and "length item = tsize"
  shows "ringbuf_rep num tsize (ringbuf_push item b)
    ((if length vs = num then tl vs else vs) @ [item])"
proof -
  have b: "macro_ringbuf_size b = num" "macro_ringbuf_type_size b = tsize" "1 < num"
    "length (data b) = num * tsize" "tail b < num" "len b = length vs" "len b \<le> num"
    using assms by (auto simp: ringbuf_rep_def)
  have le: "tail b * tsize + tsize \<le> num * tsize"
    using b(5) mult_le_mono1 [of "Suc (tail b)" num tsize] by simp
  have items: "ringbuf_items b' = (ringbuf_items b)[tail b := item]"
    if "data b' = bsplice (tail b * tsize) item (data b)" "macro_ringbuf_size b' = num"
      "macro_ringbuf_type_size b' = tsize" for b' :: ringbuf
    using ringbuf_items_splice [of item b "tail b"] assms(2) b that
    by (auto simp: ringbuf_items_def)
  show ?thesis
  proof (cases "vs = []")
    case True
    with b assms le show ?thesis
      by (auto simp: items ringbuf_rep_def ringbuf_push_def Let_def ring_def)
  next
    case False
    obtain h where h: "head b = int h" "h < num" "tail b = (h + length vs) mod num"
      "ring num h (length vs) (ringbuf_items b) = vs"
      using ringbuf_repE [OF assms(1) False] by auto
    show ?thesis
    proof (cases "length vs = num")
      case True
      then have t: "tail b = h" using h by simp
      have push: "ringbuf_push item b = b\<lparr>head := int ((h + 1) mod num), len := num,
          data := bsplice (tail b * tsize) item (data b), tail := (h + 1) mod num\<rparr>"
        using True t h b by (simp add: ringbuf_push_def Let_def nat_mod_succ)
      have "ring num ((h + 1) mod num) (num - 1) ((ringbuf_items b)[h := item]) =
          ring num ((h + 1) mod num) (num - 1) (ringbuf_items b)"
        using ring_update_other [of "num - 1" "num - 1" num "ringbuf_items b" "(h + 1) mod num" item]
          ring_next [OF h(2)] b by simp
      moreover have "tl vs = ring num ((h + 1) mod num) (num - 1) (ringbuf_items b)"
        using h(4) True ring_Cons [of num h "num - 1" "ringbuf_items b"] b(3) by (metis Suc_diff_1 gr_implies_not0 list.sel(3) neq0_conv)
      ultimately have "ring num ((h + 1) mod num) num ((ringbuf_items b)[h := item]) = tl vs @ [item]"
        using ring_snoc [of num "(h + 1) mod num" "num - 1" "(ringbuf_items b)[h := item]"]
          ring_next [OF h(2)] b h(2) by simp
      with push True b le h t assms(2) show ?thesis
        by (auto simp: ringbuf_rep_def items)
    next
      case False
      have "tail b \<noteq> h"
      proof
        assume "tail b = h"
        then have "(h + length vs) mod num = (h + 0) mod num"
          using h by simp
        then have "length vs = 0"
          using ring_offset_inj [of "length vs" num 0 h] False b by auto
        with \<open>vs \<noteq> []\<close> show False by simp
      qed
      then have push: "ringbuf_push item b = b\<lparr>len := Suc (length vs),
          data := bsplice (tail b * tsize) item (data b), tail := (tail b + 1) mod num\<rparr>"
        using h b by (simp add: ringbuf_push_def Let_def)
      have "ring num h (Suc (length vs)) ((ringbuf_items b)[tail b := item]) = vs @ [item]"
        using ring_update_other [of "length vs" "length vs" num "ringbuf_items b" h item]
          h b False by (simp add: ring_snoc)
      with push False b le h assms(2) \<open>vs \<noteq> []\<close> show ?thesis
        by (auto simp: items ringbuf_rep_def mod_simps)
    qed
  qed
qed

lemma ringbuf_pop_back_rep:
  assumes "ringbuf_rep num tsize b (vs @ [v])"
  shows "ringbuf_rep num tsize (ringbuf_pop_back b) vs \<and> ringbuf_back b = Some v"
proof -
  obtain h where h: "head b = int h" "h < num" "tail b = (h + Suc (length vs)) mod num"
    "ring num h (Suc (length vs)) (ringbuf_items b) = vs @ [v]"
    using ringbuf_repE [OF assms] by auto
  have b: "macro_ringbuf_size b = num" "macro_ringbuf_type_size b = tsize" "1 < num"
    "length (data b) = num * tsize" "tail b < num" "len b = Suc (length vs)" "len b \<le> num"
    using assms by (auto simp: ringbuf_rep_def)
  define e where "e = (h + length vs) mod num"
  have e: "e < num" "tail b = (e + 1) mod num"
    using h b by (simp_all add: e_def mod_simps)
  then have end_eq: "ringbuf_end b = e"
    using b succ_mod [of e num] by (auto simp: ringbuf_end_def split: if_splits)
  from h have "ringbuf_items b ! e = v" and r: "ring num h (length vs) (ringbuf_items b) = vs"
    by (simp_all add: ring_snoc e_def)
  with h b e end_eq have "ringbuf_back b = Some v"
    by (simp add: ringbuf_back_def ringbuf_items_def)
  moreover have "ringbuf_items (b\<lparr>tail := x, len := y\<rparr>) = ringbuf_items b" for x y
    by (rule ringbuf_items_cong) simp_all
  then have "ringbuf_rep num tsize (ringbuf_pop_back b) vs"
    using h b r e end_eq by (auto simp: ringbuf_pop_back_def Let_def ringbuf_rep_def e_def)
  ultimately show ?thesis by simp
qed

subsection \<open>Sequences of operations\<close>

datatype ringbuf_op = RPush "u8 list" | RPopFront | RPopBack

fun ringbuf_step :: "ringbuf \<Rightarrow> ringbuf_op \<Rightarrow> ringbuf" where
  "ringbuf_step b (RPush item) = ringbuf_push item b"
| "ringbuf_step b RPopFront = ringbuf_pop_front b"
| "ringbuf_step b RPopBack = ringbuf_pop_back b"

text \<open>The specification: a list of at most \<open>num\<close> items that loses its oldest item when full.\<close>

fun window_step :: "nat \<Rightarrow> u8 list list \<Rightarrow> ringbuf_op \<Rightarrow> u8 list list" where
  "window_step num vs (RPush item) = (if length vs = num then tl vs else vs) @ [item]"
| "window_step num vs RPopFront = tl vs"
| "window_step num vs RPopBack = butlast vs"

fun op_fits :: "nat \<Rightarrow> ringbuf_op \<Rightarrow> bool" where
  "op_fits tsize (RPush item) \<longleftrightarrow> length item = tsize"
| "op_fits tsize RPopFront \<longleftrightarrow> True"
| "op_fits tsize RPopBack \<longleftrightarrow> True"

lemma ringbuf_rep_nil:
  "ringbuf_rep num tsize b [] \<Longrightarrow> ringbuf_pop_front b = b \<and> ringbuf_pop_back b = b \<and>
     ringbuf_front b = None \<and> ringbuf_back b = None"
  by (simp add: ringbuf_rep_def ringbuf_pop_front_def ringbuf_pop_back_def ringbuf_front_def
      ringbuf_back_def)

lemma ringbuf_step_rep:
  assumes "ringbuf_rep num tsize b vs" and "op_fits tsize x"
  shows "ringbuf_rep num tsize (ringbuf_step b x) (window_step num vs x)"
proof (cases x)
  case (RPush item)
  with assms ringbuf_push_rep show ?thesis by simp
next
  case RPopFront
  with assms ringbuf_rep_nil ringbuf_pop_front_rep(1) show ?thesis by (cases vs) auto
next
  case RPopBack
  with assms ringbuf_rep_nil ringbuf_pop_back_rep show ?thesis
    by (cases vs rule: rev_cases) auto
qed

lemma ringbuf_run_rep:
  "ringbuf_rep num tsize b vs \<Longrightarrow> list_all (op_fits tsize) xs \<Longrightarrow>
   ringbuf_rep num tsize (foldl ringbuf_step b xs) (foldl (window_step num) vs xs)"
  by (induction xs arbitrary: b vs) (auto simp: ringbuf_step_rep)

lemma ringbuf_observe:
  assumes "ringbuf_rep num tsize b vs"
  shows "ringbuf_length b = length vs \<and> length vs \<le> num \<and> (ringbuf_is_empty b \<longleftrightarrow> vs = []) \<and>
    ringbuf_front b = (if vs = [] then None else Some (hd vs)) \<and>
    ringbuf_back b = (if vs = [] then None else Some (last vs))"
proof -
  have "ringbuf_front b = (if vs = [] then None else Some (hd vs))"
    using assms ringbuf_rep_nil ringbuf_pop_front_rep(2) by (cases vs) auto
  moreover have "ringbuf_back b = (if vs = [] then None else Some (last vs))"
    using assms ringbuf_rep_nil ringbuf_pop_back_rep by (cases vs rule: rev_cases) auto
  ultimately show ?thesis
    using assms by (auto simp: ringbuf_rep_def ringbuf_length_def ringbuf_is_empty_def split: if_splits)
qed

text \<open>
  C6: any sequence of pushes and pops on an initialised ring buffer of \<open>num > 1\<close> slots
  behaves as a window on a list: at most \<open>num\<close> items are kept, a push on a full buffer drops
  the oldest one, and the length, the emptiness test, the front and the back that the code
  reports are those of the list.
\<close>

theorem ringbuf_refines_window:
  assumes "1 < num" and "length mem = num * tsize" and "list_all (op_fits tsize) xs"
  shows "let b = foldl ringbuf_step (RINGBUF_INIT num tsize mem) xs;
             vs = foldl (window_step num) [] xs
         in ringbuf_length b = length vs \<and> length vs \<le> num \<and> (ringbuf_is_empty b \<longleftrightarrow> vs = []) \<and>
            ringbuf_front b = (if vs = [] then None else Some (hd vs)) \<and>
            ringbuf_back b = (if vs = [] then None else Some (last vs))"
  using ringbuf_observe [OF ringbuf_run_rep [OF ringbuf_init_rep [OF assms(1,2)] assms(3)]]
  by (simp only: Let_def)

theorem ringbuf_refines_window_witness:
  "ringbuf_front (foldl ringbuf_step (RINGBUF_INIT 2 1 [0, 0]) [RPush [1], RPush [2], RPush [3]]) =
     Some [2]"
  using ringbuf_refines_window [of 2 "[0, 0]" 1 "[RPush [1], RPush [2], RPush [3]]"]
  by (simp add: Let_def)

end
