(* ===== verification/KLib.thy ===== *)
theory KLib
  imports Prelude
begin

text \<open>
  The string and memory routines of klibs/lib.cpp and of the user library
  syscalls/ece391support.c, on a byte memory. A memory is a function from addresses to
  bytes; a C string at an address is the bytes up to the first zero. Loops that end only
  when they meet a terminator are partial functions: \<open>None\<close> is a loop that runs for
  ever. A loop that can also fail returns a result inside the option.
\<close>

type_synonym mem = "nat \<Rightarrow> u8"

named_theorems mem_simps \<open>reads of an updated memory\<close>

subsection \<open>Strings in memory\<close>

definition cstring :: "mem \<Rightarrow> nat \<Rightarrow> u8 list \<Rightarrow> bool" where
  "cstring m s xs \<longleftrightarrow> (\<forall>i < length xs. m (s + i) = xs ! i) \<and> 0 \<notin> set xs \<and> m (s + length xs) = 0"

text \<open>The memory with a byte list stored at an address, and the bytes found there.\<close>

definition store_bytes :: "mem \<Rightarrow> nat \<Rightarrow> u8 list \<Rightarrow> mem" where
  "store_bytes m s xs = (\<lambda>a. if s \<le> a \<and> a < s + length xs then xs ! (a - s) else m a)"

definition load_bytes :: "mem \<Rightarrow> nat \<Rightarrow> nat \<Rightarrow> u8 list" where
  "load_bytes m s n = map (\<lambda>i. m (s + i)) [0..<n]"

lemma length_load_bytes [simp]: "length (load_bytes m s n) = n"
  by (simp add: load_bytes_def)

lemma nth_load_bytes [simp]: "i < n \<Longrightarrow> load_bytes m s n ! i = m (s + i)"
  by (simp add: load_bytes_def)

lemma store_bytes_in [mem_simps]: "i < length xs \<Longrightarrow> store_bytes m s xs (s + i) = xs ! i"
  and store_bytes_out [mem_simps]: "a < s \<or> s + length xs \<le> a \<Longrightarrow> store_bytes m s xs a = m a"
  by (auto simp: store_bytes_def)

lemma store_bytes_Nil [simp]: "store_bytes m s [] = m"
  by (auto simp: store_bytes_def fun_eq_iff)

lemma store_bytes_Cons: "store_bytes m s (x # xs) = store_bytes (m(s := x)) (Suc s) xs"
proof
  fix a
  show "store_bytes m s (x # xs) a = store_bytes (m(s := x)) (Suc s) xs a"
    by (cases "a = s") (auto simp: store_bytes_def nth_Cons' Suc_le_eq)
qed

lemma store_bytes_snoc: "store_bytes m s (xs @ [x]) = (store_bytes m s xs)(s + length xs := x)"
  by (auto simp: store_bytes_def fun_eq_iff nth_append)

lemma load_store: "length xs = n \<Longrightarrow> load_bytes (store_bytes m s xs) s n = xs"
  by (auto simp: load_bytes_def mem_simps intro: nth_equalityI)

lemma store_load: "store_bytes m s (load_bytes m s n) = m"
  by (auto simp: store_bytes_def fun_eq_iff)

lemma cstring_store:
  "0 \<notin> set xs \<Longrightarrow> cstring (store_bytes m s (xs @ [0])) s xs"
  by (auto simp: cstring_def store_bytes_def nth_append)

lemma cstring_char: "cstring m s xs \<Longrightarrow> i \<le> length xs \<Longrightarrow> m (s + i) = (xs @ [0]) ! i"
  by (auto simp: cstring_def nth_append)

lemma cstring_nonzero: "cstring m s xs \<Longrightarrow> i < length xs \<Longrightarrow> m (s + i) \<noteq> 0"
  by (metis cstring_def nth_mem)

lemma cstring_load: "cstring m s xs \<Longrightarrow> load_bytes m s (length xs) = xs"
  by (auto simp: cstring_def load_bytes_def intro: nth_equalityI)

lemma cstring_shift:
  assumes "cstring m s (xs @ ys)"
  shows "cstring m (s + length xs) ys"
proof -
  have "m (s + length xs + i) = ys ! i" if "i < length ys" for i
    using assms that by (auto simp: cstring_def nth_append add.assoc dest: spec [of _ "length xs + i"])
  with assms show ?thesis
    by (auto simp: cstring_def add.assoc)
qed

lemma cstring_tl: "cstring m s (x # xs) \<Longrightarrow> m s = x \<and> x \<noteq> 0 \<and> cstring m (Suc s) xs"
  using cstring_shift [of m s "[x]" xs] by (force simp: cstring_def)

lemma cstring_NilD: "cstring m s [] \<Longrightarrow> m s = 0"
  by (simp add: cstring_def)

lemma cstring_unique: "cstring m s xs \<Longrightarrow> cstring m s ys \<Longrightarrow> xs = ys"
proof (induction xs arbitrary: s ys)
  case Nil
  then show ?case
    by (cases ys) (auto dest: cstring_tl cstring_NilD)
next
  case (Cons x xs)
  then show ?case
    by (cases ys) (auto dest!: cstring_tl cstring_NilD)
qed

lemma cstring_cong:
  "cstring m s xs \<Longrightarrow> (\<And>a. s \<le> a \<Longrightarrow> a \<le> s + length xs \<Longrightarrow> m' a = m a) \<Longrightarrow> cstring m' s xs"
  by (auto simp: cstring_def)

subsection \<open>Length\<close>

partial_function (option) strlen_loop :: "mem \<Rightarrow> nat \<Rightarrow> nat \<Rightarrow> nat option" where
  [code]: "strlen_loop m s len = (if m (s + len) \<noteq> 0 then strlen_loop m s (len + 1) else Some len)"

definition strlen :: "mem \<Rightarrow> nat \<Rightarrow> nat option" where
  "strlen m s = strlen_loop m s 0"

lemma strlen_loop_cstring:
  "cstring m s xs \<Longrightarrow> k \<le> length xs \<Longrightarrow> strlen_loop m s k = Some (length xs)"
proof (induction "length xs - k" arbitrary: k)
  case 0
  then show ?case
    by (subst strlen_loop.simps) (simp add: cstring_def)
next
  case (Suc n)
  then have "k < length xs" by linarith
  then show ?case
    using Suc.hyps(1) [of "k + 1"] Suc.hyps(2) Suc.prems cstring_nonzero
    by (subst strlen_loop.simps) simp
qed

lemma strlen_cstring: "cstring m s xs \<Longrightarrow> strlen m s = Some (length xs)"
  by (simp add: strlen_def strlen_loop_cstring)

lemma strlen_loop_Some:
  assumes "strlen_loop m s k = Some n"
  shows "k \<le> n \<and> m (s + n) = 0 \<and> (\<forall>i. k \<le> i \<and> i < n \<longrightarrow> m (s + i) \<noteq> 0)"
proof (rule strlen_loop.raw_induct [OF _ assms])
  fix f :: "mem \<Rightarrow> nat \<Rightarrow> nat \<Rightarrow> nat option" and m s len n
  assume IH: "\<And>m s len n. f m s len = Some n \<Longrightarrow>
      len \<le> n \<and> m (s + n) = 0 \<and> (\<forall>i. len \<le> i \<and> i < n \<longrightarrow> m (s + i) \<noteq> 0)"
    and eq: "(if m (s + len) \<noteq> 0 then f m s (len + 1) else Some len) = Some n"
  show "len \<le> n \<and> m (s + n) = 0 \<and> (\<forall>i. len \<le> i \<and> i < n \<longrightarrow> m (s + i) \<noteq> 0)"
    using eq IH [of m s "len + 1" n] by (auto simp: Suc_le_eq split: if_splits) (metis le_neq_implies_less)
qed

lemma cstring_ex: "strlen m s = Some n \<Longrightarrow> cstring m s (load_bytes m s n)"
  using strlen_loop_Some [of m s 0 n]
  by (auto simp: strlen_def cstring_def load_bytes_def)

subsection \<open>Reversal in place\<close>

text \<open>\<open>beg\<close> and \<open>end\<close> are signed: on the empty string \<open>end\<close> starts at -1.\<close>

function strrev_loop :: "mem \<Rightarrow> nat \<Rightarrow> int \<Rightarrow> int \<Rightarrow> mem" where
  "strrev_loop m s beg end' =
     (if beg < end'
      then let tmp = m (nat (int s + end'));
               m1 = m(nat (int s + end') := m (nat (int s + beg)));
               m2 = m1(nat (int s + beg) := tmp)
           in strrev_loop m2 s (beg + 1) (end' - 1)
      else m)"
  by auto
termination by (relation "measure (\<lambda>(m, s, beg, end'). nat (end' - beg))") auto

declare strrev_loop.simps [simp del]

definition strrev :: "mem \<Rightarrow> nat \<Rightarrow> mem option" where
  "strrev m s = map_option (\<lambda>n. strrev_loop m s 0 (int n - 1)) (strlen m s)"

lemma strrev_loop_eq:
  assumes "0 \<le> beg" and "beg \<le> end' + 1"
  shows "strrev_loop m s beg end' =
    (\<lambda>a. if int s + beg \<le> int a \<and> int a \<le> int s + end' then m (nat (2 * int s + beg + end' - int a)) else m a)"
  using assms
proof (induction m s beg end' rule: strrev_loop.induct)
  case (1 m s beg end')
  show ?case
  proof (cases "beg < end'")
    case True
    define m1 where "m1 = m(nat (int s + end') := m (nat (int s + beg)))"
    define m2 where "m2 = m1(nat (int s + beg) := m (nat (int s + end')))"
    have IH: "strrev_loop m2 s (beg + 1) (end' - 1) =
      (\<lambda>a. if int s + (beg + 1) \<le> int a \<and> int a \<le> int s + (end' - 1)
        then m2 (nat (2 * int s + (beg + 1) + (end' - 1) - int a)) else m2 a)"
      using "1.IH" [OF True refl m1_def m2_def] "1.prems" True by simp
    show ?thesis
    proof
      fix a
      have "strrev_loop m s beg end' a = strrev_loop m2 s (beg + 1) (end' - 1) a"
        using True by (subst strrev_loop.simps) (simp add: m1_def m2_def Let_def)
      also have "\<dots> = (if int s + beg \<le> int a \<and> int a \<le> int s + end'
          then m (nat (2 * int s + beg + end' - int a)) else m a)"
        unfolding IH using "1.prems" True
        by (auto simp: m1_def m2_def nat_eq_iff nat_eq_iff2 algebra_simps intro!: arg_cong [where f = m])
      finally show "strrev_loop m s beg end' a = \<dots>" .
    qed
  next
    case False
    then have "strrev_loop m s beg end' = m"
      by (subst strrev_loop.simps) simp
    then show ?thesis
      using False "1.prems" by (auto simp: fun_eq_iff intro!: arg_cong [where f = m])
  qed
qed

lemma strrev_cstring:
  assumes "cstring m s xs"
  shows "strrev m s = Some (store_bytes m s (rev xs))"
proof -
  have "strrev_loop m s 0 (int (length xs) - 1) = store_bytes m s (rev xs)"
  proof
    fix a
    show "strrev_loop m s 0 (int (length xs) - 1) a = store_bytes m s (rev xs) a"
    proof (cases "s \<le> a \<and> a < s + length xs")
      case True
      then obtain i where i: "a = s + i" "i < length xs"
        using le_Suc_ex by (metis nat_add_left_cancel_less)
      have "nat (2 * int s + 0 + (int (length xs) - 1) - int a) = s + (length xs - Suc i)"
        using i by (simp add: nat_eq_iff of_nat_diff algebra_simps)
      moreover have "m (s + (length xs - Suc i)) = xs ! (length xs - Suc i)"
        using assms i by (auto simp: cstring_def simp del: add_diff_assoc)
      ultimately show ?thesis
        using i by (subst strrev_loop_eq) (auto simp: mem_simps rev_nth)
    next
      case False
      then show ?thesis
        by (subst strrev_loop_eq) (auto simp: store_bytes_def)
    qed
  qed
  with assms show ?thesis
    by (simp add: strrev_def strlen_cstring)
qed

subsection \<open>Numbers to text\<close>

definition bytes :: "string \<Rightarrow> u8 list" where
  "bytes cs = map of_char cs"

definition itoa_lookup :: "u8 list" where
  "itoa_lookup = bytes ''0123456789ABCDEFGHIJKLMNOPQRSTUVWXYZ'' @ [0]"

partial_function (option) itoa_loop :: "mem \<Rightarrow> nat \<Rightarrow> nat \<Rightarrow> nat \<Rightarrow> (mem \<times> nat) kresult option" where
  [code]: "itoa_loop m newbuf newval radix =
     (if newval > 0 then
        if radix = 0 then Some (Inl (Trap 0))
        else if newval mod radix < length itoa_lookup then
          itoa_loop (m(newbuf := itoa_lookup ! (newval mod radix))) (newbuf + 1) (newval div radix) radix
        else Some (Inl Fault)
      else Some (Inr (m, newbuf)))"

definition itoa :: "nat \<Rightarrow> mem \<Rightarrow> nat \<Rightarrow> nat \<Rightarrow> mem kresult option" where
  "itoa value m buf radix =
     (if value = 0 then Some (Inr (m(buf := 48, buf + 1 := 0)))
      else case itoa_loop m buf value radix of
             None \<Rightarrow> None
           | Some (Inl e) \<Rightarrow> Some (Inl e)
           | Some (Inr (m1, newbuf)) \<Rightarrow> map_option Inr (strrev (m1(newbuf := 0)) buf))"

text \<open>The digits of a number, lowest place first, and the numeral they print as.\<close>

function ldigits :: "nat \<Rightarrow> nat \<Rightarrow> nat list" where
  "ldigits r n = (if n = 0 \<or> r < 2 then [] else n mod r # ldigits r (n div r))"
  by auto
termination by (relation "measure snd") auto

declare ldigits.simps [simp del]

definition numeral_bytes :: "nat \<Rightarrow> nat \<Rightarrow> u8 list" where
  "numeral_bytes r n = (if n = 0 then [48] else map (\<lambda>d. itoa_lookup ! d) (rev (ldigits r n)))"

definition digit_value :: "u8 \<Rightarrow> nat" where
  "digit_value b = (if unat b < 58 then unat b - 48 else unat b - 55)"

definition parse_numeral :: "nat \<Rightarrow> u8 list \<Rightarrow> nat" where
  "parse_numeral r xs = foldl (\<lambda>acc b. acc * r + digit_value b) 0 xs"

lemma length_itoa_lookup [simp]: "length itoa_lookup = 37"
  by (simp add: itoa_lookup_def bytes_def)

lemma itoa_lookup_digit:
  "list_all (\<lambda>d. itoa_lookup ! d \<noteq> 0 \<and> digit_value (itoa_lookup ! d) = d) [0..<36]"
  by code_simp

lemma digit_value_lookup: "d < 36 \<Longrightarrow> digit_value (itoa_lookup ! d) = d"
  and itoa_lookup_nonzero: "d < 36 \<Longrightarrow> itoa_lookup ! d \<noteq> 0"
  using itoa_lookup_digit by (auto simp: list_all_iff)

lemma ldigits_below: "d \<in> set (ldigits r n) \<Longrightarrow> d < r"
proof (induction r n rule: ldigits.induct)
  case (1 r n)
  show ?case
  proof (cases "n = 0 \<or> r < 2")
    case True
    with 1(2) show ?thesis by (simp add: ldigits.simps [of r n])
  next
    case False
    with 1 show ?thesis by (subst (asm) (2) ldigits.simps) auto
  qed
qed

lemma ldigits_nonempty: "0 < n \<Longrightarrow> 2 \<le> r \<Longrightarrow> ldigits r n \<noteq> []"
  by (subst ldigits.simps) simp

lemma ldigits_value: "2 \<le> r \<Longrightarrow> foldr (\<lambda>d acc. acc * r + d) (ldigits r n) 0 = n"
proof (induction r n rule: ldigits.induct)
  case (1 r n)
  then show ?case
    by (cases "n = 0") (simp_all add: ldigits.simps [of r])
qed

lemma ldigits_length: "2 \<le> r \<Longrightarrow> n < 2 ^ k \<Longrightarrow> length (ldigits r n) \<le> k"
proof (induction k arbitrary: n)
  case 0
  then show ?case by (simp add: ldigits.simps)
next
  case (Suc k)
  have "n div r \<le> n div 2"
    using Suc.prems(1) by (rule div_le_mono2 [rotated]) simp
  also have "n div 2 < 2 ^ k"
    using Suc.prems(2) by (simp add: less_mult_imp_div_less)
  finally show ?case
    using Suc.IH [of "n div r"] Suc.prems(1) by (simp add: ldigits.simps [of r n])
qed

lemma itoa_loop_digits:
  assumes "2 \<le> r" and "r \<le> 36"
  shows "itoa_loop m p n r =
    Some (Inr (store_bytes m p (map (\<lambda>d. itoa_lookup ! d) (ldigits r n)), p + length (ldigits r n)))"
  using assms
proof (induction r n arbitrary: m p rule: ldigits.induct)
  case (1 r n)
  show ?case
  proof (cases "n = 0")
    case True
    then show ?thesis by (subst itoa_loop.simps) (simp add: ldigits.simps)
  next
    case False
    have "n mod r < r"
      using "1.prems" by simp
    then have "n mod r < 37"
      using "1.prems" by linarith
    with False "1.prems" "1.IH" show ?thesis
      by (subst itoa_loop.simps) (simp add: ldigits.simps [of r n] store_bytes_Cons)
  qed
qed

lemma numeral_bytes_nonzero: "2 \<le> r \<Longrightarrow> r \<le> 36 \<Longrightarrow> 0 \<notin> set (numeral_bytes r n)"
  using ldigits_below [of _ r n] itoa_lookup_nonzero
  by (auto simp: numeral_bytes_def) (metis order_less_le_trans)

lemma itoa_eq:
  assumes "2 \<le> r" and "r \<le> 36"
  shows "itoa n m buf r = Some (Inr (store_bytes m buf (numeral_bytes r n @ [0])))"
proof (cases "n = 0")
  case True
  then show ?thesis
    by (simp add: itoa_def numeral_bytes_def store_bytes_Cons)
next
  case False
  define ds where "ds = map (\<lambda>d. itoa_lookup ! d) (ldigits r n)"
  have nz: "0 \<notin> set ds"
    using numeral_bytes_nonzero [OF assms, of n] False by (simp add: numeral_bytes_def ds_def)
  have "strrev (store_bytes m buf (ds @ [0])) buf = Some (store_bytes (store_bytes m buf (ds @ [0])) buf (rev ds))"
    by (rule strrev_cstring) (rule cstring_store [OF nz])
  moreover have "store_bytes (store_bytes m buf (ds @ [0])) buf (rev ds) = store_bytes m buf (rev ds @ [0])"
    by (auto simp: store_bytes_def fun_eq_iff nth_append)
  ultimately show ?thesis
    using False itoa_loop_digits [OF assms, of m buf n]
    by (simp add: itoa_def ds_def [symmetric] store_bytes_snoc numeral_bytes_def rev_map [symmetric])
      (simp add: ds_def rev_map store_bytes_snoc)
qed

lemma parse_numeral_bytes: "2 \<le> r \<Longrightarrow> r \<le> 36 \<Longrightarrow> parse_numeral r (numeral_bytes r n) = n"
proof (cases "n = 0")
  case True
  then show ?thesis
    by (simp add: parse_numeral_def numeral_bytes_def digit_value_def)
next
  case False
  assume r: "2 \<le> r" "r \<le> 36"
  have "foldr (\<lambda>b acc. acc * r + digit_value b) (map (\<lambda>d. itoa_lookup ! d) ds) 0 =
      foldr (\<lambda>d acc. acc * r + d) ds 0" if "\<forall>d\<in>set ds. d < 36" for ds
    using that by (induction ds) (simp_all add: digit_value_lookup)
  moreover have "\<forall>d\<in>set (ldigits r n). d < 36"
    using ldigits_below r(2) order_less_le_trans by blast
  ultimately show ?thesis
    using False r ldigits_value [of r n]
    by (simp add: parse_numeral_def numeral_bytes_def rev_map [symmetric] foldl_conv_foldr)
qed

lemma numeral_bytes_length:
  "2 \<le> r \<Longrightarrow> n < 2 ^ k \<Longrightarrow> 0 < k \<Longrightarrow> length (numeral_bytes r n) \<le> k"
  using ldigits_length [of r n k] by (simp add: numeral_bytes_def)

text \<open>
  C7: for every radix from 2 to 36, \<open>itoa\<close> always returns; the buffer then holds a
  string of at most 32 characters which reads back, digit by digit in that radix, as the
  number converted, and nothing outside the string and its terminator is written.
\<close>

theorem itoa_roundtrip:
  assumes "2 \<le> radix" and "radix \<le> 36" and "v < two32"
  shows "\<exists>m' xs. itoa v m buf radix = Some (Inr m') \<and> cstring m' buf xs \<and> length xs \<le> 32 \<and>
    parse_numeral radix xs = v \<and> (\<forall>a. a < buf \<or> buf + length xs < a \<longrightarrow> m' a = m a)"
proof -
  let ?xs = "numeral_bytes radix v"
  have "cstring (store_bytes m buf (?xs @ [0])) buf ?xs"
    using assms by (intro cstring_store numeral_bytes_nonzero)
  moreover have "length ?xs \<le> 32"
    using assms by (intro numeral_bytes_length) simp_all
  ultimately show ?thesis
    using assms by (intro exI [of _ "store_bytes m buf (?xs @ [0])"] exI [of _ ?xs])
      (auto simp: itoa_eq parse_numeral_bytes store_bytes_def)
qed

theorem itoa_roundtrip_witness:
  "\<exists>m' xs. itoa 48879 (\<lambda>_. 7) 100 16 = Some (Inr m') \<and> cstring m' 100 xs \<and> length xs \<le> 32 \<and>
    parse_numeral 16 xs = 48879 \<and> (\<forall>a. a < 100 \<or> 100 + length xs < a \<longrightarrow> m' a = 7)"
  using itoa_roundtrip [of 16 48879 "\<lambda>_. 7" 100] by simp

subsection \<open>Comparison\<close>

text \<open>
  The comparison loop counts \<open>i\<close> up to \<open>n\<close>; the recursion is on the rounds that
  are left. The difference returned is that of two signed \<open>char\<close>s.
\<close>

primrec strncmp_loop :: "mem \<Rightarrow> nat \<Rightarrow> nat \<Rightarrow> nat \<Rightarrow> nat \<Rightarrow> int" where
  "strncmp_loop m s1 s2 i 0 = 0"
| "strncmp_loop m s1 s2 i (Suc left) =
     (if m (s1 + i) \<noteq> m (s2 + i) \<or> m (s1 + i) = 0 then sint (m (s1 + i)) - sint (m (s2 + i))
      else strncmp_loop m s1 s2 (i + 1) left)"

definition strncmp :: "mem \<Rightarrow> nat \<Rightarrow> nat \<Rightarrow> nat \<Rightarrow> int" where
  "strncmp m s1 s2 n = strncmp_loop m s1 s2 0 n"

text \<open>The string of at most \<open>n\<close> bytes at an address, terminated or cut off.\<close>

definition name_at :: "mem \<Rightarrow> nat \<Rightarrow> nat \<Rightarrow> u8 list" where
  "name_at m s n = takeWhile (\<lambda>b. b \<noteq> 0) (load_bytes m s n)"

lemma load_bytes_0 [simp]: "load_bytes m s 0 = []"
  by (simp add: load_bytes_def)

lemma load_bytes_Suc: "load_bytes m s (Suc n) = m s # load_bytes m (Suc s) n"
  by (rule nth_equalityI) (auto simp: nth_Cons split: nat.splits)

lemma name_at_Suc: "name_at m s (Suc n) = (if m s = 0 then [] else m s # name_at m (Suc s) n)"
  by (simp add: name_at_def load_bytes_Suc)

lemma name_at_0 [simp]: "name_at m s 0 = []"
  by (simp add: name_at_def)

lemma name_at_cstring: "cstring m s xs \<Longrightarrow> name_at m s n = take n xs"
proof (induction n arbitrary: s xs)
  case (Suc n)
  show ?case
  proof (cases xs)
    case Nil
    with Suc.prems show ?thesis by (simp add: name_at_Suc cstring_def)
  next
    case (Cons x ys)
    with Suc show ?thesis using cstring_tl [of m s x ys] by (simp add: name_at_Suc)
  qed
qed simp

lemma sint_diff_eq_0: "sint (a :: u8) - sint b = 0 \<longleftrightarrow> a = b"
  by (auto dest: signed_word_eqI)

lemma strncmp_loop_eq_0:
  "strncmp_loop m s1 s2 i k = 0 \<longleftrightarrow> name_at m (s1 + i) k = name_at m (s2 + i) k"
proof (induction k arbitrary: i)
  case (Suc k)
  then show ?case
    using sint_diff_eq_0 [of "m (s1 + i)" "m (s2 + i)"] by (auto simp: name_at_Suc)
qed simp

lemma strncmp_eq_0: "strncmp m s1 s2 n = 0 \<longleftrightarrow> name_at m s1 n = name_at m s2 n"
  by (simp add: strncmp_def strncmp_loop_eq_0)

subsection \<open>Copies\<close>

partial_function (option) strcpy_loop :: "mem \<Rightarrow> nat \<Rightarrow> nat \<Rightarrow> nat \<Rightarrow> mem option" where
  [code]: "strcpy_loop m dest src i =
     (if m (src + i) \<noteq> 0 then strcpy_loop (m(dest + i := m (src + i))) dest src (i + 1)
      else Some (m(dest + i := 0)))"

definition strcpy :: "mem \<Rightarrow> nat \<Rightarrow> nat \<Rightarrow> mem option" where
  "strcpy m dest src = strcpy_loop m dest src 0"

text \<open>\<open>strncpy\<close>: the copying loop returns the index where it stopped, then zeros are filled in.\<close>

primrec strncpy_loop :: "mem \<Rightarrow> nat \<Rightarrow> nat \<Rightarrow> nat \<Rightarrow> nat \<Rightarrow> mem \<times> nat" where
  "strncpy_loop m dest src i 0 = (m, i)"
| "strncpy_loop m dest src i (Suc left) =
     (if m (src + i) \<noteq> 0 then strncpy_loop (m(dest + i := m (src + i))) dest src (i + 1) left
      else (m, i))"

primrec strncpy_fill :: "mem \<Rightarrow> nat \<Rightarrow> nat \<Rightarrow> nat \<Rightarrow> mem" where
  "strncpy_fill m dest i 0 = m"
| "strncpy_fill m dest i (Suc left) = strncpy_fill (m(dest + i := 0)) dest (i + 1) left"

definition strncpy :: "mem \<Rightarrow> nat \<Rightarrow> nat \<Rightarrow> nat \<Rightarrow> mem" where
  "strncpy m dest src n =
     (case strncpy_loop m dest src 0 n of (m1, i) \<Rightarrow> strncpy_fill m1 dest i (n - i))"

text \<open>Source and destination do not overlap: the destination ends before the source or starts after it.\<close>

definition disjoint_ranges :: "nat \<Rightarrow> nat \<Rightarrow> nat \<Rightarrow> nat \<Rightarrow> bool" where
  "disjoint_ranges a n b k \<longleftrightarrow> a + n \<le> b \<or> b + k \<le> a"

lemma strcpy_loop_eq:
  assumes "cstring m src xs" and "i \<le> length xs" and "dest + length xs < src \<or> src + length xs < dest"
  shows "strcpy_loop (store_bytes m dest (take i xs)) dest src i = Some (store_bytes m dest (xs @ [0]))"
  using assms(2)
proof (induction "length xs - i" arbitrary: i)
  case 0
  then have "i = length xs" by simp
  moreover have "store_bytes m dest xs (src + length xs) = 0"
    using assms(1,3) by (auto simp: store_bytes_def cstring_def)
  ultimately show ?case
    by (subst strcpy_loop.simps) (simp add: store_bytes_snoc)
next
  case (Suc k)
  then have i: "i < length xs" by simp
  have "store_bytes m dest (take i xs) (src + i) = xs ! i"
    using assms(1,3) i by (auto simp: store_bytes_def cstring_def)
  moreover have "xs ! i \<noteq> 0"
    using assms(1) i by (metis cstring_def nth_mem)
  moreover have "(store_bytes m dest (take i xs))(dest + i := xs ! i) = store_bytes m dest (take (Suc i) xs)"
    using i by (simp add: take_Suc_conv_app_nth store_bytes_snoc)
  ultimately show ?case
    using Suc.hyps(1) [of "Suc i"] Suc.hyps(2) i by (subst strcpy_loop.simps) simp
qed

lemma strcpy_eq:
  assumes "cstring m src xs" and "dest + length xs < src \<or> src + length xs < dest"
  shows "strcpy m dest src = Some (store_bytes m dest (xs @ [0]))"
  using strcpy_loop_eq [OF assms(1) _ assms(2), of 0] by (simp add: strcpy_def)

lemma strncpy_fill_eq: "strncpy_fill m dest i k = store_bytes m (dest + i) (replicate k 0)"
  by (induction k arbitrary: m i) (simp_all add: store_bytes_Cons)

lemma strncpy_loop_eq:
  assumes "dest + i + k \<le> src + i \<or> src + i + k \<le> dest + i"
  shows "strncpy_loop m dest src i k =
    (store_bytes m (dest + i) (name_at m (src + i) k), i + length (name_at m (src + i) k))"
  using assms
proof (induction k arbitrary: m i)
  case (Suc k)
  have name: "name_at (m(dest + i := v)) (src + (i + 1)) k = name_at m (src + (i + 1)) k" for v
    using Suc.prems by (auto simp: name_at_def load_bytes_def intro!: arg_cong [where f = "takeWhile _"])
  show ?case
    using Suc.prems name by (auto simp: name_at_Suc store_bytes_Cons Suc.IH fun_upd_def)
qed simp

lemma name_at_length: "length (name_at m s n) \<le> n"
  using length_takeWhile_le [of "\<lambda>b. b \<noteq> 0" "load_bytes m s n"] by (simp add: name_at_def)

lemma strncpy_eq:
  assumes "dest + n \<le> src \<or> src + n \<le> dest"
  shows "strncpy m dest src n =
    store_bytes m dest (name_at m src n @ replicate (n - length (name_at m src n)) 0)"
  using strncpy_loop_eq [of dest 0 n src m] assms
  by (simp add: strncpy_def strncpy_fill_eq)
    (auto simp: store_bytes_def fun_eq_iff nth_append)

end
