(* ===== verification/ULib.thy ===== *)
theory ULib
  imports KLib
begin

text \<open>
  The support library of the user programs, syscalls/ece391support.c (fish/ece391support.c
  holds the first five functions again), with the pointer-walking loops as the C code has
  them. The lemmas relate them to the kernel's routines and to the strings they work on.
\<close>

partial_function (option) ece391_strlen_loop :: "mem \<Rightarrow> nat \<Rightarrow> nat \<Rightarrow> nat option" where
  [code]: "ece391_strlen_loop m s len =
     (if m s \<noteq> 0 then ece391_strlen_loop m (s + 1) (len + 1) else Some len)"

definition ece391_strlen :: "mem \<Rightarrow> nat \<Rightarrow> nat option" where
  "ece391_strlen m s = ece391_strlen_loop m s 0"

text \<open>\<open>while ('\0' != (*dst++ = *src++));\<close>\<close>

partial_function (option) ece391_strcpy :: "mem \<Rightarrow> nat \<Rightarrow> nat \<Rightarrow> mem option" where
  [code]: "ece391_strcpy m dst src =
     (if m src \<noteq> 0 then ece391_strcpy (m(dst := m src)) (dst + 1) (src + 1)
      else Some (m(dst := m src)))"

text \<open>The bytes are unsigned here, unlike in the kernel's comparison.\<close>

partial_function (option) ece391_strcmp :: "mem \<Rightarrow> nat \<Rightarrow> nat \<Rightarrow> int option" where
  [code]: "ece391_strcmp m s1 s2 =
     (if m s1 = m s2 then if m s1 = 0 then Some 0 else ece391_strcmp m (s1 + 1) (s2 + 1)
      else Some (uint (m s1) - uint (m s2)))"

fun ece391_strncmp_loop :: "mem \<Rightarrow> nat \<Rightarrow> nat \<Rightarrow> nat \<Rightarrow> int" where
  "ece391_strncmp_loop m s1 s2 0 = 0"
| "ece391_strncmp_loop m s1 s2 (Suc n) =
     (if m s1 = m s2 then
        if m s1 = 0 \<or> n = 0 then 0 else ece391_strncmp_loop m (s1 + 1) (s2 + 1) n
      else uint (m s1) - uint (m s2))"

definition ece391_strncmp :: "mem \<Rightarrow> nat \<Rightarrow> nat \<Rightarrow> nat \<Rightarrow> int" where
  "ece391_strncmp m s1 s2 n = (if n = 0 then 0 else ece391_strncmp_loop m s1 s2 n)"

text \<open>\<open>end\<close> is the signed \<open>strlen(s) - 1\<close>; strings of at most one character are returned at once.\<close>

definition ece391_strrev :: "mem \<Rightarrow> nat \<Rightarrow> mem option" where
  "ece391_strrev m s =
     (case ece391_strlen m s of
        None \<Rightarrow> None
      | Some n \<Rightarrow> if int n - 1 \<le> 0 then Some m else Some (strrev_loop m s 0 (int n - 1)))"

definition ece391_itoa :: "nat \<Rightarrow> mem \<Rightarrow> nat \<Rightarrow> nat \<Rightarrow> mem kresult option" where
  "ece391_itoa value m buf radix =
     (if value = 0 then Some (Inr (m(buf := 48, buf + 1 := 0)))
      else case itoa_loop m buf value radix of
             None \<Rightarrow> None
           | Some (Inl e) \<Rightarrow> Some (Inl e)
           | Some (Inr (m1, newbuf)) \<Rightarrow> map_option Inr (ece391_strrev (m1(newbuf := 0)) buf))"

subsection \<open>Strings\<close>

lemma uint_diff_eq_0:
  "uint (a :: u8) = uint b \<longleftrightarrow> a = b"
  "uint (a :: u8) = 0 \<longleftrightarrow> a = 0"
  by (simp_all add: word_uint_eq_iff)

lemma ece391_strlen_loop_cstring:
  "cstring m s xs \<Longrightarrow> ece391_strlen_loop m s k = Some (k + length xs)"
proof (induction xs arbitrary: s k)
  case Nil
  then show ?case by (subst ece391_strlen_loop.simps) (simp add: cstring_def)
next
  case (Cons x xs)
  then show ?case
    using cstring_tl [OF Cons.prems] by (subst ece391_strlen_loop.simps) simp
qed

lemma ece391_strlen_cstring: "cstring m s xs \<Longrightarrow> ece391_strlen m s = Some (length xs)"
  by (simp add: ece391_strlen_def ece391_strlen_loop_cstring)

lemma ece391_strlen_loop_Some:
  assumes "ece391_strlen_loop m s k = Some n"
  shows "\<exists>xs. cstring m s xs \<and> n = k + length xs"
proof (rule ece391_strlen_loop.raw_induct [OF _ assms])
  fix f :: "mem \<Rightarrow> nat \<Rightarrow> nat \<Rightarrow> nat option" and m s k n
  assume IH: "\<And>m s k n. f m s k = Some n \<Longrightarrow> \<exists>xs. cstring m s xs \<and> n = k + length xs"
    and eq: "(if m s \<noteq> 0 then f m (s + 1) (k + 1) else Some k) = Some n"
  show "\<exists>xs. cstring m s xs \<and> n = k + length xs"
  proof (cases "m s = 0")
    case True
    with eq show ?thesis by (intro exI [of _ "[]"]) (simp add: cstring_def)
  next
    case False
    with eq IH [of m "s + 1" "k + 1" n] obtain xs where "cstring m (s + 1) xs" "n = k + 1 + length xs"
      by auto
    with False show ?thesis
      by (intro exI [of _ "m s # xs"]) (auto simp: cstring_def nth_Cons split: nat.splits)
  qed
qed

lemma ece391_strlen_eq_strlen: "ece391_strlen m s = strlen m s"
proof (cases "ece391_strlen m s")
  case None
  show ?thesis
  proof (cases "strlen m s")
    case (Some n)
    from cstring_ex [OF this] ece391_strlen_cstring None show ?thesis by force
  qed (simp add: None)
next
  case (Some n)
  then obtain xs where "cstring m s xs"
    using ece391_strlen_loop_Some unfolding ece391_strlen_def by blast
  then show ?thesis by (simp add: ece391_strlen_cstring strlen_cstring)
qed

lemma ece391_strrev_eq_strrev: "ece391_strrev m s = strrev m s"
  by (auto simp: ece391_strrev_def strrev_def ece391_strlen_eq_strlen strrev_loop.simps
      split: option.splits)

lemma ece391_itoa_eq_itoa: "ece391_itoa value m buf radix = itoa value m buf radix"
  by (auto simp: ece391_itoa_def itoa_def ece391_strrev_eq_strrev split: option.splits sum.splits)

lemma ece391_strncmp_loop_eq_0:
  "ece391_strncmp_loop m s1 s2 n = 0 \<longleftrightarrow> name_at m s1 n = name_at m s2 n"
  by (induction m s1 s2 n rule: ece391_strncmp_loop.induct) (auto simp: name_at_Suc uint_diff_eq_0)

lemma ece391_strncmp_eq_0: "ece391_strncmp m s1 s2 n = 0 \<longleftrightarrow> name_at m s1 n = name_at m s2 n"
  by (simp add: ece391_strncmp_def ece391_strncmp_loop_eq_0)

lemma ece391_strcmp_cstring:
  assumes "cstring m s1 xs" and "cstring m s2 ys"
  shows "\<exists>d. ece391_strcmp m s1 s2 = Some d \<and> (d = 0 \<longleftrightarrow> xs = ys)"
  using assms
proof (induction xs arbitrary: s1 s2 ys)
  case Nil
  then show ?case
    by (subst ece391_strcmp.simps) (cases ys; auto simp: uint_diff_eq_0 dest: cstring_tl cstring_NilD)
next
  case (Cons x xs)
  show ?case
  proof (cases ys)
    case Nil
    with Cons.prems show ?thesis
      by (subst ece391_strcmp.simps) (auto simp: uint_diff_eq_0 dest!: cstring_tl cstring_NilD)
  next
    case (Cons y zs)
    have "\<exists>d. ece391_strcmp m (Suc s1) (Suc s2) = Some d \<and> (d = 0 \<longleftrightarrow> xs = zs)"
      using Cons.IH Cons.prems cstring_tl \<open>ys = y # zs\<close> by blast
    with Cons.prems cstring_tl [of m s1 x xs] cstring_tl [of m s2 y zs] \<open>ys = y # zs\<close> show ?thesis
      by (subst ece391_strcmp.simps) (auto simp: uint_diff_eq_0)
  qed
qed

text \<open>
  The copy also moves a string down over itself, which is how ece391grep.c uses it: the
  destination may overlap the source as long as it does not lie behind it.
\<close>

lemma ece391_strcpy_down:
  assumes "cstring m src xs" and "dst \<le> src \<or> src + length xs < dst"
  shows "ece391_strcpy m dst src = Some (store_bytes m dst (xs @ [0]))"
  using assms
proof (induction xs arbitrary: m dst src)
  case Nil
  then show ?case
    by (subst ece391_strcpy.simps) (simp add: cstring_def store_bytes_Cons)
next
  case (Cons x xs)
  have x: "m src = x" "x \<noteq> 0" "cstring m (Suc src) xs"
    using cstring_tl [OF Cons.prems(1)] by auto
  have "cstring (m(dst := x)) (Suc src) xs"
    using x(3) Cons.prems(2) by (elim cstring_cong) auto
  with Cons.IH [of "m(dst := x)" "Suc src" "Suc dst"] Cons.prems(2) x show ?case
    by (subst ece391_strcpy.simps) (auto simp: store_bytes_Cons fun_upd_def)
qed


text \<open>
  C9: on terminated strings \<open>ece391_strcmp\<close> returns, with 0 exactly when the
  strings are equal.
\<close>

theorem ece391_strcmp_decides:
  assumes "cstring m s1 xs" and "cstring m s2 ys"
  shows "\<exists>d. ece391_strcmp m s1 s2 = Some d \<and> (d = 0 \<longleftrightarrow> xs = ys)"
  using assms by (rule ece391_strcmp_cstring)

theorem ece391_strcmp_decides_witness:
  "\<exists>d. ece391_strcmp (store_bytes (\<lambda>_. 0) 0 [65, 66, 0, 65, 67, 0]) 0 3 = Some d \<and>
     (d = 0 \<longleftrightarrow> [65, 66 :: u8] = [65, 67])"
  by (rule ece391_strcmp_decides) (simp_all add: cstring_def store_bytes_def All_less_Suc2 nth_Cons')

end
