(* ===== verification/KHashTable.thy ===== *)
theory KHashTable
  imports KLib
begin

text \<open>
  The linear probing hash table of inc/klibs/lphashtable.h, for any key comparison and
  hash function, and its use with file names (\<open>Filename\<close> and \<open>HashFunc\<close> of
  inc/fs/filesystem.h). The probe loop of \<open>get\<close> and \<open>put\<close> ends only at a free
  slot or at the key: it is a partial function, and \<open>None\<close> is a probe that circles for
  ever.
\<close>

subsection \<open>Entries and probing\<close>

record ('k, 'v) HashEntry =
  key :: 'k
  "value" :: 'v
  isSet :: bool

definition HashEntry_new :: "'k \<Rightarrow> 'v \<Rightarrow> ('k, 'v) HashEntry" where
  "HashEntry_new k0 v0 = \<lparr>key = k0, value = v0, isSet = False\<rparr>"

definition HashEntry_set :: "'k \<Rightarrow> 'v \<Rightarrow> ('k, 'v) HashEntry \<Rightarrow> ('k, 'v) HashEntry" where
  "HashEntry_set k v e = e\<lparr>key := k, value := v, isSet := True\<rparr>"

definition LinearProbingHashTable_new :: "nat \<Rightarrow> 'k \<Rightarrow> 'v \<Rightarrow> ('k, 'v) HashEntry list" where
  "LinearProbingHashTable_new n k0 v0 = replicate n (HashEntry_new k0 v0)"

text \<open>\<open>eq a b\<close> is the negation of \<open>a != b\<close> on keys, \<open>hash\<close> is \<open>HashFn::hash\<close>.\<close>

partial_function (option) probe ::
  "('k \<Rightarrow> 'k \<Rightarrow> bool) \<Rightarrow> ('k, 'v) HashEntry list \<Rightarrow> 'k \<Rightarrow> nat \<Rightarrow> nat option" where
  [code]: "probe eq table k h =
     (if isSet (table ! h) \<and> \<not> eq (key (table ! h)) k
      then probe eq table k ((h + 1) mod length table)
      else Some h)"

definition LinearProbingHashTable_get ::
  "('k \<Rightarrow> 'k \<Rightarrow> bool) \<Rightarrow> ('k \<Rightarrow> u32) \<Rightarrow> ('k, 'v) HashEntry list \<Rightarrow> 'k \<Rightarrow> 'v option option" where
  "LinearProbingHashTable_get eq hash table k =
     (case probe eq table k (unat (hash k) mod length table) of
        None \<Rightarrow> None
      | Some h \<Rightarrow> Some (if isSet (table ! h) then Some (value (table ! h)) else None))"

definition LinearProbingHashTable_put ::
  "('k \<Rightarrow> 'k \<Rightarrow> bool) \<Rightarrow> ('k \<Rightarrow> u32) \<Rightarrow> 'k \<Rightarrow> 'v \<Rightarrow> ('k, 'v) HashEntry list \<Rightarrow>
   ('k, 'v) HashEntry list option" where
  "LinearProbingHashTable_put eq hash k v table =
     (case probe eq table k (unat (hash k) mod length table) of
        None \<Rightarrow> None
      | Some h \<Rightarrow> Some (table[h := HashEntry_set k v (table ! h)]))"

lemma HashEntry_set_fields [simp]:
  "key (HashEntry_set k v e) = k" "value (HashEntry_set k v e) = v" "isSet (HashEntry_set k v e)"
  by (simp_all add: HashEntry_set_def)

subsection \<open>Where a probe ends\<close>

text \<open>A slot stops the probe for \<open>k\<close> when it is free or holds the key.\<close>

definition stops :: "('k \<Rightarrow> 'k \<Rightarrow> bool) \<Rightarrow> ('k, 'v) HashEntry list \<Rightarrow> 'k \<Rightarrow> nat \<Rightarrow> bool" where
  "stops eq table k h \<longleftrightarrow> \<not> (isSet (table ! h) \<and> \<not> eq (key (table ! h)) k)"

lemma probe_stops [simp]: "stops eq table k h \<Longrightarrow> probe eq table k h = Some h"
  by (subst probe.simps) (auto simp: stops_def)

lemma probe_next: "\<not> stops eq table k h \<Longrightarrow> probe eq table k h = probe eq table k ((h + 1) mod length table)"
  by (subst probe.simps) (simp add: stops_def)

lemma probe_skips:
  "h < length table \<Longrightarrow> (\<And>i. i < d \<Longrightarrow> \<not> stops eq table k ((h + i) mod length table)) \<Longrightarrow>
   probe eq table k h = probe eq table k ((h + d) mod length table)"
proof (induction d)
  case (Suc d)
  then have "probe eq table k h = probe eq table k ((h + d) mod length table)" by simp
  also have "\<dots> = probe eq table k (((h + d) mod length table + 1) mod length table)"
    by (rule probe_next) (use Suc.prems(2) [of d] in simp)
  finally show ?case by (simp add: mod_Suc_eq)
qed simp

lemma probe_offset:
  assumes "h < length table" and "stops eq table k ((h + d) mod length table)"
    and "\<And>i. i < d \<Longrightarrow> \<not> stops eq table k ((h + i) mod length table)"
  shows "probe eq table k h = Some ((h + d) mod length table)"
  using probe_skips [OF assms(1,3)] assms(2) by simp

lemma slot_offset:
  fixes h j n :: nat
  assumes "h < n" and "j < n"
  shows "\<exists>d < n. (h + d) mod n = j"
proof (cases "h \<le> j")
  case True
  then show ?thesis using assms by (intro exI [of _ "j - h"]) auto
next
  case False
  then have "(h + (n + j - h)) mod n = j"
    using assms by simp
  then show ?thesis using assms False by (intro exI [of _ "n + j - h"]) auto
qed

lemma probe_first:
  assumes "h < length table" and "j < length table" and "stops eq table k j"
  obtains d where "d < length table" "stops eq table k ((h + d) mod length table)"
    "\<And>i. i < d \<Longrightarrow> \<not> stops eq table k ((h + i) mod length table)"
    "probe eq table k h = Some ((h + d) mod length table)"
proof -
  obtain d0 where d0: "d0 < length table" "(h + d0) mod length table = j"
    using slot_offset [OF assms(1,2)] by auto
  define d where "d = (LEAST d. stops eq table k ((h + d) mod length table))"
  have "stops eq table k ((h + d) mod length table)"
    unfolding d_def by (rule LeastI [of _ d0]) (use d0 assms in simp)
  moreover have "d \<le> d0"
    unfolding d_def by (rule Least_le) (use d0 assms in simp)
  moreover have "\<not> stops eq table k ((h + i) mod length table)" if "i < d" for i
    using that unfolding d_def by (rule not_less_Least)
  ultimately show ?thesis
    using that [of d] probe_offset [OF assms(1), of eq k d] d0 by simp
qed

lemma probe_diverges:
  assumes "\<And>j. j < length table \<Longrightarrow> \<not> stops eq table k j" and "h < length table"
  shows "probe eq table k h = None"
proof (rule ccontr)
  assume "probe eq table k h \<noteq> None"
  then obtain r where "probe eq table k h = Some r" by auto
  then have "(\<forall>j < length table. \<not> stops eq table k j) \<longrightarrow> h < length table \<longrightarrow> False"
  proof (rule probe.raw_induct [rotated])
    fix f :: "('a \<Rightarrow> 'a \<Rightarrow> bool) \<Rightarrow> ('a, 'b) HashEntry list \<Rightarrow> 'a \<Rightarrow> nat \<Rightarrow> nat option"
      and eq :: "'a \<Rightarrow> 'a \<Rightarrow> bool" and table :: "('a, 'b) HashEntry list" and k :: 'a and h r :: nat
    assume IH: "\<And>eq table k h r. f eq table k h = Some r \<Longrightarrow>
        (\<forall>j < length table. \<not> stops eq table k j) \<longrightarrow> h < length table \<longrightarrow> False"
      and eq: "(if isSet (table ! h) \<and> \<not> eq (key (table ! h)) k
        then f eq table k ((h + 1) mod length table) else Some h) = Some r"
    show "(\<forall>j < length table. \<not> stops eq table k j) \<longrightarrow> h < length table \<longrightarrow> False"
      using eq IH [of eq table k "(h + 1) mod length table" r]
      by (auto simp: stops_def mod_less_divisor [OF le_less_trans] split: if_splits)
  qed
  with assms show False by blast
qed

text \<open>Two tables on which the same slots stop the probes for two keys probe alike.\<close>

lemma probe_eqI:
  assumes "h < length table" and "length table' = length table"
    and "d < length table" and "stops eq table k ((h + d) mod length table)"
    and "\<And>i. i < d \<Longrightarrow> \<not> stops eq table k ((h + i) mod length table)"
    and "stops eq' table' k' ((h + d) mod length table)"
    and "\<And>i. i < d \<Longrightarrow> \<not> stops eq table k ((h + i) mod length table) \<Longrightarrow>
      \<not> stops eq' table' k' ((h + i) mod length table)"
  shows "probe eq' table' k' h = probe eq table k h"
  using probe_offset [of h table eq k d] probe_offset [of h table' eq' k' d] assms by simp

definition free_slots :: "('k, 'v) HashEntry list \<Rightarrow> nat" where
  "free_slots table = length (filter (\<lambda>e. \<not> isSet e) table)"

lemma free_slot_ex:
  "0 < free_slots table \<longleftrightarrow> (\<exists>j < length table. \<not> isSet (table ! j))"
  by (simp add: free_slots_def filter_empty_conv) (metis in_set_conv_nth)

lemma free_slots_update:
  "h < length table \<Longrightarrow> free_slots table \<le> free_slots (table[h := e]) + 1"
proof (induction table arbitrary: h)
  case (Cons x table)
  then show ?case by (cases h) (auto simp: free_slots_def)
qed simp

subsection \<open>The map contract\<close>

text \<open>
  What a key type promises: the comparison is an equivalence and equal keys have equal
  hashes. Under it a table is a finite map for as long as one slot is free.
\<close>

locale hashing =
  fixes eq :: "'k \<Rightarrow> 'k \<Rightarrow> bool" and hash :: "'k \<Rightarrow> u32"
  assumes eq_refl: "eq a a"
    and eq_sym: "eq a b \<Longrightarrow> eq b a"
    and eq_trans: "eq a b \<Longrightarrow> eq b c \<Longrightarrow> eq a c"
    and eq_hash: "eq a b \<Longrightarrow> hash a = hash b"
begin

definition home :: "('k, 'v) HashEntry list \<Rightarrow> 'k \<Rightarrow> nat" where
  "home table k = unat (hash k) mod length table"

text \<open>Every entry is found by probing for its key.\<close>

definition inv :: "('k, 'v) HashEntry list \<Rightarrow> bool" where
  "inv table \<longleftrightarrow> (\<forall>j < length table. isSet (table ! j) \<longrightarrow>
     probe eq table (key (table ! j)) (home table (key (table ! j))) = Some j)"

lemma stops_eq: "eq a b \<Longrightarrow> stops eq table a j = stops eq table b j"
  by (auto simp: stops_def intro: eq_trans eq_sym)

lemma probe_eq_key: "eq a b \<Longrightarrow> h < length table \<Longrightarrow> probe eq table a h = probe eq table b h"
proof (cases "\<exists>j < length table. stops eq table b j")
  case True
  assume *: "eq a b" "h < length table"
  from True *(2) obtain d where "d < length table" "stops eq table b ((h + d) mod length table)"
    "\<And>i. i < d \<Longrightarrow> \<not> stops eq table b ((h + i) mod length table)"
    by (auto elim: probe_first)
  with * show ?thesis
    by (intro probe_eqI [where d = d]) (auto simp: stops_eq)
next
  case False
  assume *: "eq a b" "h < length table"
  with False show ?thesis
    using probe_diverges [of table eq a h] probe_diverges [of table eq b h] by (auto simp: stops_eq)
qed

lemma home_less: "0 < length table \<Longrightarrow> home table k < length table"
  by (simp add: home_def)

lemma home_cong: "length table' = length table \<Longrightarrow> home table' k = home table k"
  by (simp add: home_def)

lemma home_eq: "eq a b \<Longrightarrow> home table a = home table b"
  using eq_hash by (auto simp: home_def)

lemma probe_home_eq: "eq a b \<Longrightarrow> 0 < length table \<Longrightarrow>
  probe eq table a (home table a) = probe eq table b (home table b)"
  using probe_eq_key home_eq home_less by metis

lemma probe_total:
  assumes "0 < free_slots table"
  obtains h where "h < length table" "probe eq table k (home table k) = Some h" "stops eq table k h"
proof -
  obtain j where j: "j < length table" "stops eq table k j"
    using assms by (auto simp: free_slot_ex stops_def)
  moreover have "home table k < length table"
    using j by (intro home_less) auto
  ultimately obtain d where "stops eq table k ((home table k + d) mod length table)"
    "probe eq table k (home table k) = Some ((home table k + d) mod length table)"
    by (auto elim: probe_first)
  then show ?thesis
    using that j by (meson mod_less_divisor order_le_less_trans zero_le)
qed

lemma get_total:
  "0 < free_slots table \<Longrightarrow> \<exists>r. LinearProbingHashTable_get eq hash table k = Some r"
  by (elim probe_total [of table k]) (simp add: LinearProbingHashTable_get_def home_def)

text \<open>A slot that takes another key does not disturb a probe that did not end there.\<close>

lemma probe_put_other:
  assumes "h < length table" and "\<not> eq k k'"
    and "probe eq table k' (home table k') = Some j" and "j \<noteq> h"
    and "j < length table" and "stops eq table k' j"
  shows "probe eq (table[h := HashEntry_set k v e]) k' (home table k') = Some j"
proof -
  let ?t = "table[h := HashEntry_set k v e]"
  have home: "home table k' < length table"
    using assms(1) by (intro home_less) linarith
  obtain d where d: "d < length table" "stops eq table k' ((home table k' + d) mod length table)"
    "\<And>i. i < d \<Longrightarrow> \<not> stops eq table k' ((home table k' + i) mod length table)"
    "probe eq table k' (home table k') = Some ((home table k' + d) mod length table)"
    using probe_first [OF home assms(5,6)] by blast
  have j: "(home table k' + d) mod length table = j"
    using d(4) assms(3) by simp
  have "probe eq ?t k' (home table k') = probe eq table k' (home table k')"
  proof (rule probe_eqI [where d = d])
    show "stops eq ?t k' ((home table k' + d) mod length table)"
      using d(2) j assms(4) by (simp add: stops_def)
    fix i assume "\<not> stops eq table k' ((home table k' + i) mod length table)"
    then show "\<not> stops eq ?t k' ((home table k' + i) mod length table)"
      using assms(1,2) by (cases "(home table k' + i) mod length table = h") (auto simp: stops_def)
  qed (use home d in auto)
  with assms(3) show ?thesis by simp
qed

lemma probe_put_same:
  assumes "h < length table" and "eq k k'" and "probe eq table k (home table k) = Some h"
    and "\<exists>i < length table. stops eq table k i"
  shows "probe eq (table[h := HashEntry_set k v e]) k' (home table k') = Some h"
proof -
  let ?t = "table[h := HashEntry_set k v e]"
  have pos: "0 < length table" using assms(1) by auto
  obtain d where d: "d < length table" "stops eq table k ((home table k + d) mod length table)"
    "\<And>i. i < d \<Longrightarrow> \<not> stops eq table k ((home table k + i) mod length table)"
    "probe eq table k (home table k) = Some ((home table k + d) mod length table)"
    using assms(4) home_less [OF pos] by (metis probe_first)
  have h: "(home table k + d) mod length table = h"
    using d(4) assms(3) by simp
  have other: "(home table k + i) mod length table \<noteq> h" if "i < d" for i
    using d(2) d(3) [OF that] h by metis
  have "probe eq ?t k (home table k) = probe eq table k (home table k)"
  proof (rule probe_eqI [where d = d])
    show "stops eq ?t k ((home table k + d) mod length table)"
      using h assms(1) eq_refl by (simp add: stops_def)
    fix i assume "i < d" "\<not> stops eq table k ((home table k + i) mod length table)"
    then show "\<not> stops eq ?t k ((home table k + i) mod length table)"
      using other [of i] by (simp add: stops_def)
  qed (use d home_less [OF pos] in auto)
  then have "probe eq ?t k (home ?t k) = Some h"
    using assms(3) by (simp add: home_cong [of ?t table])
  then show ?thesis
    using probe_home_eq [OF assms(2), of ?t] pos by (simp add: home_cong [of ?t table])
qed

lemma put_ok:
  assumes "inv table" and "0 < free_slots table"
  obtains h e where "LinearProbingHashTable_put eq hash k v table = Some (table[h := HashEntry_set k v e])"
    "h < length table" "probe eq table k (home table k) = Some h" "stops eq table k h"
    "inv (table[h := HashEntry_set k v e])"
proof -
  obtain h where h: "h < length table" "probe eq table k (home table k) = Some h" "stops eq table k h"
    using probe_total [OF assms(2)] by blast
  let ?t = "table[h := HashEntry_set k v (table ! h)]"
  have "inv ?t"
    unfolding inv_def
  proof (intro allI impI)
    fix j assume j: "j < length ?t" "isSet (?t ! j)"
    show "probe eq ?t (key (?t ! j)) (home ?t (key (?t ! j))) = Some j"
    proof (cases "j = h")
      case True
      then show ?thesis
        using probe_put_same [of h table k k] h eq_refl by (auto simp: home_cong [of ?t table])
    next
      case False
      let ?k = "key (table ! j)"
      have p: "probe eq table ?k (home table ?k) = Some j"
        using assms(1) j False by (simp add: inv_def)
      have "\<not> eq k ?k"
        using p h(2) False probe_home_eq [of k ?k table] h(1) by (cases table) auto
      then show ?thesis
        using probe_put_other [of h table k ?k j] p False h(1) j eq_refl
        by (simp add: home_cong [of ?t table] stops_def)
    qed
  qed
  then show ?thesis
    using that [of h "table ! h"] h by (simp add: LinearProbingHashTable_put_def home_def)
qed

lemma get_put:
  assumes "inv table" and "LinearProbingHashTable_put eq hash k v table = Some table'"
    and "0 < free_slots table" and "0 < free_slots table'"
  shows "LinearProbingHashTable_get eq hash table' k' =
    (if eq k k' then Some (Some v) else LinearProbingHashTable_get eq hash table k')"
proof -
  obtain h e where h: "table' = table[h := HashEntry_set k v e]" "h < length table"
    "probe eq table k (home table k) = Some h" "stops eq table k h"
    using put_ok [OF assms(1,3), of k v] assms(2) by (metis option.inject)
  have get: "LinearProbingHashTable_get eq hash t k' =
      Some (if isSet (t ! i) then Some (value (t ! i)) else None)"
    if "probe eq t k' (home table k') = Some i" "length t = length table" for t :: "('k, 'a) HashEntry list" and i
    using that by (simp add: LinearProbingHashTable_get_def home_def)
  obtain j where j: "j < length table" "probe eq table k' (home table k') = Some j" "stops eq table k' j"
    using probe_total [OF assms(3)] by blast
  consider "eq k k'" | "\<not> eq k k'" "j \<noteq> h" | "\<not> eq k k'" "j = h" by blast
  then show ?thesis
  proof cases
    case 1
    then show ?thesis
      using probe_put_same [OF h(2) 1 h(3)] h get [of table' h] by auto
  next
    case 2
    then have "probe eq table' k' (home table k') = Some j"
      using probe_put_other [OF h(2) 2(1) j(2)] j h by simp
    then show ?thesis
      using 2 get [of table' j] get [of table j] j h by simp
  next
    case 3
    then have unset: "\<not> isSet (table ! h)"
      using h(4) j(3) eq_sym [of "key (table ! h)" k] eq_trans [of k "key (table ! h)" k']
      by (auto simp: stops_def)
    obtain i where i: "i < length table'" "probe eq table' k' (home table' k') = Some i" "stops eq table' k' i"
      using probe_total [OF assms(4)] by blast
    have "\<not> isSet (table' ! i)"
    proof
      assume set: "isSet (table' ! i)"
      then have "eq (key (table' ! i)) k'" using i(3) by (simp add: stops_def)
      then have "i \<noteq> h" using h 3 by auto
      then have "probe eq table (key (table ! i)) (home table (key (table ! i))) = Some i"
        using assms(1) set i(1) h by (simp add: inv_def)
      moreover have "eq (key (table ! i)) k'" "0 < length table"
        using \<open>eq (key (table' ! i)) k'\<close> \<open>i \<noteq> h\<close> h by auto
      ultimately have "probe eq table k' (home table k') = Some i"
        using probe_home_eq [of "key (table ! i)" k' table] by simp
      with j 3 \<open>i \<noteq> h\<close> show False by simp
    qed
    moreover have "home table' k' = home table k'"
      using h by (simp add: home_def)
    ultimately show ?thesis
      using 3 unset get [of table' i] get [of table h] i(2) j(2) h(1) by simp
  qed
qed

text \<open>
  Filling a table from a list of entries, the way a file system enters its directory. As
  long as the table is longer than the list, every put succeeds and a lookup finds the last
  entry with an equal key.
\<close>

lemma fill_step:
  assumes "inv table" and "1 < free_slots table"
  obtains table' where "LinearProbingHashTable_put eq hash k v table = Some table'"
    "inv table'" "free_slots table \<le> free_slots table' + 1" "length table' = length table"
    "\<And>k'. LinearProbingHashTable_get eq hash table' k' =
      (if eq k k' then Some (Some v) else LinearProbingHashTable_get eq hash table k')"
proof -
  obtain h e where h: "LinearProbingHashTable_put eq hash k v table = Some (table[h := HashEntry_set k v e])"
    "h < length table" "inv (table[h := HashEntry_set k v e])"
    by (rule put_ok [OF assms(1), of k v]) (use assms(2) in auto)
  moreover have "free_slots table \<le> free_slots (table[h := HashEntry_set k v e]) + 1"
    using h(2) by (rule free_slots_update)
  ultimately show ?thesis
    using that get_put [OF assms(1) h(1)] assms(2) by simp
qed

end

subsection \<open>Tables filled from a list\<close>

fun fill :: "('k \<Rightarrow> 'k \<Rightarrow> bool) \<Rightarrow> ('k \<Rightarrow> u32) \<Rightarrow> ('k \<times> 'v) list \<Rightarrow> ('k, 'v) HashEntry list \<Rightarrow>
    ('k, 'v) HashEntry list option" where
  "fill eq hash [] table = Some table"
| "fill eq hash ((k, v) # kvs) table =
     Option.bind (LinearProbingHashTable_put eq hash k v table) (fill eq hash kvs)"

text \<open>The last entry of a list whose key is equal to \<open>k\<close>.\<close>

fun last_match :: "('k \<Rightarrow> 'k \<Rightarrow> bool) \<Rightarrow> ('k \<times> 'v) list \<Rightarrow> 'k \<Rightarrow> 'v option" where
  "last_match eq [] k = None"
| "last_match eq ((a, v) # kvs) k =
     (case last_match eq kvs k of Some w \<Rightarrow> Some w | None \<Rightarrow> if eq a k then Some v else None)"

context hashing
begin

lemma fill_get:
  assumes "inv table" and "length kvs < free_slots table"
  shows "\<exists>table'. fill eq hash kvs table = Some table' \<and> inv table' \<and>
    free_slots table \<le> free_slots table' + length kvs \<and> length table' = length table \<and>
    (\<forall>k. LinearProbingHashTable_get eq hash table' k =
      (case last_match eq kvs k of Some w \<Rightarrow> Some (Some w) | None \<Rightarrow> LinearProbingHashTable_get eq hash table k))"
  using assms
proof (induction kvs arbitrary: table)
  case (Cons kv kvs)
  obtain a v where kv: "kv = (a, v)" by (cases kv)
  obtain t1 where t1: "LinearProbingHashTable_put eq hash a v table = Some t1"
    "inv t1" "free_slots table \<le> free_slots t1 + 1" "length t1 = length table"
    "\<And>k'. LinearProbingHashTable_get eq hash t1 k' =
      (if eq a k' then Some (Some v) else LinearProbingHashTable_get eq hash table k')"
    using fill_step [OF Cons.prems(1), of a v] Cons.prems(2) by auto
  have "length kvs < free_slots t1"
    using t1(3) Cons.prems(2) by simp
  from Cons.IH [OF t1(2) this] obtain t2 where t2: "fill eq hash kvs t1 = Some t2" "inv t2"
    "free_slots t1 \<le> free_slots t2 + length kvs" "length t2 = length t1"
    "\<And>k. LinearProbingHashTable_get eq hash t2 k =
      (case last_match eq kvs k of Some w \<Rightarrow> Some (Some w) | None \<Rightarrow> LinearProbingHashTable_get eq hash t1 k)"
    by blast
  show ?case
    using t1 t2 kv by (intro exI [of _ t2]) (auto split: option.splits)
qed simp

lemma new_inv: "inv (LinearProbingHashTable_new n k0 v0)"
  and new_free: "free_slots (LinearProbingHashTable_new n k0 v0) = n"
  by (simp_all add: inv_def LinearProbingHashTable_new_def HashEntry_new_def free_slots_def)

lemma new_get:
  assumes "0 < n"
  shows "LinearProbingHashTable_get eq hash (LinearProbingHashTable_new n k0 v0) k = Some None"
proof -
  have "unat (hash k) mod n < n" using assms by simp
  then show ?thesis
    by (simp add: LinearProbingHashTable_get_def LinearProbingHashTable_new_def HashEntry_new_def stops_def)
qed

lemma fill_new:
  assumes "length kvs < n"
  obtains table where "fill eq hash kvs (LinearProbingHashTable_new n k0 v0) = Some table"
    "inv table" "0 < free_slots table" "length table = n"
    "\<And>k. LinearProbingHashTable_get eq hash table k = Some (last_match eq kvs k)"
proof -
  have "0 < n" using assms by simp
  from fill_get [OF new_inv [of n k0 v0], of kvs] assms
  obtain t where t: "fill eq hash kvs (LinearProbingHashTable_new n k0 v0) = Some t" "inv t"
      "n \<le> free_slots t + length kvs" "length t = length (LinearProbingHashTable_new n k0 v0)"
      "\<And>k. LinearProbingHashTable_get eq hash t k = (case last_match eq kvs k of Some w \<Rightarrow> Some (Some w) | None \<Rightarrow> Some None)"
    unfolding new_free new_get [OF \<open>0 < n\<close>] by blast
  show ?thesis
    using that [OF t(1,2)] t(3-5) assms by (auto simp: LinearProbingHashTable_new_def split: option.splits)
qed

text \<open>A full table without the key is searched for ever.\<close>

lemma get_full_diverges:
  assumes "free_slots table = 0" and "0 < length table" and "\<And>j. j < length table \<Longrightarrow> \<not> eq (key (table ! j)) k"
  shows "LinearProbingHashTable_get eq hash table k = None"
proof -
  have "isSet (table ! j)" if "j < length table" for j
    using assms(1) that free_slot_ex [of table] by auto
  then have "probe eq table k (home table k) = None"
    using assms home_less by (intro probe_diverges) (auto simp: stops_def)
  then show ?thesis
    by (simp add: LinearProbingHashTable_get_def home_def)
qed

end

subsection \<open>File names as keys\<close>

definition MaxFilenameLength :: nat where
  "MaxFilenameLength = 32"

text \<open>A \<open>Filename\<close> is a pointer; its comparison and its hash read the memory.\<close>

type_synonym Filename = nat

definition Filename_eq :: "mem \<Rightarrow> Filename \<Rightarrow> Filename \<Rightarrow> bool" where
  "Filename_eq m a b \<longleftrightarrow> strncmp m a b MaxFilenameLength = 0"

definition Filename_index :: "mem \<Rightarrow> Filename \<Rightarrow> nat \<Rightarrow> u8" where
  "Filename_index m s idx = m (s + idx)"

primrec HashFunc_loop :: "mem \<Rightarrow> Filename \<Rightarrow> u32 \<Rightarrow> nat \<Rightarrow> nat \<Rightarrow> u32" where
  "HashFunc_loop m s hash used 0 = hash"
| "HashFunc_loop m s hash used (Suc left) =
     (if Filename_index m s used \<noteq> 0
      then HashFunc_loop m s (hash * 101 + scast (Filename_index m s used)) (used + 1) left
      else hash)"

definition HashFunc_hash :: "mem \<Rightarrow> Filename \<Rightarrow> u32" where
  "HashFunc_hash m s = HashFunc_loop m s 0 0 MaxFilenameLength"

lemma HashFunc_loop_name:
  "HashFunc_loop m s h used left =
   foldl (\<lambda>h b. h * 101 + scast b) h (name_at m (s + used) left)"
  by (induction left arbitrary: h used) (simp_all add: name_at_Suc Filename_index_def)

lemma HashFunc_hash_name:
  "HashFunc_hash m s = foldl (\<lambda>h b. h * 101 + scast b) 0 (name_at m s MaxFilenameLength)"
  by (simp add: HashFunc_hash_def HashFunc_loop_name)

lemma Filename_eq_name:
  "Filename_eq m a b \<longleftrightarrow> name_at m a MaxFilenameLength = name_at m b MaxFilenameLength"
  by (simp add: Filename_eq_def strncmp_eq_0)

interpretation fname: hashing "Filename_eq m" "HashFunc_hash m" for m
  by unfold_locales (auto simp: Filename_eq_name HashFunc_hash_name)

text \<open>
  C10: a hash table with file names as keys is a finite map. Entering fewer names than the
  table has slots always ends; a lookup then always ends as well, and finds the value of the
  last entry whose first 32 characters agree with the name, or reports that there is none.
\<close>

theorem filename_table_is_map:
  assumes "length kvs < n"
  shows "\<exists>table. fill (Filename_eq m) (HashFunc_hash m) kvs (LinearProbingHashTable_new n k0 v0) = Some table \<and>
    (\<forall>k. LinearProbingHashTable_get (Filename_eq m) (HashFunc_hash m) table k =
      Some (last_match (\<lambda>a b. name_at m a 32 = name_at m b 32) kvs k))"
proof -
  have eq: "Filename_eq m = (\<lambda>a b. name_at m a 32 = name_at m b 32)"
    by (auto simp: fun_eq_iff Filename_eq_name MaxFilenameLength_def)
  from fname.fill_new [OF assms, of m k0 v0] show ?thesis
    unfolding eq by metis
qed

theorem filename_table_is_map_witness:
  "\<exists>table. fill (Filename_eq (\<lambda>_. 0)) (HashFunc_hash (\<lambda>_. 0)) [(0, 7 :: nat)]
      (LinearProbingHashTable_new 2 0 0) = Some table \<and>
    (\<forall>k. LinearProbingHashTable_get (Filename_eq (\<lambda>_. 0)) (HashFunc_hash (\<lambda>_. 0)) table k =
      Some (last_match (\<lambda>a b. name_at (\<lambda>_. 0) a 32 = name_at (\<lambda>_. 0) b 32) [(0, 7)] k))"
  by (rule filename_table_is_map) simp

text \<open>
  C11: a table without a free slot never answers a lookup of an absent name: the probe
  circles for ever. A table as long as the number of its entries is therefore too short.
\<close>

theorem full_table_lookup_diverges:
  assumes "free_slots table = 0" and "0 < length table"
    and "\<forall>j < length table. name_at m (key (table ! j)) 32 \<noteq> name_at m k 32"
  shows "LinearProbingHashTable_get (Filename_eq m) (HashFunc_hash m) table k = None"
  using assms by (intro fname.get_full_diverges) (simp_all add: Filename_eq_name MaxFilenameLength_def)

theorem full_table_lookup_diverges_witness:
  "LinearProbingHashTable_get (Filename_eq ((\<lambda>_. 0)(5 := 65))) (HashFunc_hash ((\<lambda>_. 0)(5 := 65)))
     [\<lparr>key = 0, value = (1 :: nat), isSet = True\<rparr>] 5 = None"
  by (rule full_table_lookup_diverges)
    (simp_all add: free_slots_def name_at_def load_bytes_def upt_conv_Cons)

end
