(* ===== verification/KPrefixTree.thy ===== *)
theory KPrefixTree
  imports KStack
begin

text \<open>
  The prefix tree of inc/klibs/prefix_tree.h, with which the file system dispatcher finds
  the mount point of a path. The nodes live in a \<open>MemoryPool\<close> of 100 nodes and point
  to each other by their index in it. A character is a signed \<open>char\<close> used as an array
  index, so a character from 128 on indexes the children out of range; so does the
  construction of a node on the null pointer of an exhausted pool.

  A key is the sequence of its characters up to the terminator, which is what
  \<open>strlen\<close> makes of the pointer in the code.
\<close>

record 'v PrefixTreeNode =
  node_value :: 'v
  children :: "nat option list"
  hasValue :: bool

record 'v PrefixTree =
  count :: nat
  root :: nat
  nodes :: "'v PrefixTreeNode list"
  pool :: pool

definition PrefixTreeNode_new :: "'v \<Rightarrow> 'v PrefixTreeNode" where
  "PrefixTreeNode_new d = \<lparr>node_value = d, children = replicate 256 None, hasValue = False\<rparr>"

text \<open>\<open>new (pool) PrefixTreeNode<T>()\<close>, with the default value \<open>d = T()\<close>.\<close>

definition new_node :: "'v \<Rightarrow> 'v PrefixTree \<Rightarrow> (nat \<times> 'v PrefixTree) kresult" where
  "new_node d t =
     (case MemoryPool_get (pool t) of
        (None, pl) \<Rightarrow> Inl Fault
      | (Some q, pl) \<Rightarrow> Inr (q, t\<lparr>nodes := (nodes t)[q := PrefixTreeNode_new d], pool := pl\<rparr>))"

definition PrefixTree_capacity :: nat where
  "PrefixTree_capacity = 100"

text \<open>The array of the pool holds default nodes before any is handed out.\<close>

definition PrefixTree_new :: "'v \<Rightarrow> 'v PrefixTree kresult" where
  "PrefixTree_new d =
     kbind (new_node d \<lparr>count = 0, root = 0,
         nodes = replicate PrefixTree_capacity (PrefixTreeNode_new d),
         pool = MemoryPool_new PrefixTree_capacity\<rparr>)
       (\<lambda>(q, t). Inr (t\<lparr>root := q\<rparr>))"

definition child_index :: "u8 \<Rightarrow> nat kresult" where
  "child_index c = (if sint c < 0 then Inl Fault else Inr (nat (sint c)))"

definition set_child :: "nat \<Rightarrow> nat \<Rightarrow> nat \<Rightarrow> 'v PrefixTree \<Rightarrow> 'v PrefixTree" where
  "set_child p i q t =
     t\<lparr>nodes := (nodes t)[p := (nodes t ! p)\<lparr>children := (children (nodes t ! p))[i := Some q]\<rparr>]\<rparr>"

fun tree_insert_loop :: "'v \<Rightarrow> u8 list \<Rightarrow> nat \<Rightarrow> 'v PrefixTree \<Rightarrow> (nat \<times> 'v PrefixTree) kresult" where
  "tree_insert_loop d [] p t = Inr (p, t)"
| "tree_insert_loop d (c # cs) p t =
     kbind (child_index c) (\<lambda>i.
       case children (nodes t ! p) ! i of
         Some q \<Rightarrow> tree_insert_loop d cs q t
       | None \<Rightarrow> kbind (new_node d t) (\<lambda>(q, t1). tree_insert_loop d cs q (set_child p i q t1)))"

definition PrefixTree_insert :: "'v \<Rightarrow> u8 list \<Rightarrow> 'v \<Rightarrow> 'v PrefixTree \<Rightarrow> 'v PrefixTree kresult" where
  "PrefixTree_insert d k v t =
     kbind (tree_insert_loop d k (root t) (t\<lparr>count := count t + 1\<rparr>)) (\<lambda>(p, t1).
       Inr (t1\<lparr>nodes := (nodes t1)[p := (nodes t1 ! p)\<lparr>hasValue := True, node_value := v\<rparr>]\<rparr>))"

record 'v ValAndLength =
  val :: 'v
  vlen :: nat

fun search_loop :: "'v PrefixTree \<Rightarrow> u8 list \<Rightarrow> nat \<Rightarrow> nat \<Rightarrow> 'v \<Rightarrow> nat \<Rightarrow> 'v ValAndLength kresult" where
  "search_loop t [] level p lastVal lastLevel = Inr \<lparr>val = lastVal, vlen = lastLevel + 1\<rparr>"
| "search_loop t (c # cs) level p lastVal lastLevel =
     kbind (child_index c) (\<lambda>i.
       case children (nodes t ! p) ! i of
         None \<Rightarrow> Inr \<lparr>val = lastVal, vlen = lastLevel + 1\<rparr>
       | Some q \<Rightarrow>
           if hasValue (nodes t ! q)
           then search_loop t cs (level + 1) q (node_value (nodes t ! q)) level
           else search_loop t cs (level + 1) q lastVal lastLevel)"

definition PrefixTree_search :: "'v \<Rightarrow> u8 list \<Rightarrow> 'v PrefixTree \<Rightarrow> 'v ValAndLength kresult" where
  "PrefixTree_search d k t = search_loop t k 0 (root t) d 0"

subsection \<open>The tree as a map\<close>

definition child :: "'v PrefixTree \<Rightarrow> nat \<Rightarrow> u8 \<Rightarrow> nat option" where
  "child t p c = (if sint c < 0 then None else children (nodes t ! p) ! nat (sint c))"

fun walk :: "'v PrefixTree \<Rightarrow> nat \<Rightarrow> u8 list \<Rightarrow> nat option" where
  "walk t p [] = Some p"
| "walk t p (c # cs) = Option.bind (child t p c) (\<lambda>q. walk t q cs)"

definition entry :: "'v PrefixTree \<Rightarrow> u8 list \<Rightarrow> 'v option" where
  "entry t k = Option.bind (walk t (root t) k)
     (\<lambda>p. if hasValue (nodes t ! p) then Some (node_value (nodes t ! p)) else None)"

text \<open>A tree: the nodes in use are those that are not free, and each has one path from the root.\<close>

definition tree_inv :: "'v PrefixTree \<Rightarrow> bool" where
  "tree_inv t \<longleftrightarrow> pool_inv PrefixTree_capacity (pool t) \<and> length (nodes t) = PrefixTree_capacity \<and>
     (\<forall>nd \<in> set (nodes t). length (children nd) = 256) \<and>
     (\<forall>ks p. walk t (root t) ks = Some p \<longrightarrow> p < PrefixTree_capacity \<and> p \<notin> set (pool_free (pool t))) \<and>
     (\<forall>ks ks' p. walk t (root t) ks = Some p \<longrightarrow> walk t (root t) ks' = Some p \<longrightarrow> ks = ks')"

lemma walk_append: "walk t p (ks @ ks') = Option.bind (walk t p ks) (\<lambda>q. walk t q ks')"
  by (induction ks arbitrary: p) (simp_all add: Option.bind_assoc)

lemma walk_snoc: "walk t p (ks @ [c]) = Option.bind (walk t p ks) (\<lambda>q. child t q c)"
  by (simp add: walk_append)

lemma ascii_index: "c < 128 \<Longrightarrow> child_index c = Inr (unat c) \<and> child t p c = children (nodes t ! p) ! unat c"
proof -
  assume c: "c < 128"
  have "uint c < 128"
    using c by (simp add: word_less_def)
  then have "sint c = uint c"
    by (simp add: sint_uint signed_take_bit_eq_if_positive bit_iff_odd take_bit_eq_mod)
  then show ?thesis
    by (simp add: child_index_def child_def)
qed

lemma high_char_negative: "\<not> (c :: u8) < 128 \<Longrightarrow> sint c < 0"
proof -
  assume "\<not> c < 128"
  then have "128 \<le> uint c" "uint c < 256"
    using uint_bounded [of c] by (simp_all add: word_less_def)
  then have "uint c div 128 = 1"
    by linarith
  then have "bit (uint c) 7"
    by (simp add: bit_iff_odd)
  then show ?thesis
    by (simp add: sint_uint signed_take_bit_negative_iff)
qed

lemma char_index_bound: "nat (sint (c :: u8)) < 256"
  using sint_lt [of c] by simp

lemma tree_invD:
  assumes "tree_inv t"
  shows "length (nodes t) = PrefixTree_capacity" "pool_inv PrefixTree_capacity (pool t)"
    "p < PrefixTree_capacity \<Longrightarrow> length (children (nodes t ! p)) = 256"
    "walk t (root t) ks = Some p \<Longrightarrow> p < PrefixTree_capacity"
    "walk t (root t) ks = Some p \<Longrightarrow> p \<notin> set (pool_free (pool t))"
    "walk t (root t) ks = Some p \<Longrightarrow> walk t (root t) ks' = Some p \<Longrightarrow> ks = ks'"
  using assms by (auto simp: tree_inv_def)

subsection \<open>A new leaf\<close>

text \<open>The tree after a fresh node \<open>q\<close> has become a child of \<open>p\<close>.\<close>

lemma walk_new_leaf:
  fixes t :: "'v PrefixTree" and d :: 'v and pl :: pool
  assumes inv: "tree_inv t" and p: "walk t (root t) ks = Some p" and c: "c < 128"
    and none: "child t p c = None" and q: "q < PrefixTree_capacity" "q \<in> set (pool_free (pool t))"
  defines "t' \<equiv> set_child p (unat c) q (t\<lparr>nodes := (nodes t)[q := PrefixTreeNode_new d], pool := pl\<rparr>)"
  shows "walk t' (root t') ks' = (if ks' = ks @ [c] then Some q else walk t (root t) ks')"
proof -
  have pq: "p \<noteq> q" "p < PrefixTree_capacity"
    using tree_invD [OF inv] p q by auto
  have root: "root t' = root t" by (simp add: t'_def set_child_def)
  have child_p: "child t' p e = (if e = c then Some q else child t p e)" for e
  proof (cases "e < 128")
    case True
    have "(children (nodes t ! p))[unat c := Some q] ! unat e =
        (if e = c then Some q else children (nodes t ! p) ! unat e)"
      using tree_invD(3) [OF inv pq(2)] True c
      by (auto simp: nth_list_update word_unat_eq_iff word_less_nat_alt)
    with True c pq tree_invD(1) [OF inv] show ?thesis
      by (simp add: ascii_index t'_def set_child_def)
  next
    case False
    then have "e \<noteq> c" "\<not> unat e < 128"
      using c by (auto simp: word_less_nat_alt)
    have "sint e < 0"
      using False by (simp add: high_char_negative)
    with \<open>e \<noteq> c\<close> show ?thesis by (simp add: child_def)
  qed
  have child_q: "child t' q e = None" for e
    using pq q(1) tree_invD(1) [OF inv] char_index_bound [of e]
    by (simp add: child_def t'_def set_child_def PrefixTreeNode_new_def)
  have child_x: "child t' x e = child t x e" if "x \<noteq> p" "x \<noteq> q" for x e
    using that by (simp add: child_def t'_def set_child_def)
  have no: "walk t (root t) (ks @ [c]) = None"
    using p none by (simp add: walk_snoc)
  show ?thesis
    unfolding root
  proof (induction ks' rule: rev_induct)
    case Nil
    then show ?case by simp
  next
    case (snoc e ls)
    show ?case
    proof (cases "ls = ks @ [c]")
      case True
      then have "walk t' (root t) ls = Some q" "walk t (root t) ls = None" "ls @ [e] \<noteq> ks @ [c]"
        using snoc no by simp_all
      then show ?thesis using child_q by (simp add: walk_snoc)
    next
      case False
      show ?thesis
      proof (cases "walk t (root t) ls")
        case None
        then have "ls \<noteq> ks" using p by auto
        with None False snoc show ?thesis by (simp add: walk_snoc)
      next
        case (Some x)
        then have "x \<noteq> q" using tree_invD(5) [OF inv] q by auto
        moreover have "x = p \<longleftrightarrow> ls = ks"
          using Some p tree_invD(6) [OF inv] by auto
        ultimately show ?thesis
          using Some False snoc child_p child_x [of x e] none by (auto simp: walk_snoc)
      qed
    qed
  qed
qed

lemma last_notin_butlast: "distinct xs \<Longrightarrow> xs \<noteq> [] \<Longrightarrow> last xs \<notin> set (butlast xs)"
  by (cases xs rule: rev_cases) auto

lemma insert_step:
  assumes inv: "tree_inv t" and p: "walk t (root t) ks = Some p" and c: "c < 128"
    and none: "children (nodes t ! p) ! unat c = None" and fr: "pool_free (pool t) \<noteq> []"
  obtains q t1 t' where "new_node d t = Inr (q, t1)" "t' = set_child p (unat c) q t1" "tree_inv t'"
    "walk t' (root t') (ks @ [c]) = Some q" "entry t' = entry t"
    "pool_free (pool t') = butlast (pool_free (pool t))"
proof -
  let ?q = "last (pool_free (pool t))"
  obtain pl where pl: "MemoryPool_get (pool t) = (Some ?q, pl)"
    "pool_free pl = butlast (pool_free (pool t))" "pool_inv PrefixTree_capacity pl"
    using MemoryPool_get_some [OF tree_invD(2) [OF inv] fr] by auto
  have q: "?q < PrefixTree_capacity" "?q \<in> set (pool_free (pool t))" "?q \<notin> set (pool_free pl)"
  proof -
    have "distinct (pool_free (pool t))" "set (pool_free (pool t)) \<subseteq> {..<PrefixTree_capacity}"
      using tree_invD(2) [OF inv] by (auto simp: pool_inv_def)
    with fr show "?q < PrefixTree_capacity" "?q \<in> set (pool_free (pool t))" "?q \<notin> set (pool_free pl)"
      using last_in_set [OF fr] by (auto simp: subset_iff pl(2) last_notin_butlast)
  qed
  define t1 where "t1 = t\<lparr>nodes := (nodes t)[?q := PrefixTreeNode_new d], pool := pl\<rparr>"
  define t' where "t' = set_child p (unat c) ?q t1"
  have new: "new_node d t = Inr (?q, t1)"
    by (simp add: new_node_def pl t1_def)
  have walk: "walk t' (root t') ks' = (if ks' = ks @ [c] then Some ?q else walk t (root t) ks')" for ks'
    unfolding t'_def t1_def using inv p c none q by (intro walk_new_leaf) (simp_all add: ascii_index)
  have pq: "p \<noteq> ?q" "p < PrefixTree_capacity"
    using tree_invD [OF inv] p q by auto
  have noc: "walk t (root t) (ks @ [c]) = None"
    using p none c by (simp add: walk_snoc ascii_index)
  have same: "hasValue (nodes t' ! x) = hasValue (nodes t ! x) \<and> node_value (nodes t' ! x) = node_value (nodes t ! x)"
    if "x \<noteq> ?q" for x
    using that pq tree_invD(1) [OF inv] by (simp add: t'_def t1_def set_child_def nth_list_update)
  have "\<not> hasValue (nodes t' ! ?q)"
    using q(1) pq tree_invD(1) [OF inv] by (simp add: t'_def t1_def set_child_def PrefixTreeNode_new_def)
  moreover have notq: "x \<noteq> ?q" if "walk t (root t) k = Some x" for x k
    using that tree_invD(5) [OF inv] q(2) by metis
  moreover have new_or_old: "ks' = ks @ [c] \<and> x = ?q \<or> walk t (root t) ks' = Some x \<and> x \<noteq> ?q"
    if "walk t' (root t') ks' = Some x" for ks' x
    using that walk [of ks'] notq [of ks' x] by (cases "ks' = ks @ [c]") simp_all
  ultimately have "entry t' k = entry t k" for k
    using walk [of k] noc same by (cases "walk t (root t) k") (auto simp: entry_def)
  moreover have "tree_inv t'"
  proof -
    have "x < PrefixTree_capacity \<and> x \<notin> set (pool_free pl)" if "walk t' (root t') ks' = Some x" for ks' x
      using new_or_old [OF that] tree_invD(4,5) [OF inv, of ks' x] q
      by (auto simp: pl(2) dest: in_set_butlastD)
    moreover have "length (children nd) = 256" if "nd \<in> set (nodes t')" for nd
      using that tree_invD(1,3) [OF inv] pq q(1)
      by (auto simp: t'_def t1_def set_child_def PrefixTreeNode_new_def in_set_conv_nth nth_list_update
          split: if_splits)
    moreover have "walk t' (root t') ks1 = Some x \<Longrightarrow> walk t' (root t') ks2 = Some x \<Longrightarrow> ks1 = ks2" for ks1 ks2 x
      using new_or_old [of ks1 x] new_or_old [of ks2 x] tree_invD(6) [OF inv, of ks1 x ks2] by blast
    moreover have "pool t' = pl" "length (nodes t') = PrefixTree_capacity"
      using tree_invD(1) [OF inv] by (simp_all add: t'_def t1_def set_child_def)
    ultimately show ?thesis
      unfolding tree_inv_def using pl(3) by metis
  qed
  ultimately show ?thesis
    using that [OF new t'_def] walk [of "ks @ [c]"] pl(2) by (simp add: t'_def t1_def set_child_def fun_eq_iff)
qed

text \<open>Inserting never changes an entry before its last step, and takes at most one node per character.\<close>

lemma insert_loop_ok:
  assumes "tree_inv t" and "walk t (root t) ks = Some p" and "\<forall>c \<in> set cs. c < 128"
    and "length cs \<le> length (pool_free (pool t))"
  shows "\<exists>q t'. tree_insert_loop d cs p t = Inr (q, t') \<and> tree_inv t' \<and> walk t' (root t') (ks @ cs) = Some q \<and>
    entry t' = entry t \<and> length (pool_free (pool t)) \<le> length (pool_free (pool t')) + length cs"
  using assms
proof (induction cs arbitrary: ks p t)
  case (Cons c cs)
  then have c: "c < 128" and cs: "\<forall>c \<in> set cs. c < 128" by auto
  have idx: "child_index c = Inr (unat c)" "child t p c = children (nodes t ! p) ! unat c"
    using ascii_index [OF c] by auto
  show ?case
  proof (cases "children (nodes t ! p) ! unat c")
    case (Some q)
    then have "walk t (root t) (ks @ [c]) = Some q"
      using Cons.prems(2) idx by (simp add: walk_snoc)
    from Cons.IH [OF Cons.prems(1) this cs] Cons.prems(4) Some idx show ?thesis
      by fastforce
  next
    case None
    have "pool_free (pool t) \<noteq> []"
      using Cons.prems(4) by auto
    from insert_step [OF Cons.prems(1,2) c None this, of d]
    obtain q t1 t' where t': "new_node d t = Inr (q, t1)" "t' = set_child p (unat c) q t1" "tree_inv t'"
      "walk t' (root t') (ks @ [c]) = Some q" "entry t' = entry t"
      "pool_free (pool t') = butlast (pool_free (pool t))" by blast
    from Cons.IH [OF t'(3,4) cs] t' Cons.prems(4) None idx show ?thesis
      by fastforce
  qed
qed simp

lemma root_count [simp]: "tree_inv (t\<lparr>count := n\<rparr>) = tree_inv t" "entry (t\<lparr>count := n\<rparr>) = entry t"
proof -
  have "walk (t\<lparr>count := n\<rparr>) p ks = walk t p ks" for p ks
    by (induction ks arbitrary: p) (simp_all add: child_def)
  then show "tree_inv (t\<lparr>count := n\<rparr>) = tree_inv t" "entry (t\<lparr>count := n\<rparr>) = entry t"
    by (simp_all add: tree_inv_def entry_def fun_eq_iff cong: if_cong)
qed

lemma insert_ok:
  assumes "tree_inv t" and "\<forall>c \<in> set k. c < 128" and "length k \<le> length (pool_free (pool t))"
  shows "\<exists>t'. PrefixTree_insert d k v t = Inr t' \<and> tree_inv t' \<and> entry t' = (entry t)(k \<mapsto> v) \<and>
    length (pool_free (pool t)) \<le> length (pool_free (pool t')) + length k"
proof -
  obtain q t1 where t1: "tree_insert_loop d k (root t) (t\<lparr>count := count t + 1\<rparr>) = Inr (q, t1)" "tree_inv t1"
    "walk t1 (root t1) k = Some q" "entry t1 = entry t"
    "length (pool_free (pool t)) \<le> length (pool_free (pool t1)) + length k"
    using insert_loop_ok [of "t\<lparr>count := count t + 1\<rparr>" "[]" "root t" k d] assms by auto
  define t' where "t' = t1\<lparr>nodes := (nodes t1)[q := (nodes t1 ! q)\<lparr>hasValue := True, node_value := v\<rparr>]\<rparr>"
  have "children (nodes t' ! x) = children (nodes t1 ! x)" for x
    by (cases "x = q"; cases "q < length (nodes t1)") (simp_all add: t'_def list_update_beyond)
  then have walk: "walk t' p ks = walk t1 p ks" for p ks
    by (induction ks arbitrary: p) (simp_all add: child_def)
  have q: "q < length (nodes t1)"
    using tree_invD(1,4) [OF t1(2)] t1(3) by simp
  have "entry t' ks = ((entry t)(k \<mapsto> v)) ks" for ks
  proof (cases "walk t1 (root t1) ks = Some q")
    case True
    then have "ks = k" using tree_invD(6) [OF t1(2)] t1(3) by blast
    then show ?thesis using q t1(3) by (simp add: entry_def walk) (simp add: t'_def walk [unfolded t'_def])
  next
    case False
    then have "ks \<noteq> k" using t1(3) by auto
    moreover have "entry t' ks = entry t1 ks"
      using False by (cases "walk t1 (root t1) ks") (auto simp: entry_def walk t'_def walk [unfolded t'_def])
    ultimately show ?thesis by (simp add: t1(4))
  qed
  moreover have "tree_inv t'"
  proof -
    have "length (children nd) = 256" if "nd \<in> set (nodes t')" for nd
      using that tree_invD(1,3) [OF t1(2)] q
      by (auto simp: t'_def in_set_conv_nth nth_list_update split: if_splits)
    then show ?thesis
      using t1(2) unfolding tree_inv_def walk by (simp add: t'_def)
  qed
  ultimately show ?thesis
    using t1 by (auto simp: PrefixTree_insert_def t'_def)
qed

subsection \<open>A search returns the longest match\<close>

text \<open>
  The specification: among the nonempty prefixes of the key that have an entry, the longest
  one; its value and its length, or the default and length 1.
\<close>

definition matches :: "(u8 list \<rightharpoonup> 'v) \<Rightarrow> u8 list \<Rightarrow> nat list" where
  "matches f k = filter (\<lambda>n. f (take n k) \<noteq> None) [1..<Suc (length k)]"

definition longest_match :: "(u8 list \<rightharpoonup> 'v) \<Rightarrow> 'v \<Rightarrow> u8 list \<Rightarrow> 'v ValAndLength" where
  "longest_match f d k =
     (if matches f k = [] then \<lparr>val = d, vlen = 1\<rparr>
      else \<lparr>val = the (f (take (last (matches f k)) k)), vlen = last (matches f k)\<rparr>)"

lemma matches_snoc: "matches f (ks @ [c]) = matches f ks @ (if f (ks @ [c]) = None then [] else [Suc (length ks)])"
proof -
  have "filter (\<lambda>n. f (take n (ks @ [c])) \<noteq> None) [1..<Suc (length ks)] = matches f ks"
    unfolding matches_def by (rule filter_cong) auto
  then show ?thesis
    by (simp add: matches_def)
qed

lemma matches_append_None:
  "(\<And>ls. ls \<noteq> [] \<Longrightarrow> f (ks @ ls) = None) \<Longrightarrow> matches f (ks @ cs) = matches f ks"
proof (induction cs rule: rev_induct)
  case (snoc c cs)
  have "f ((ks @ cs) @ [c]) = None"
    using snoc.prems [of "cs @ [c]"] by simp
  then have "matches f ((ks @ cs) @ [c]) = matches f (ks @ cs)"
    by (simp only: matches_snoc) simp
  with snoc show ?case by simp
qed simp

lemma matches_le: "n \<in> set (matches f ks) \<Longrightarrow> n \<le> length ks"
  by (auto simp: matches_def)

lemma longest_append_None:
  assumes "\<And>ls. ls \<noteq> [] \<Longrightarrow> f (ks @ ls) = None"
  shows "longest_match f d (ks @ cs) = longest_match f d ks"
proof -
  have m: "matches f (ks @ cs) = matches f ks"
    using assms by (rule matches_append_None)
  have "last (matches f ks) \<le> length ks" if "matches f ks \<noteq> []"
    using matches_le [OF last_in_set [OF that]] .
  then show ?thesis
    by (auto simp: longest_match_def m)
qed

lemma longest_snoc:
  "longest_match f d (ks @ [c]) =
     (case f (ks @ [c]) of None \<Rightarrow> longest_match f d ks | Some v \<Rightarrow> \<lparr>val = v, vlen = Suc (length ks)\<rparr>)"
proof (cases "f (ks @ [c])")
  case None
  have "take (last (matches f ks)) (ks @ [c]) = take (last (matches f ks)) ks" if "matches f ks \<noteq> []"
    using matches_le [OF last_in_set [OF that]] by simp
  with None show ?thesis
    by (simp add: longest_match_def matches_snoc)
qed (simp add: longest_match_def matches_snoc)

lemma search_loop_longest:
  assumes "tree_inv t" and "\<forall>c \<in> set cs. c < 128" and "walk t (root t) ks = Some p"
    and "longest_match (entry t) d ks = \<lparr>val = lastVal, vlen = lastLevel + 1\<rparr>"
  shows "search_loop t cs (length ks) p lastVal lastLevel = Inr (longest_match (entry t) d (ks @ cs))"
  using assms(2-)
proof (induction cs arbitrary: ks p lastVal lastLevel)
  case (Cons c cs)
  then have c: "c < 128" by simp
  have idx: "child_index c = Inr (unat c)" "child t p c = children (nodes t ! p) ! unat c"
    using ascii_index [OF c] by auto
  show ?case
  proof (cases "children (nodes t ! p) ! unat c")
    case None
    then have "walk t (root t) (ks @ [c]) = None"
      using Cons.prems(2) idx by (simp add: walk_snoc)
    then have none: "walk t (root t) ((ks @ [c]) @ ls) = None" for ls
      by (simp only: walk_append) simp
    have e: "entry t (ks @ [c]) = None"
      using none [of "[]"] by (simp add: entry_def)
    have "longest_match (entry t) d ((ks @ [c]) @ cs) = longest_match (entry t) d (ks @ [c])"
      using none by (intro longest_append_None) (simp add: entry_def)
    with None idx Cons.prems(3) e show ?thesis
      by (simp add: longest_snoc)
  next
    case (Some q)
    then have w: "walk t (root t) (ks @ [c]) = Some q"
      using Cons.prems(2) idx by (simp add: walk_snoc)
    show ?thesis
      using Cons.IH [OF _ w] Cons.prems Some idx w
      by (simp add: longest_snoc entry_def)
  qed
qed simp

lemma search_ok:
  "tree_inv t \<Longrightarrow> \<forall>c \<in> set k. c < 128 \<Longrightarrow> PrefixTree_search d k t = Inr (longest_match (entry t) d k)"
  using search_loop_longest [of t k "[]" "root t" d d 0]
  by (simp add: PrefixTree_search_def longest_match_def matches_def)

lemma new_ok:
  "\<exists>t. PrefixTree_new d = Inr t \<and> tree_inv t \<and> entry t = Map.empty \<and> length (pool_free (pool t)) = 99"
proof -
  let ?p = "MemoryPool_new PrefixTree_capacity"
  have p: "pool_inv PrefixTree_capacity ?p" "pool_free ?p = [0..<PrefixTree_capacity]"
    by (rule MemoryPool_new_inv)+
  then obtain pl where pl: "MemoryPool_get ?p = (Some 99, pl)" "pool_free pl = [0..<99]"
    "pool_inv PrefixTree_capacity pl"
    using MemoryPool_get_some [OF p(1)] by (auto simp: PrefixTree_capacity_def upt_rec)
  define t where "t = \<lparr>count = 0, root = 99, nodes = replicate PrefixTree_capacity (PrefixTreeNode_new d), pool = pl\<rparr>"
  have "PrefixTree_new d = Inr t"
    by (simp add: PrefixTree_new_def new_node_def pl t_def list_update_same_conv)
      (simp add: PrefixTree_capacity_def list_update_same_conv)
  moreover have "child t x c = None" if "x < 100" for x c
    using that char_index_bound [of c] by (simp add: child_def t_def PrefixTree_capacity_def PrefixTreeNode_new_def)
  then have walk: "walk t (root t) ks = (if ks = [] then Some 99 else None)" for ks
    by (cases ks) (simp_all add: t_def)
  moreover have "entry t = Map.empty"
    by (auto simp: entry_def walk fun_eq_iff) (simp add: t_def PrefixTree_capacity_def PrefixTreeNode_new_def)
  moreover have "tree_inv t"
    unfolding tree_inv_def walk using pl by (auto simp: t_def PrefixTree_capacity_def PrefixTreeNode_new_def split: if_splits)
  ultimately show ?thesis
    using pl by (intro exI [of _ t]) (simp add: t_def)
qed

fun insert_all :: "'v \<Rightarrow> (u8 list \<times> 'v) list \<Rightarrow> 'v PrefixTree \<Rightarrow> 'v PrefixTree kresult" where
  "insert_all d [] t = Inr t"
| "insert_all d ((k, v) # kvs) t = kbind (PrefixTree_insert d k v t) (insert_all d kvs)"

lemma insert_all_ok:
  assumes "tree_inv t" and "\<forall>(k, v) \<in> set kvs. \<forall>c \<in> set k. c < 128"
    and "sum_list (map (length \<circ> fst) kvs) \<le> length (pool_free (pool t))"
  shows "\<exists>t'. insert_all d kvs t = Inr t' \<and> tree_inv t' \<and> entry t' = entry t ++ map_of (rev kvs)"
  using assms
proof (induction kvs arbitrary: t)
  case (Cons kv kvs)
  obtain k v where kv: "kv = (k, v)" by (cases kv)
  obtain t1 where t1: "PrefixTree_insert d k v t = Inr t1" "tree_inv t1" "entry t1 = (entry t)(k \<mapsto> v)"
    "length (pool_free (pool t)) \<le> length (pool_free (pool t1)) + length k"
    using insert_ok [OF Cons.prems(1), of k d v] Cons.prems(2,3) kv by auto
  have eq: "entry t1 ++ map_of (rev kvs) = entry t ++ map_of (rev (kv # kvs))"
    using t1(3) kv by simp
  obtain t' where "insert_all d kvs t1 = Inr t'" "tree_inv t'" "entry t' = entry t1 ++ map_of (rev kvs)"
    using Cons.IH [OF t1(2)] Cons.prems(2,3) kv t1(4) by auto
  with eq t1(1) kv show ?case
    by (intro exI [of _ t']) (simp only: insert_all.simps kbind_simps simp_thms)
qed simp



text \<open>
  A key with a character from 128 on is never entered and never found: as soon as the
  walk arrives at that character the array of children is accessed out of range.
\<close>

lemma prefix_tree_high_char_faults:
  assumes "\<not> c < 128"
  shows "PrefixTree_insert d (c # k) v t = Inl Fault \<and> PrefixTree_search d (c # k) t = Inl Fault"
  using high_char_negative [OF assms]
  by (simp add: PrefixTree_insert_def PrefixTree_search_def child_index_def)

end
