(* ===== verification/KPaging.thy ===== *)
theory KPaging
  imports Prelude
begin

text \<open>
  Page directory entries: the flags and macros of inc/x86/paging.h, and the classes
  \<open>VirtAddr\<close> and \<open>PhysAddr\<close> of klibs/palloc.cpp. The kernel maps 4 MB pages. A
  physical page has a 12-bit index; its low 10 bits are the address bits 22 to 31 of a
  directory entry and its high 2 bits are bits 13 and 14 of the entry.
\<close>

subsection \<open>Flags\<close>

definition ALIGN_4KB_ADDR :: u32 where "ALIGN_4KB_ADDR = 0xFFFFF000"
definition ALIGN_4MB_ADDR :: u32 where "ALIGN_4MB_ADDR = 0xFFC00000"
definition EXTRACT_PTE :: u32 where "EXTRACT_PTE = (NOT ALIGN_4MB_ADDR) AND ALIGN_4KB_ADDR"
definition PAGING_PRESENT :: u32 where "PAGING_PRESENT = 0x1"
definition PG_4MB_BASE :: u32 where "PG_4MB_BASE = 0x081"
definition PG_4KB_BASE :: u32 where "PG_4KB_BASE = 0x001"
definition PG_GLOABL :: u32 where "PG_GLOABL = 0x100"
definition PG_NOT_DIRTY :: u32 where "PG_NOT_DIRTY = 0xFFFFFFBF"
definition PG_NOT_ACCESSED :: u32 where "PG_NOT_ACCESSED = 0xFFFFFFDF"
definition PG_USER :: u32 where "PG_USER = 0x004"
definition PG_WRITABLE :: u32 where "PG_WRITABLE = 0x002"
definition PT_BASE :: u32 where "PT_BASE = 0x001"
definition PT_USER :: u32 where "PT_USER = 0x004"
definition PT_WRITABLE :: u32 where "PT_WRITABLE = 0x002"
definition PD_BASE :: u32 where "PD_BASE = 0x00"
definition PD_NUM_ENTRIES :: nat where "PD_NUM_ENTRIES = 0x0400"

lemmas paging_consts = ALIGN_4KB_ADDR_def ALIGN_4MB_ADDR_def PAGING_PRESENT_def PG_4MB_BASE_def
  PG_4KB_BASE_def PG_GLOABL_def PG_NOT_DIRTY_def PG_NOT_ACCESSED_def PG_USER_def PG_WRITABLE_def
  PT_BASE_def PD_BASE_def

definition HAS_FLAG :: "u32 \<Rightarrow> u32 \<Rightarrow> bool" where
  "HAS_FLAG flag x \<longleftrightarrow> x AND flag = flag"

text \<open>
  The macros that store entries. A page directory is a list of 1024 entries; the page tables
  are a memory of entries indexed by the (4 KB aligned) table address and the entry number.
\<close>

definition LOAD_4MB_PAGE :: "nat \<Rightarrow> u32 \<Rightarrow> u32 \<Rightarrow> u32 list \<Rightarrow> u32 list" where
  "LOAD_4MB_PAGE pd_idx page_addr flags pd =
     pd[pd_idx := PG_4MB_BASE OR (page_addr AND ALIGN_4MB_ADDR) OR flags]"

definition LOAD_PAGE_TABLE :: "nat \<Rightarrow> u32 \<Rightarrow> u32 \<Rightarrow> u32 list \<Rightarrow> u32 list" where
  "LOAD_PAGE_TABLE pd_idx table_addr flags pd =
     pd[pd_idx := PT_BASE OR (table_addr AND ALIGN_4KB_ADDR) OR flags]"

definition LOAD_4KB_PAGE ::
  "nat \<Rightarrow> nat \<Rightarrow> u32 \<Rightarrow> u32 \<Rightarrow> u32 list \<Rightarrow> (u32 \<Rightarrow> nat \<Rightarrow> u32) \<Rightarrow> (u32 \<Rightarrow> nat \<Rightarrow> u32)" where
  "LOAD_4KB_PAGE pd_idx pt_idx page_addr flags pd tables =
     (let t = pd ! pd_idx AND ALIGN_4KB_ADDR
      in tables(t := (tables t)(pt_idx := PG_4KB_BASE OR (page_addr AND ALIGN_4KB_ADDR) OR flags)))"

definition REDIRECT_PAGE_DIR :: "u32 \<Rightarrow> u32" where
  "REDIRECT_PAGE_DIR dir_addr = PD_BASE OR (dir_addr AND ALIGN_4KB_ADDR)"

subsection \<open>Addresses\<close>

type_synonym VirtAddr = u32
type_synonym PhysAddr = u32

definition PhysAddr_new :: "u16 \<Rightarrow> u32 \<Rightarrow> PhysAddr" where
  "PhysAddr_new pageIndex flags =
     PG_4MB_BASE OR push_bit 22 (ucast (pageIndex AND 0x3ff))
       OR push_bit 3 (ucast (pageIndex AND 0xc00)) OR flags"

definition PhysAddr_index :: "PhysAddr \<Rightarrow> u16" where
  "PhysAddr_index pde = ucast (drop_bit 22 (pde AND 0xffc00000) OR drop_bit 3 (pde AND 0x00006000))"

definition PhysAddr_flags :: "PhysAddr \<Rightarrow> u32" where
  "PhysAddr_flags pde = pde AND 0x1fff"

definition PhysAddr_eq :: "PhysAddr \<Rightarrow> PhysAddr \<Rightarrow> bool" where
  "PhysAddr_eq a b \<longleftrightarrow>
     a AND PG_NOT_ACCESSED AND PG_NOT_DIRTY = b AND PG_NOT_ACCESSED AND PG_NOT_DIRTY"

text \<open>\<open>addr >> 22\<close>, the index of a 4 MB page of virtual memory.\<close>

definition vindex :: "VirtAddr \<Rightarrow> nat" where
  "vindex addr = unat (drop_bit 22 addr)"

text \<open>The same shift stored in a \<open>uint16_t\<close>; nothing is lost, the value is below 1024.\<close>

lemma vindex_div: "vindex a = unat a div 4194304"
  by (simp only: vindex_def unat_drop_bit_eq) (simp add: drop_bit_eq_div)

lemma vindex_less: "vindex a < 1024"
proof -
  have "unat a < 4294967296"
    using unsigned_less [of a] by simp
  then show ?thesis
    by (simp add: vindex_div less_mult_imp_div_less)
qed

text \<open>The bits of the masks, found by going through all of them.\<close>

lemma bit_const_u32:
  "list_all (\<lambda>n. bit (c :: u32) n = P n) [0..<32] \<Longrightarrow> bit c n \<longleftrightarrow> n < 32 \<and> P n"
  using bit_imp_le_length [of c n] by (auto simp: list_all_iff)

lemma bit_const_u16:
  "list_all (\<lambda>n. bit (c :: u16) n = P n) [0..<16] \<Longrightarrow> bit c n \<longleftrightarrow> n < 16 \<and> P n"
  using bit_imp_le_length [of c n] by (auto simp: list_all_iff)

lemma bit_0x3ff: "bit (0x3ff :: u16) n \<longleftrightarrow> n < 16 \<and> n < 10"
  by (rule bit_const_u16) code_simp

lemma bit_0xc00: "bit (0xc00 :: u16) n \<longleftrightarrow> n < 16 \<and> (n = 10 \<or> n = 11)"
  by (rule bit_const_u16) code_simp

lemma bit_0xffc00000: "bit (0xffc00000 :: u32) n \<longleftrightarrow> n < 32 \<and> 22 \<le> n"
  by (rule bit_const_u32) code_simp

lemma bit_0x6000: "bit (0x6000 :: u32) n \<longleftrightarrow> n < 32 \<and> (n = 13 \<or> n = 14)"
  by (rule bit_const_u32) code_simp

lemma bit_0x1fff: "bit (0x1fff :: u32) n \<longleftrightarrow> n < 32 \<and> n < 13"
  by (rule bit_const_u32) code_simp

lemma bit_0x81: "bit (0x81 :: u32) n \<longleftrightarrow> n < 32 \<and> (n = 0 \<or> n = 7)"
  by (rule bit_const_u32) code_simp

lemmas bit_masks = bit_0x3ff bit_0xc00 bit_0xffc00000 bit_0x6000 bit_0x1fff bit_0x81

lemma bit_below_exp:
  fixes w :: "'a :: len word"
  assumes "k \<le> n" and "w < c" and "unat c = 2 ^ k"
  shows "\<not> bit w n"
proof -
  have "unat w < 2 ^ k"
    using assms(2,3) by (simp add: word_less_nat_alt)
  also have "\<dots> \<le> 2 ^ n"
    using assms(1) by simp
  finally have "\<not> bit (unat w) n"
    by (simp add: bit_iff_odd)
  then show ?thesis
    by (auto simp: bit_unsigned_iff dest: bit_imp_le_length)
qed

text \<open>The flag bits are those below bit 13.\<close>

definition flag_word :: "u32 \<Rightarrow> bool" where
  "flag_word f \<longleftrightarrow> f AND 0x1fff = f"

lemma flag_word_bit: "flag_word f \<Longrightarrow> bit f n \<Longrightarrow> n < 13"
  by (metis bit_0x1fff bit_and_iff flag_word_def)

lemma PhysAddr_new_bit:
  "bit (PhysAddr_new i f) n \<longleftrightarrow>
     n < 32 \<and> (n = 0 \<or> n = 7 \<or> 22 \<le> n \<and> bit i (n - 22) \<or> (n = 13 \<or> n = 14) \<and> bit i (n - 3) \<or> bit f n)"
  using bit_imp_le_length [of f n]
  by (auto simp: PhysAddr_new_def PG_4MB_BASE_def bit_simps bit_masks simp del: bit_numeral_word_iff)

lemma PhysAddr_index_bit:
  "bit (PhysAddr_index pde) n \<longleftrightarrow> n < 10 \<and> bit pde (n + 22) \<or> (n = 10 \<or> n = 11) \<and> bit pde (n + 3)"
  by (simp only: PhysAddr_index_def bit_unsigned_iff bit_or_iff bit_drop_bit_eq o_def bit_and_iff bit_masks)
    (auto simp: add.commute)

text \<open>
  C13: a directory entry built from a page index below 4096 and flags below bit 13 gives
  the index and the flags back (with the present and page size bits added), so every page
  number of a 16 GB physical memory survives the encoding.
\<close>

theorem pde_roundtrip:
  assumes "i < 4096" and "flag_word f"
  shows "PhysAddr_index (PhysAddr_new i f) = i \<and> PhysAddr_flags (PhysAddr_new i f) = PG_4MB_BASE OR f \<and>
    PhysAddr_new i f AND PAGING_PRESENT \<noteq> 0"
proof -
  have i: "\<not> bit i n" if "12 \<le> n" for n
    using that assms(1) by (rule bit_below_exp) simp
  have f: "\<not> bit f n" if "13 \<le> n" for n
    using flag_word_bit [OF assms(2)] that by force
  have "PhysAddr_index (PhysAddr_new i f) = i"
  proof (rule bit_word_eqI)
    fix n assume "n < LENGTH(16)"
    then have "n < 10 \<or> n = 10 \<or> n = 11 \<or> 12 \<le> n" by auto
    then show "bit (PhysAddr_index (PhysAddr_new i f)) n = bit i n"
      using i f by (auto simp: PhysAddr_index_bit PhysAddr_new_bit)
  qed
  moreover have "PhysAddr_flags (PhysAddr_new i f) = PG_4MB_BASE OR f"
    using flag_word_bit [OF assms(2)] by (intro bit_word_eqI)
      (auto simp: PhysAddr_flags_def PhysAddr_new_bit PG_4MB_BASE_def bit_simps bit_masks not_le
        simp del: bit_numeral_word_iff)
  moreover have "bit (PhysAddr_new i f AND PAGING_PRESENT) 0"
    by (simp add: PAGING_PRESENT_def bit_simps PhysAddr_new_bit)
  ultimately show ?thesis by auto
qed

theorem pde_roundtrip_witness:
  "PhysAddr_index (PhysAddr_new 3000 6) = 3000 \<and> PhysAddr_flags (PhysAddr_new 3000 6) = PG_4MB_BASE OR 6 \<and>
    PhysAddr_new 3000 6 AND PAGING_PRESENT \<noteq> 0"
  by (rule pde_roundtrip) (simp_all add: flag_word_def)

end
