(* ===== verification/KPalloc.thy ===== *)
theory KPalloc
  imports KStack KPaging
begin

text \<open>
  The page allocators of inc/klibs/palloc.h: \<open>PhysPageManager<MaxMemory>\<close> for the
  4 MB pages of physical memory and \<open>VirtualMemRegion<startAddr, MaxSize>\<close> for a
  region of virtual addresses. Both keep a stack of page indices and a bit set. The number
  of pages, \<open>MaxNumElements\<close>, is an argument of every operation.

  Every operation runs inside an \<open>AutoSpinLock\<close>, so the model treats it as one step.
  The boot loader's memory map is the list of its entries, its modules the list of theirs.
\<close>

subsection \<open>What the boot loader reports\<close>

record memory_map =
  base_addr_low :: u32
  base_addr_high :: u32
  length_low :: u32
  length_high :: u32
  map_type :: u32

record boot_module =
  mod_start :: u32
  mod_end :: u32

record multiboot_info =
  flags :: u32
  mmap :: "memory_map list"
  mods :: "boot_module list"

definition CHECK_FLAG :: "u32 \<Rightarrow> nat \<Rightarrow> bool" where
  "CHECK_FLAG fl b \<longleftrightarrow> fl AND push_bit b 1 \<noteq> 0"

definition ceil32 :: "u32 \<Rightarrow> u32 \<Rightarrow> u32" where
  "ceil32 len blkSize = (if len mod blkSize > 0 then len div blkSize + 1 else len div blkSize)"

text \<open>
  The page indices of one entry of the memory map, or nothing when the entry is skipped.
  \<open>((1 - (1 << 10)) << 22) & end_high\<close> is the single bit 22.
\<close>

definition mmap_range :: "memory_map \<Rightarrow> (u32 \<times> u32) option" where
  "mmap_range e =
     (let start_low = base_addr_low e; start_high = base_addr_high e
      in if start_high > 0 then None
         else if length_high e > 0xffffffff - start_high then None
         else
           let end_high0 = start_high + length_high e;
               end_high = (if length_low e > 0xffffffff - start_low then end_high0 + 1 else end_high0);
               end_low = start_low + length_low e;
               start_idx = drop_bit 22 start_low OR push_bit 10 start_high
           in if push_bit 22 (1 - push_bit 10 1) AND end_high \<noteq> 0 then None
              else Some (start_idx,
                if end_high = 0 then drop_bit 22 end_low OR push_bit 10 end_high else 0xffc))"

subsection \<open>The manager of physical pages\<close>

record PhysPageManager =
  isPhysAddrFree :: bitset
  freePhysAddr :: "nat stack"
  isCommonPage :: bitset

definition add_free_page :: "nat \<Rightarrow> nat \<Rightarrow> PhysPageManager \<Rightarrow> PhysPageManager" where
  "add_free_page n pidx P =
     (if pidx \<noteq> 0 \<and> pidx \<noteq> 1 \<and> \<not> BitSet_test n pidx (isPhysAddrFree P) then
        P\<lparr>isPhysAddrFree := BitSet_set n pidx (isPhysAddrFree P),
          freePhysAddr := Stack_push n pidx (freePhysAddr P)\<rparr>
      else P)"

definition add_mmap_entry :: "nat \<Rightarrow> memory_map \<Rightarrow> PhysPageManager \<Rightarrow> PhysPageManager" where
  "add_mmap_entry n e P =
     (case mmap_range e of
        None \<Rightarrow> P
      | Some (start_idx, end_idx) \<Rightarrow>
          if map_type e = 1 then fold (add_free_page n) [unat start_idx..<unat end_idx] P else P)"

text \<open>The loop used without a memory map: \<open>for (uint16_t i = Max - 1; i >= 2; i++)\<close>.\<close>

function fallback_loop :: "nat \<Rightarrow> u16 \<Rightarrow> nat stack \<Rightarrow> nat stack" where
  "fallback_loop n i s = (if i \<ge> 2 then fallback_loop n (i + 1) (Stack_push n (unat i) s) else s)"
  by auto

definition clear_module :: "nat \<Rightarrow> boot_module \<Rightarrow> bitset \<Rightarrow> bitset" where
  "clear_module n m b =
     fold (\<lambda>j. BitSet_clear n (unat (drop_bit 22 (mod_start m + of_nat j * 0x400000))))
       [0..<unat (ceil32 (mod_end m - mod_start m) 0x400000)] b"

termination fallback_loop
proof (relation "measure (\<lambda>(n, i, s). if i = 0 then 0 else 65536 - unat i)")
  fix n :: nat and i :: u16 and s :: "nat stack"
  assume "2 \<le> i"
  then have "i \<noteq> 0" by auto
  moreover have "unat i < 65536"
    using unsigned_less [of i] by simp
  moreover have "i + 1 = 0 \<or> unat (i + 1) = Suc (unat i)"
    by (metis Suc_eq_plus1 unatSuc add.commute)
  ultimately show "((n, i + 1, Stack_push n (unat i) s), n, i, s)
      \<in> measure (\<lambda>(n, i, s). if i = 0 then 0 else 65536 - unat i)"
    by auto
qed simp

declare fallback_loop.simps [simp del]

definition PhysPageManager_new :: "nat \<Rightarrow> multiboot_info \<Rightarrow> PhysPageManager" where
  "PhysPageManager_new n mbi =
     (let P0 = \<lparr>isPhysAddrFree = BitSet_new n, freePhysAddr = Stack_new n 0, isCommonPage = BitSet_new n\<rparr>;
          P1 = (if CHECK_FLAG (flags mbi) 6 then fold (add_mmap_entry n) (mmap mbi) P0
                else P0\<lparr>freePhysAddr := fallback_loop n (of_nat (n - 1)) (freePhysAddr P0)\<rparr>);
          P2 = P1\<lparr>isPhysAddrFree := BitSet_clear n 1 (BitSet_clear n 0 (isPhysAddrFree P1))\<rparr>
      in P2\<lparr>isPhysAddrFree := fold (clear_module n) (mods mbi) (isPhysAddrFree P2)\<rparr>)"

definition allocPage :: "nat \<Rightarrow> bool \<Rightarrow> PhysPageManager \<Rightarrow> nat option \<times> PhysPageManager" where
  "allocPage n common P =
     (if Stack_empty (freePhysAddr P) then (None, P)
      else case Stack_pop 0 (freePhysAddr P) of (tp, s) \<Rightarrow>
        let P1 = P\<lparr>freePhysAddr := s\<rparr> in
        if \<not> BitSet_test n tp (isPhysAddrFree P1) then (None, P1)
        else let P2 = P1\<lparr>isPhysAddrFree := BitSet_clear n tp (isPhysAddrFree P1)\<rparr>
             in (Some tp, if common then P2\<lparr>isCommonPage := BitSet_set n tp (isCommonPage P2)\<rparr> else P2))"

definition markPageAsUsed :: "nat \<Rightarrow> nat \<Rightarrow> PhysPageManager \<Rightarrow> PhysPageManager kresult" where
  "markPageAsUsed n pageIndex P =
     (if \<not> BitSet_test n pageIndex (isPhysAddrFree P) then Inr P
      else let P1 = P\<lparr>isPhysAddrFree := BitSet_clear n pageIndex (isPhysAddrFree P)\<rparr>
           in kbind (Stack_dropFirst (\<lambda>i. pageIndex = i) (freePhysAddr P1))
                (\<lambda>(_, s). Inr (P1\<lparr>freePhysAddr := s\<rparr>)))"

definition freePage :: "nat \<Rightarrow> nat \<Rightarrow> PhysPageManager \<Rightarrow> PhysPageManager" where
  "freePage n pageIndex P =
     (if BitSet_test n pageIndex (isPhysAddrFree P) then P
      else P\<lparr>isPhysAddrFree := BitSet_set n pageIndex (isPhysAddrFree P),
             isCommonPage := BitSet_clear n pageIndex (isCommonPage P),
             freePhysAddr := Stack_push n pageIndex (freePhysAddr P)\<rparr>)"

definition freePage_addr :: "nat \<Rightarrow> PhysAddr \<Rightarrow> PhysPageManager \<Rightarrow> PhysPageManager" where
  "freePage_addr n page P = freePage n (unat (PhysAddr_index page)) P"

subsection \<open>Regions of virtual addresses\<close>

record VirtualMemRegion =
  isVirtAddrUsed :: bitset
  freeVirtAddr :: "nat stack"
  isCommonVirt :: bitset

definition VirtualMemRegion_new :: "nat \<Rightarrow> VirtualMemRegion" where
  "VirtualMemRegion_new n =
     \<lparr>isVirtAddrUsed = BitSet_new n, freeVirtAddr = fold (Stack_push n) [0..<n] (Stack_new n 0),
      isCommonVirt = BitSet_new n\<rparr>"

definition virt_allocPage ::
  "u32 \<Rightarrow> nat \<Rightarrow> bool \<Rightarrow> VirtualMemRegion \<Rightarrow> VirtAddr option \<times> VirtualMemRegion" where
  "virt_allocPage startAddr n common R =
     (if Stack_empty (freeVirtAddr R) then (None, R)
      else case Stack_pop 0 (freeVirtAddr R) of (tp, s) \<Rightarrow>
        let R1 = R\<lparr>freeVirtAddr := s, isVirtAddrUsed := BitSet_set n tp (isVirtAddrUsed R)\<rparr>;
            R2 = (if common then R1\<lparr>isCommonVirt := BitSet_set n tp (isCommonVirt R1)\<rparr> else R1)
        in (Some (of_nat tp * 0x400000 + startAddr), R2))"

text \<open>The loop of \<open>allocConsPage\<close> that takes the pages off the stack.\<close>

fun allocCons_loop :: "nat \<Rightarrow> bool \<Rightarrow> nat list \<Rightarrow> VirtualMemRegion \<Rightarrow> VirtualMemRegion kresult" where
  "allocCons_loop n common [] R = Inr R"
| "allocCons_loop n common (i # is) R =
     (case Stack_first 0 (\<lambda>x. if i = x then Some (0 :: nat) else None) (freeVirtAddr R) of
        (None, _) \<Rightarrow> Inl (Trap 27)
      | (Some _, idxInStack) \<Rightarrow>
          kbind (Stack_drop idxInStack (freeVirtAddr R)) (\<lambda>(_, s).
            let R1 = R\<lparr>freeVirtAddr := s\<rparr>
            in allocCons_loop n common is
                 (if common then R1\<lparr>isCommonVirt := BitSet_set n i (isCommonVirt R1)\<rparr> else R1)))"

definition allocConsPage ::
  "u32 \<Rightarrow> nat \<Rightarrow> nat \<Rightarrow> bool \<Rightarrow> VirtualMemRegion \<Rightarrow> (VirtAddr option \<times> VirtualMemRegion) kresult" where
  "allocConsPage startAddr n num common R =
     (if Stack_empty (freeVirtAddr R) then Inr (None, R)
      else case BitSet_findConsZeros n num (isVirtAddrUsed R) of
        None \<Rightarrow> Inr (None, R)
      | Some startIdx \<Rightarrow>
          kbind (allocCons_loop n common [startIdx..<startIdx + num] R) (\<lambda>R1.
            Inr (Some (of_nat startIdx * 0x400000 + startAddr), R1)))"

definition virt_freePage :: "nat \<Rightarrow> VirtAddr \<Rightarrow> VirtualMemRegion \<Rightarrow> VirtualMemRegion" where
  "virt_freePage n virtAddr R =
     (let pageIndex = vindex virtAddr in
      if BitSet_test n pageIndex (isVirtAddrUsed R) then
        R\<lparr>isVirtAddrUsed := BitSet_clear n pageIndex (isVirtAddrUsed R),
          isCommonVirt := BitSet_clear n pageIndex (isCommonVirt R),
          freeVirtAddr := Stack_push n pageIndex (freeVirtAddr R)\<rparr>
      else R)"

subsection \<open>The free pages\<close>

definition free_pages :: "nat \<Rightarrow> PhysPageManager \<Rightarrow> nat set" where
  "free_pages n P = {p. BitSet_test n p (isPhysAddrFree P)}"

definition phys_inv :: "nat \<Rightarrow> PhysPageManager \<Rightarrow> bool" where
  "phys_inv n P \<longleftrightarrow> BitSet_inv n (isPhysAddrFree P) \<and> Stack_inv n (freePhysAddr P)"

lemma free_pages_bound: "p \<in> free_pages n P \<Longrightarrow> p < n"
  by (auto simp: free_pages_def dest: BitSet_test_bound)

lemma allocPage_cases:
  assumes "phys_inv n P"
  shows "case allocPage n common P of
      (None, P') \<Rightarrow> phys_inv n P' \<and> free_pages n P' = free_pages n P
    | (Some p, P') \<Rightarrow> phys_inv n P' \<and> p \<in> free_pages n P \<and> free_pages n P' = free_pages n P - {p}"
proof (cases "Stack_empty (freePhysAddr P)")
  case False
  obtain tp s where pop: "Stack_pop 0 (freePhysAddr P) = (tp, s)" by (cases "Stack_pop 0 (freePhysAddr P)")
  then have "Stack_inv n s"
    using assms Stack_pop_inv [of n "freePhysAddr P" 0] by (simp add: phys_inv_def)
  with False pop assms show ?thesis
    by (auto simp: allocPage_def phys_inv_def free_pages_def Let_def BitSet_test_clear)
qed (use assms in \<open>simp add: allocPage_def\<close>)

lemma freePage_pages:
  assumes "phys_inv n P"
  shows "phys_inv n (freePage n p P) \<and> free_pages n (freePage n p P) = free_pages n P \<union> ({p} \<inter> {..<n})"
  using assms Stack_push_inv [of n "freePhysAddr P" p] BitSet_test_bound [of n p "isPhysAddrFree P"]
  by (auto simp: freePage_def phys_inv_def free_pages_def BitSet_test_set)

lemma markPageAsUsed_pages:
  assumes "phys_inv n P"
  shows "\<exists>P'. markPageAsUsed n p P = Inr P' \<and> phys_inv n P' \<and> free_pages n P' = free_pages n P - {p}"
proof (cases "BitSet_test n p (isPhysAddrFree P)")
  case True
  have "\<exists>r s. Stack_dropFirst (\<lambda>i. p = i) (freePhysAddr P) = Inr (r, s) \<and> Stack_inv n s"
    using Stack_dropFirst_some [of n "freePhysAddr P" "\<lambda>i. p = i"]
      Stack_dropFirst_none [of "freePhysAddr P" "\<lambda>i. p = i"] assms
    by (cases "\<exists>x \<in> set (Stack_list (freePhysAddr P)). p = x") (auto simp: phys_inv_def)
  with True assms show ?thesis
    by (auto simp: markPageAsUsed_def phys_inv_def free_pages_def BitSet_test_clear)
next
  case False
  with assms show ?thesis by (auto simp: markPageAsUsed_def free_pages_def)
qed

subsection \<open>The constructor\<close>

lemma add_free_page_inv: "phys_inv n P \<Longrightarrow> phys_inv n (add_free_page n p P)"
  by (auto simp: add_free_page_def phys_inv_def Stack_push_inv)

lemma fold_inv: "(\<And>x s. I s \<Longrightarrow> I (f x s)) \<Longrightarrow> I s \<Longrightarrow> I (fold f xs s)"
  by (induction xs arbitrary: s) auto

lemma add_mmap_entry_inv: "phys_inv n P \<Longrightarrow> phys_inv n (add_mmap_entry n e P)"
  by (auto simp: add_mmap_entry_def add_free_page_inv intro: fold_inv split: option.splits)

lemma fallback_loop_inv: "Stack_inv n s \<Longrightarrow> Stack_inv n (fallback_loop n i s)"
proof (induction n i s rule: fallback_loop.induct)
  case (1 n i s)
  then show ?case
    by (subst fallback_loop.simps) (auto simp: Stack_push_inv)
qed

definition module_pages :: "boot_module \<Rightarrow> nat set" where
  "module_pages m = (\<lambda>j. vindex (mod_start m + of_nat j * 0x400000)) `
     {0..<unat (ceil32 (mod_end m - mod_start m) 0x400000)}"

lemma fold_clear:
  "BitSet_inv n b \<Longrightarrow> BitSet_inv n (fold (\<lambda>j. BitSet_clear n (f j)) js b) \<and>
   {p. BitSet_test n p (fold (\<lambda>j. BitSet_clear n (f j)) js b)} = {p. BitSet_test n p b} - f ` set js"
  by (induction js arbitrary: b) (auto simp: BitSet_test_clear)

lemma clear_module_pages:
  "BitSet_inv n b \<Longrightarrow> BitSet_inv n (clear_module n m b) \<and>
   {p. BitSet_test n p (clear_module n m b)} = {p. BitSet_test n p b} - module_pages m"
  using fold_clear [of n b "\<lambda>j. vindex (mod_start m + of_nat j * 0x400000)"
      "[0..<unat (ceil32 (mod_end m - mod_start m) 0x400000)]"]
  by (simp add: clear_module_def module_pages_def vindex_def)

lemma clear_modules_pages:
  "BitSet_inv n b \<Longrightarrow> BitSet_inv n (fold (clear_module n) ms b) \<and>
   {p. BitSet_test n p (fold (clear_module n) ms b)} = {p. BitSet_test n p b} - (\<Union>m \<in> set ms. module_pages m)"
proof (induction ms arbitrary: b)
  case (Cons m ms)
  then show ?case
    using clear_module_pages [OF Cons.prems, of m] Cons.IH [of "clear_module n m b"] by auto
qed simp

text \<open>The pages found in the memory map, before the kernel's and the modules' pages are taken out.\<close>

definition mapped_manager :: "nat \<Rightarrow> multiboot_info \<Rightarrow> PhysPageManager" where
  "mapped_manager n mbi =
     (let P0 = \<lparr>isPhysAddrFree = BitSet_new n, freePhysAddr = Stack_new n 0, isCommonPage = BitSet_new n\<rparr>
      in if CHECK_FLAG (flags mbi) 6 then fold (add_mmap_entry n) (mmap mbi) P0
         else P0\<lparr>freePhysAddr := fallback_loop n (of_nat (n - 1)) (freePhysAddr P0)\<rparr>)"

lemma mapped_manager_inv: "n < two32 \<Longrightarrow> phys_inv n (mapped_manager n mbi)"
  by (auto simp: mapped_manager_def Let_def phys_inv_def fallback_loop_inv
      intro!: fold_inv [where I = "phys_inv n", unfolded phys_inv_def] add_mmap_entry_inv [unfolded phys_inv_def])

lemma PhysPageManager_new_pages:
  assumes "n < two32"
  shows "phys_inv n (PhysPageManager_new n mbi)"
    "free_pages n (PhysPageManager_new n mbi) =
       free_pages n (mapped_manager n mbi) - {0, 1} - (\<Union>m \<in> set (mods mbi). module_pages m)"
proof -
  let ?P = "mapped_manager n mbi"
  let ?b = "BitSet_clear n 1 (BitSet_clear n 0 (isPhysAddrFree ?P))"
  have inv: "phys_inv n ?P" using assms by (rule mapped_manager_inv)
  then have b: "BitSet_inv n ?b" by (simp add: phys_inv_def)
  have new: "PhysPageManager_new n mbi = ?P\<lparr>isPhysAddrFree := fold (clear_module n) (mods mbi) ?b\<rparr>"
    by (simp add: PhysPageManager_new_def mapped_manager_def Let_def)
  show "phys_inv n (PhysPageManager_new n mbi)"
    using inv clear_modules_pages [OF b, of "mods mbi"] by (simp add: new phys_inv_def)
  show "free_pages n (PhysPageManager_new n mbi) =
      free_pages n ?P - {0, 1} - (\<Union>m \<in> set (mods mbi). module_pages m)"
    using inv clear_modules_pages [OF b, of "mods mbi"]
    by (auto simp: new free_pages_def phys_inv_def BitSet_test_clear)
qed

subsection \<open>Who owns a page\<close>

text \<open>
  The states reachable from an initial manager, with the set of pages that are out: a page
  is out once it has been allocated or marked as used, and only such a page is freed.
\<close>

inductive reach :: "nat \<Rightarrow> PhysPageManager \<Rightarrow> PhysPageManager \<Rightarrow> nat set \<Rightarrow> bool" for n P0 where
  reach_init: "reach n P0 P0 {}"
| reach_alloc: "reach n P0 P out \<Longrightarrow> allocPage n common P = (Some p, P') \<Longrightarrow> reach n P0 P' (insert p out)"
| reach_alloc_none: "reach n P0 P out \<Longrightarrow> allocPage n common P = (None, P') \<Longrightarrow> reach n P0 P' out"
| reach_free: "reach n P0 P out \<Longrightarrow> p \<in> out \<Longrightarrow> reach n P0 (freePage n p P) (out - {p})"
| reach_mark: "reach n P0 P out \<Longrightarrow> p \<in> free_pages n P \<Longrightarrow> markPageAsUsed n p P = Inr P' \<Longrightarrow>
    reach n P0 P' (insert p out)"

lemma reach_pages:
  assumes "reach n P0 P out" and "phys_inv n P0"
  shows "phys_inv n P \<and> free_pages n P \<union> out = free_pages n P0 \<and> free_pages n P \<inter> out = {}"
  using assms
proof (induction rule: reach.induct)
  case (reach_alloc P out common p P')
  then show ?case using allocPage_cases [of n P common] by auto
next
  case (reach_alloc_none P out common P')
  then show ?case using allocPage_cases [of n P common] by auto
next
  case (reach_free P out p)
  then have "p < n" using free_pages_bound [of p n P0] by auto
  with reach_free show ?case using freePage_pages [of n P p] by auto
next
  case (reach_mark P out p P')
  then show ?case using markPageAsUsed_pages [of n P p] by auto
qed simp


definition small_mbi :: multiboot_info where
  "small_mbi = \<lparr>flags = 0x40, mmap = [\<lparr>base_addr_low = 0, base_addr_high = 0,
     length_low = 0x2000000, length_high = 0, map_type = 1\<rparr>],
     mods = [\<lparr>mod_start = 0x1c00000, mod_end = 0x1c00100\<rparr>]\<rparr>"

lemma small_mbi_allocs:
  "fst (allocPage 8 False (PhysPageManager_new 8 small_mbi)) = None \<and>
   fst (allocPage 8 False (snd (allocPage 8 False (PhysPageManager_new 8 small_mbi)))) = Some 6"
  by code_simp


lemma agree_phys_inv: "flist.agree n (freePhysAddr P) (isPhysAddrFree P) \<Longrightarrow> phys_inv n P"
  by (simp add: flist.agree_def phys_inv_def)

lemma allocPage_agree:
  assumes "flist.agree n (freePhysAddr P) (isPhysAddrFree P)"
  shows "case allocPage n common P of
      (None, P') \<Rightarrow> free_pages n P = {} \<and> P' = P
    | (Some p, P') \<Rightarrow> flist.agree n (freePhysAddr P') (isPhysAddrFree P')"
proof (cases "Stack_list (freePhysAddr P) = []")
  case True
  with assms show ?thesis
    by (auto simp: allocPage_def Stack_empty_iff [of n] flist.agree_def free_pages_def)
next
  case False
  have inv: "Stack_inv n (freePhysAddr P)" using assms by (simp add: flist.agree_def)
  with False have "\<not> Stack_empty (freePhysAddr P)" by (simp add: Stack_empty_iff)
  moreover note flist.agree_take [OF assms False]
  ultimately show ?thesis
    by (auto simp: allocPage_def Let_def split: prod.splits)
qed




text \<open>
  Without a memory map from the boot loader the kernel has no page at all: the
  fallback loop fills the stack but marks no page as free, so in every reachable state an
  allocation fails.
\<close>

lemma no_memory_map_no_pages:
  assumes "n < two32" and "\<not> CHECK_FLAG (flags mbi) 6"
    and "reach n (PhysPageManager_new n mbi) P out"
  shows "fst (allocPage n common P) = None"
proof -
  note new = PhysPageManager_new_pages [OF assms(1), of mbi]
  have "free_pages n (PhysPageManager_new n mbi) = {}"
    unfolding new(2) using assms(2) by (simp add: mapped_manager_def free_pages_def)
  then have "phys_inv n P" "free_pages n P = {}"
    using reach_pages [OF assms(3) new(1)] by auto
  then show ?thesis
    using allocPage_cases [of n P common] by (auto split: prod.splits option.splits)
qed

subsection \<open>The region of virtual addresses\<close>

text \<open>A page of the region is free exactly when it is on the stack; a page off the stack is in use.\<close>

definition virt_inv :: "nat \<Rightarrow> VirtualMemRegion \<Rightarrow> bool" where
  "virt_inv n R \<longleftrightarrow> BitSet_inv n (isVirtAddrUsed R) \<and> Stack_inv n (freeVirtAddr R) \<and>
     distinct (Stack_list (freeVirtAddr R)) \<and> set (Stack_list (freeVirtAddr R)) \<subseteq> {..<n}"

lemma fold_push:
  "Stack_inv n s \<Longrightarrow> length (Stack_list s) + length xs \<le> n \<Longrightarrow>
   Stack_inv n (fold (Stack_push n) xs s) \<and> Stack_list (fold (Stack_push n) xs s) = Stack_list s @ xs"
proof (induction xs arbitrary: s)
  case (Cons x xs)
  then show ?case
    using Cons.IH [of "Stack_push n x s"] by (auto simp: Stack_push_list Stack_push_inv)
qed simp

lemma VirtualMemRegion_new_inv:
  "n < two32 \<Longrightarrow> virt_inv n (VirtualMemRegion_new n) \<and> Stack_list (freeVirtAddr (VirtualMemRegion_new n)) = [0..<n]"
  using fold_push [of n "Stack_new n 0" "[0..<n]"] by (auto simp: virt_inv_def VirtualMemRegion_new_def)

lemma virt_allocPage_ok:
  assumes "virt_inv n R" and "Stack_list (freeVirtAddr R) \<noteq> []"
  obtains R' where "virt_allocPage a n common R = (Some (of_nat (last (Stack_list (freeVirtAddr R))) * 0x400000 + a), R')"
    "virt_inv n R'" "Stack_list (freeVirtAddr R') = butlast (Stack_list (freeVirtAddr R))"
proof -
  let ?s = "freeVirtAddr R"
  have s: "Stack_inv n ?s" "\<not> Stack_empty ?s"
    using assms Stack_empty_iff [of n ?s] by (auto simp: virt_inv_def)
  obtain tp s' where pop: "Stack_pop 0 ?s = (tp, s')" by (cases "Stack_pop 0 ?s")
  have "tp = last (Stack_list ?s)" "Stack_list s' = butlast (Stack_list ?s)" "Stack_inv n s'"
    using Stack_pop_list [OF s(1), of 0] Stack_pop_inv [OF s(1), of 0] assms(2) pop by auto
  moreover have "set (butlast (Stack_list ?s)) \<subseteq> {..<n}"
    using assms(1) by (auto simp: virt_inv_def dest: in_set_butlastD)
  ultimately show ?thesis
    using assms s pop
    by (cases common; intro that) (auto simp: virt_allocPage_def Let_def virt_inv_def distinct_butlast)
qed

fun alloc_many :: "u32 \<Rightarrow> nat \<Rightarrow> nat \<Rightarrow> VirtualMemRegion \<Rightarrow> VirtAddr option list" where
  "alloc_many a n 0 R = []"
| "alloc_many a n (Suc k) R = (case virt_allocPage a n True R of (v, R') \<Rightarrow> v # alloc_many a n k R')"

lemma alloc_many_eq:
  "virt_inv n R \<Longrightarrow> alloc_many a n k R =
     map (\<lambda>p. Some (of_nat p * 0x400000 + a)) (take k (rev (Stack_list (freeVirtAddr R)))) @
     replicate (k - length (Stack_list (freeVirtAddr R))) None"
proof (induction k arbitrary: R)
  case (Suc k)
  let ?xs = "Stack_list (freeVirtAddr R)"
  show ?case
  proof (cases "?xs = []")
    case True
    then have "virt_allocPage a n True R = (None, R)"
      using Suc.prems Stack_empty_iff [of n "freeVirtAddr R"] by (auto simp: virt_allocPage_def virt_inv_def)
    with True Suc.IH [OF Suc.prems] show ?thesis by simp
  next
    case False
    obtain R' where R': "virt_allocPage a n True R = (Some (of_nat (last ?xs) * 0x400000 + a), R')"
      "virt_inv n R'" "Stack_list (freeVirtAddr R') = butlast ?xs"
      using virt_allocPage_ok [OF Suc.prems False] by blast
    obtain ys x where "?xs = ys @ [x]"
      using False by (cases ?xs rule: rev_cases) simp_all
    with R' Suc.IH [OF R'(2)] show ?thesis by simp
  qed
qed simp

text \<open>
  C17: allocations from a fresh region return the pages from the last to the first, each
  once, and nothing when all are out: the \<open>j\<close>-th of them is page \<open>n - 1 - j\<close>.
\<close>

theorem virt_alloc_in_order:
  assumes "n < two32"
  shows "alloc_many a n k (VirtualMemRegion_new n) =
    map (\<lambda>j. if j < n then Some (of_nat (n - 1 - j) * 0x400000 + a) else None) [0..<k]"
proof -
  have "alloc_many a n k (VirtualMemRegion_new n) =
      map (\<lambda>p. Some (of_nat p * 0x400000 + a)) (take k (rev [0..<n])) @ replicate (k - n) None"
    using alloc_many_eq [of n "VirtualMemRegion_new n" a k] VirtualMemRegion_new_inv [OF assms] by simp
  also have "\<dots> = map (\<lambda>j. if j < n then Some (of_nat (n - 1 - j) * 0x400000 + a) else None) [0..<k]"
    by (rule nth_equalityI) (auto simp: nth_append rev_nth)
  finally show ?thesis .
qed

theorem virt_alloc_in_order_witness:
  "alloc_many 0xc0000000 2 3 (VirtualMemRegion_new 2) = [Some 0xc0400000, Some 0xc0000000, None]"
  using virt_alloc_in_order [where n = 2 and a = "0xc0000000" and k = 3] by (simp add: upt_rec)

text \<open>
  C18: \<open>freePage\<close> of the kernel's region never gives an address back: it looks up the
  absolute page number (768 and above) in a bit set of 255 relative pages. Every address of
  the region stays allocated for ever.
\<close>

theorem virt_freePage_leaks:
  assumes "0xc0000000 \<le> v"
  shows "virt_freePage 255 v R = R"
proof -
  have "3221225472 \<le> unat v"
    using assms by (simp add: word_le_nat_alt)
  then have "3221225472 div 4194304 \<le> vindex v"
    unfolding vindex_div by (rule div_le_mono)
  then show ?thesis
    by (auto simp: virt_freePage_def Let_def BitSet_test_def)
qed

theorem virt_freePage_leaks_witness:
  "virt_freePage 255 0xc0400000 (VirtualMemRegion_new 255) = VirtualMemRegion_new 255"
  by (rule virt_freePage_leaks) simp

lemma allocCons_first_taken:
  assumes "virt_inv n R" and "i \<notin> set (Stack_list (freeVirtAddr R))"
  shows "allocCons_loop n common (i # is) R = Inl (Trap 27)"
  using first_loop_None [of "\<lambda>x. if i = x then Some (0 :: nat) else None" "Stack_list (freeVirtAddr R)" 0 0] assms(2)
  by (auto simp: Stack_first_def Stack_list_def split: prod.splits option.splits)

lemma allocCons_takes:
  assumes "virt_inv n R" and "distinct is" and "set is \<subseteq> set (Stack_list (freeVirtAddr R))"
  shows "\<exists>R'. allocCons_loop n common is R = Inr R' \<and> virt_inv n R' \<and> isVirtAddrUsed R' = isVirtAddrUsed R \<and>
    set (Stack_list (freeVirtAddr R')) = set (Stack_list (freeVirtAddr R)) - set is"
  using assms
proof (induction "is" arbitrary: R)
  case (Cons i "is")
  let ?s = "freeVirtAddr R" and ?fn = "\<lambda>x. if i = x then Some (0 :: nat) else None"
  have s: "Stack_inv n ?s" "distinct (Stack_list ?s)" using Cons.prems(1) by (auto simp: virt_inv_def)
  obtain r m where fl: "first_loop ?fn (Stack_list ?s) 0 0 = (Some r, m)"
    using Cons.prems(3) first_loop_None [of ?fn "Stack_list ?s" 0 0]
    by (cases "first_loop ?fn (Stack_list ?s) 0 0") (auto split: if_splits)
  from first_loop_Some [OF fl] have m: "m < length (Stack_list ?s)" "Stack_list ?s ! m = i"
    by (auto split: if_splits)
  then obtain s' where s': "Stack_drop m ?s = Inr (i, s')" "Stack_inv n s'"
    "Stack_list s' = take m (Stack_list ?s) @ drop (Suc m) (Stack_list ?s)"
    using Stack_drop_correct [OF s(1), of m] s(1) by (auto simp: Stack_list_length)
  define xs ys where "xs = take m (Stack_list ?s)" and "ys = drop (Suc m) (Stack_list ?s)"
  have "Stack_list ?s = xs @ i # ys" "Stack_list s' = xs @ ys"
    using m id_take_nth_drop [OF m(1)] s'(3) by (simp_all add: xs_def ys_def)
  then have ds: "distinct (Stack_list s')" "set (Stack_list s') = set (Stack_list ?s) - {i}"
    using s(2) by auto
  let ?R1 = "R\<lparr>freeVirtAddr := s'\<rparr>"
  let ?R = "if common then ?R1\<lparr>isCommonVirt := BitSet_set n i (isCommonVirt ?R1)\<rparr> else ?R1"
  have R: "virt_inv n ?R" "freeVirtAddr ?R = s'" "isVirtAddrUsed ?R = isVirtAddrUsed R"
    using Cons.prems(1) s' ds by (auto simp: virt_inv_def)
  have loop: "allocCons_loop n common (i # is) R = allocCons_loop n common is ?R"
    using fl s'(1) by (simp add: Stack_first_def Stack_list_def Let_def)
  have "set is \<subseteq> set (Stack_list (freeVirtAddr ?R))"
    using Cons.prems(2,3) ds R(2) by auto
  with Cons.IH [OF R(1)] Cons.prems(2) R ds show ?case
    unfolding loop by auto
qed simp

text \<open>
  C19: \<open>allocConsPage\<close> takes its pages off the stack without marking them as used, so
  a second request for the same number of consecutive pages chooses the same pages again
  and ends in exception 27. (KissFS makes the only such request.)
\<close>

theorem allocConsPage_second_traps:
  assumes "0 < num" and "num < n" and "n < two32"
  shows "\<exists>R. allocConsPage a n num common (VirtualMemRegion_new n) = Inr (Some a, R) \<and>
    allocConsPage a n num common R = Inl (Trap 27)"
proof -
  let ?R0 = "VirtualMemRegion_new n"
  have R0: "virt_inv n ?R0" "Stack_list (freeVirtAddr ?R0) = [0..<n]"
    using VirtualMemRegion_new_inv [OF assms(3)] by auto
  have nonempty: "\<not> Stack_empty (freeVirtAddr R)" if "virt_inv n R" "n - 1 \<in> set (Stack_list (freeVirtAddr R))" for R
    using that Stack_empty_iff [of n "freeVirtAddr R"] by (auto simp: virt_inv_def)
  have find: "BitSet_findConsZeros n num (BitSet_new n) = Some 0"
    using assms by (simp add: BitSet_findConsZeros_def findConsZeros_loop_clear)
  have used: "isVirtAddrUsed ?R0 = BitSet_new n" by (simp add: VirtualMemRegion_new_def)
  obtain R where R: "allocCons_loop n common [0..<num] ?R0 = Inr R" "virt_inv n R" "isVirtAddrUsed R = BitSet_new n"
    "set (Stack_list (freeVirtAddr R)) = {0..<n} - {0..<num}"
    using allocCons_takes [OF R0(1), of "[0..<num]" common] R0(2) assms used by auto
  have "0 \<notin> set (Stack_list (freeVirtAddr R))" "[0..<num] = 0 # [1..<num]"
    using R(4) assms by (auto simp: upt_conv_Cons)
  then have "allocCons_loop n common [0..<num] R = Inl (Trap 27)"
    using allocCons_first_taken [OF R(2)] by (simp del: allocCons_loop.simps)
  moreover have "\<not> Stack_empty (freeVirtAddr ?R0)" "\<not> Stack_empty (freeVirtAddr R)"
    using nonempty [OF R0(1)] nonempty [OF R(2)] R0(2) R(4) assms by auto
  ultimately show ?thesis
    using R find used by (intro exI [of _ R]) (simp add: allocConsPage_def)
qed

theorem allocConsPage_second_traps_witness:
  "\<exists>R. allocConsPage 0xc0000000 255 2 True (VirtualMemRegion_new 255) = Inr (Some 0xc0000000, R) \<and>
    allocConsPage 0xc0000000 255 2 True R = Inl (Trap 27)"
  by (rule allocConsPage_second_traps) simp_all

end
