(* ===== verification/USha1.thy ===== *)
theory USha1
  imports Prelude
begin

text \<open>
  The SHA-1 implementation of the user program shafile (userland/shafile/sha1.c): the
  context, the streaming input, the padding and the compression of a block, with their
  loops as written. The specification below is the one-shot definition of the standard on
  a whole message; the development shows that the streaming code computes it however the
  message is cut into pieces.

  A null pointer is \<open>None\<close>. A message buffer and its length are one list.
\<close>

subsection \<open>The code\<close>

definition shaSuccess :: int where "shaSuccess = 0"
definition shaNull :: int where "shaNull = 1"
definition shaInputTooLong :: int where "shaInputTooLong = 2"
definition shaStateError :: int where "shaStateError = 3"
definition SHA1HashSize :: nat where "SHA1HashSize = 20"

record SHA1Context =
  Intermediate_Hash :: "u32 list"
  Length_Low :: u32
  Length_High :: u32
  Message_Block_Index :: nat
  Message_Block :: "u8 list"
  Computed :: int
  Corrupted :: int

definition SHA1CircularShift :: "nat \<Rightarrow> u32 \<Rightarrow> u32" where
  "SHA1CircularShift bits w = push_bit bits w OR drop_bit (32 - bits) w"

definition SHA1Reset :: "SHA1Context option \<Rightarrow> int \<times> SHA1Context option" where
  "SHA1Reset context =
     (case context of
        None \<Rightarrow> (shaNull, None)
      | Some c \<Rightarrow> (shaSuccess, Some (c\<lparr>Length_Low := 0, Length_High := 0, Message_Block_Index := 0,
          Intermediate_Hash := [0x67452301, 0xEFCDAB89, 0x98BADCFE, 0x10325476, 0xC3D2E1F0],
          Computed := 0, Corrupted := 0\<rparr>)))"

definition K :: "u32 list" where
  "K = [0x5A827999, 0x6ED9EBA1, 0x8F1BBCDC, 0xCA62C1D6]"

text \<open>The word sequence \<open>W\<close>: the two loops fill an array of 80 words.\<close>

definition W_init :: "u8 list \<Rightarrow> nat \<Rightarrow> u32" where
  "W_init mb t =
     push_bit 24 (ucast (mb ! (t * 4))) OR push_bit 16 (ucast (mb ! (t * 4 + 1)))
       OR push_bit 8 (ucast (mb ! (t * 4 + 2))) OR ucast (mb ! (t * 4 + 3))"

definition W_step :: "nat \<Rightarrow> u32 list \<Rightarrow> u32 list" where
  "W_step t W = W[t := SHA1CircularShift 1 (W ! (t - 3) XOR W ! (t - 8) XOR W ! (t - 14) XOR W ! (t - 16))]"

definition W_fill :: "u8 list \<Rightarrow> u32 list" where
  "W_fill mb = fold W_step [16..<80] (fold (\<lambda>t W. W[t := W_init mb t]) [0..<16] (replicate 80 0))"

type_synonym sha_regs = "u32 \<times> u32 \<times> u32 \<times> u32 \<times> u32"

text \<open>One round, with the value of the round function and the constant of its loop.\<close>

definition sha_round :: "(u32 \<Rightarrow> u32 \<Rightarrow> u32 \<Rightarrow> u32) \<Rightarrow> u32 \<Rightarrow> u32 list \<Rightarrow> nat \<Rightarrow> sha_regs \<Rightarrow> sha_regs" where
  "sha_round f k W t = (\<lambda>(A, B, C, D, E).
     let temp = SHA1CircularShift 5 A + f B C D + E + W ! t + k
     in (temp, A, SHA1CircularShift 30 B, C, D))"

definition SHA1ProcessMessageBlock :: "SHA1Context \<Rightarrow> SHA1Context" where
  "SHA1ProcessMessageBlock c =
     (let W = W_fill (Message_Block c); H = Intermediate_Hash c;
          r0 = (H ! 0, H ! 1, H ! 2, H ! 3, H ! 4);
          r1 = fold (sha_round (\<lambda>B C D. (B AND C) OR ((NOT B) AND D)) (K ! 0) W) [0..<20] r0;
          r2 = fold (sha_round (\<lambda>B C D. B XOR C XOR D) (K ! 1) W) [20..<40] r1;
          r3 = fold (sha_round (\<lambda>B C D. (B AND C) OR (B AND D) OR (C AND D)) (K ! 2) W) [40..<60] r2;
          (A, B, C, D, E) = fold (sha_round (\<lambda>B C D. B XOR C XOR D) (K ! 3) W) [60..<80] r3
      in c\<lparr>Intermediate_Hash := [H ! 0 + A, H ! 1 + B, H ! 2 + C, H ! 3 + D, H ! 4 + E],
           Message_Block_Index := 0\<rparr>)"

definition put_byte :: "u8 \<Rightarrow> SHA1Context \<Rightarrow> SHA1Context" where
  "put_byte b c = c\<lparr>Message_Block := (Message_Block c)[Message_Block_Index c := b],
     Message_Block_Index := Message_Block_Index c + 1\<rparr>"

text \<open>\<open>while (Message_Block_Index < limit) Message_Block[Message_Block_Index++] = 0\<close>\<close>

function fill_zero :: "nat \<Rightarrow> SHA1Context \<Rightarrow> SHA1Context" where
  "fill_zero limit c = (if Message_Block_Index c < limit then fill_zero limit (put_byte 0 c) else c)"
  by auto
termination by (relation "measure (\<lambda>(limit, c). limit - Message_Block_Index c)") (auto simp: put_byte_def)

declare fill_zero.simps [simp del]

definition store_length :: "SHA1Context \<Rightarrow> SHA1Context" where
  "store_length c =
     c\<lparr>Message_Block := (Message_Block c)
        [56 := ucast (drop_bit 24 (Length_High c)), 57 := ucast (drop_bit 16 (Length_High c)),
         58 := ucast (drop_bit 8 (Length_High c)), 59 := ucast (Length_High c),
         60 := ucast (drop_bit 24 (Length_Low c)), 61 := ucast (drop_bit 16 (Length_Low c)),
         62 := ucast (drop_bit 8 (Length_Low c)), 63 := ucast (Length_Low c)]\<rparr>"

definition SHA1PadMessage :: "SHA1Context \<Rightarrow> SHA1Context" where
  "SHA1PadMessage c =
     (let c1 = (if Message_Block_Index c > 55
                then fill_zero 56 (SHA1ProcessMessageBlock (fill_zero 64 (put_byte 0x80 c)))
                else fill_zero 56 (put_byte 0x80 c))
      in SHA1ProcessMessageBlock (store_length c1))"

fun SHA1Input_loop :: "u8 list \<Rightarrow> SHA1Context \<Rightarrow> SHA1Context" where
  "SHA1Input_loop [] c = c"
| "SHA1Input_loop (b # bs) c =
     (if Corrupted c \<noteq> 0 then c
      else
        let c1 = put_byte (b AND 0xFF) c;
            c2 = c1\<lparr>Length_Low := Length_Low c1 + 8\<rparr>;
            c3 = (if Length_Low c2 = 0 then
                    let c' = c2\<lparr>Length_High := Length_High c2 + 1\<rparr>
                    in if Length_High c' = 0 then c'\<lparr>Corrupted := 1\<rparr> else c'
                  else c2);
            c4 = (if Message_Block_Index c3 = 64 then SHA1ProcessMessageBlock c3 else c3)
        in SHA1Input_loop bs c4)"

definition SHA1Input :: "SHA1Context option \<Rightarrow> u8 list option \<Rightarrow> int \<times> SHA1Context option" where
  "SHA1Input context msg =
     (if msg = Some [] then (shaSuccess, context)
      else case (context, msg) of
        (Some c, Some bs) \<Rightarrow>
          if Computed c \<noteq> 0 then (shaStateError, Some (c\<lparr>Corrupted := shaStateError\<rparr>))
          else if Corrupted c \<noteq> 0 then (Corrupted c, Some c)
          else (shaSuccess, Some (SHA1Input_loop bs c))
      | _ \<Rightarrow> (shaNull, context))"

text \<open>
  The digest is returned beside the code; \<open>None\<close> when it is not written.
  \<open>md\<close> says whether the pointer to the digest is not null.
\<close>

definition digest :: "u32 list \<Rightarrow> u8 list" where
  "digest h = map (\<lambda>i. ucast (drop_bit (8 * (3 - i mod 4)) (h ! (i div 4)))) [0..<SHA1HashSize]"

definition SHA1Result :: "SHA1Context option \<Rightarrow> bool \<Rightarrow> int \<times> u8 list option \<times> SHA1Context option" where
  "SHA1Result context md =
     (case context of
        None \<Rightarrow> (shaNull, None, None)
      | Some c \<Rightarrow>
          if \<not> md then (shaNull, None, Some c)
          else if Corrupted c \<noteq> 0 then (Corrupted c, None, Some c)
          else
            let c1 = (if Computed c = 0
                      then (SHA1PadMessage c)\<lparr>Message_Block := replicate 64 0, Length_Low := 0,
                             Length_High := 0, Computed := 1\<rparr>
                      else c)
            in (shaSuccess, Some (digest (Intermediate_Hash c1)), Some c1))"

subsection \<open>The standard\<close>

definition word_of_bytes :: "u8 \<Rightarrow> u8 \<Rightarrow> u8 \<Rightarrow> u8 \<Rightarrow> u32" where
  "word_of_bytes a b c d = push_bit 24 (ucast a) OR push_bit 16 (ucast b) OR push_bit 8 (ucast c) OR ucast d"

function sched :: "u8 list \<Rightarrow> nat \<Rightarrow> u32" where
  "sched blk t =
     (if t < 16 then word_of_bytes (blk ! (4 * t)) (blk ! (4 * t + 1)) (blk ! (4 * t + 2)) (blk ! (4 * t + 3))
      else word_rotl 1 (sched blk (t - 3) XOR sched blk (t - 8) XOR sched blk (t - 14) XOR sched blk (t - 16)))"
  by auto
termination by (relation "measure snd") auto

declare sched.simps [simp del]

definition round_fun :: "nat \<Rightarrow> u32 \<Rightarrow> u32 \<Rightarrow> u32 \<Rightarrow> u32" where
  "round_fun t B C D =
     (if t < 20 then (B AND C) OR ((NOT B) AND D)
      else if 40 \<le> t \<and> t < 60 then (B AND C) OR (B AND D) OR (C AND D)
      else B XOR C XOR D)"

definition round_const :: "nat \<Rightarrow> u32" where
  "round_const t = (if t < 20 then 0x5A827999 else if t < 40 then 0x6ED9EBA1
     else if t < 60 then 0x8F1BBCDC else 0xCA62C1D6)"

definition round_step :: "u8 list \<Rightarrow> nat \<Rightarrow> sha_regs \<Rightarrow> sha_regs" where
  "round_step blk t = (\<lambda>(A, B, C, D, E).
     (word_rotl 5 A + round_fun t B C D + E + sched blk t + round_const t, A, word_rotl 30 B, C, D))"

definition compress :: "u32 list \<Rightarrow> u8 list \<Rightarrow> u32 list" where
  "compress H blk =
     (let (A, B, C, D, E) = fold (round_step blk) [0..<80] (H ! 0, H ! 1, H ! 2, H ! 3, H ! 4)
      in [H ! 0 + A, H ! 1 + B, H ! 2 + C, H ! 3 + D, H ! 4 + E])"

function absorb :: "u32 list \<Rightarrow> u8 list \<Rightarrow> u32 list" where
  "absorb H xs = (if length xs < 64 then H else absorb (compress H (take 64 xs)) (drop 64 xs))"
  by auto
termination by (relation "measure (\<lambda>(H, xs). length xs)") auto

declare absorb.simps [simp del]

definition be32 :: "u32 \<Rightarrow> u8 list" where
  "be32 w = [ucast (drop_bit 24 w), ucast (drop_bit 16 w), ucast (drop_bit 8 w), ucast w]"

definition low_word :: "nat \<Rightarrow> u32" where
  "low_word n = of_nat (8 * n)"

definition high_word :: "nat \<Rightarrow> u32" where
  "high_word n = of_nat (8 * n div 2 ^ 32)"

definition sha_pad :: "u8 list \<Rightarrow> u8 list" where
  "sha_pad msg = msg @ [0x80] @ replicate ((119 - length msg mod 64) mod 64) 0 @
     be32 (high_word (length msg)) @ be32 (low_word (length msg))"

definition sha1_init :: "u32 list" where
  "sha1_init = [0x67452301, 0xEFCDAB89, 0x98BADCFE, 0x10325476, 0xC3D2E1F0]"

definition sha1 :: "u8 list \<Rightarrow> u8 list" where
  "sha1 msg = digest (absorb sha1_init (sha_pad msg))"

subsection \<open>A block\<close>

lemma SHA1CircularShift_rotl:
  assumes "n < 32"
  shows "SHA1CircularShift n w = word_rotl n w"
proof (rule bit_word_eqI)
  fix i assume i: "i < LENGTH(32)"
  show "bit (SHA1CircularShift n w) i = bit (word_rotl n w) i"
  proof (cases "n \<le> i")
    case True
    then have "(i + (32 - n)) mod 32 = i - n"
      using i assms by (simp add: mod_if)
    moreover have "\<not> bit w (32 - n + i)"
      using True bit_imp_le_length [of w "32 - n + i"] by auto
    ultimately show ?thesis
      using True i assms by (simp add: SHA1CircularShift_def bit_simps)
  next
    case False
    then have "(i + (32 - n)) mod 32 = 32 - n + i"
      using assms by (subst mod_less) auto
    then show ?thesis
      using False i assms by (simp add: SHA1CircularShift_def bit_simps)
  qed
qed

lemma W_init_sched: "t < 16 \<Longrightarrow> W_init blk t = sched blk t"
  by (simp add: W_init_def sched.simps [of blk t] word_of_bytes_def mult.commute)

lemma W_first:
  "n \<le> 16 \<Longrightarrow> length (fold (\<lambda>t W. W[t := W_init blk t]) [0..<n] (replicate 80 0)) = 80 \<and>
   (\<forall>t < n. fold (\<lambda>t W. W[t := W_init blk t]) [0..<n] (replicate 80 0) ! t = sched blk t)"
proof (induction n)
  case (Suc n)
  then show ?case by (auto simp: nth_list_update less_Suc_eq W_init_sched)
qed simp

lemma W_rest:
  assumes "length W0 = 80" and "\<forall>t < 16. W0 ! t = sched blk t" and "16 \<le> n" and "n \<le> 80"
  shows "length (fold W_step [16..<n] W0) = 80 \<and> (\<forall>t < n. fold W_step [16..<n] W0 ! t = sched blk t)"
  using assms(3,4)
proof (induction n rule: nat_induct_at_least)
  case base
  then show ?case using assms by simp
next
  case (Suc n)
  define W where "W = fold W_step [16..<n] W0"
  have W: "length W = 80" "\<And>t. t < n \<Longrightarrow> W ! t = sched blk t"
    using Suc by (simp_all add: W_def)
  have "sched blk n = SHA1CircularShift 1
      (sched blk (n - 3) XOR sched blk (n - 8) XOR sched blk (n - 14) XOR sched blk (n - 16))"
    using Suc.hyps by (subst sched.simps) (simp add: SHA1CircularShift_rotl)
  then have "W_step n W = W[n := sched blk n]"
    using W(2) Suc.hyps by (simp add: W_step_def)
  moreover have "fold W_step [16..<Suc n] W0 = W_step n W"
    using Suc.hyps by (simp add: W_def)
  ultimately show ?case
    using W Suc.prems by (auto simp: nth_list_update less_Suc_eq)
qed

lemma W_fill_sched: "t < 80 \<Longrightarrow> W_fill blk ! t = sched blk t"
  using W_rest [OF conjunct1 [OF W_first [OF order_refl]] conjunct2 [OF W_first [OF order_refl]], of 80 blk]
  by (simp add: W_fill_def)

lemma sha_round_step:
  assumes "t < 80" and "f = round_fun t" and "k = round_const t"
  shows "sha_round f k (W_fill blk) t = round_step blk t"
  using assms W_fill_sched [of t blk]
  by (auto simp: sha_round_def round_step_def SHA1CircularShift_rotl Let_def fun_eq_iff)

lemma process_block:
  "SHA1ProcessMessageBlock c =
     c\<lparr>Intermediate_Hash := compress (Intermediate_Hash c) (Message_Block c), Message_Block_Index := 0\<rparr>"
proof -
  let ?b = "Message_Block c"
  have loop: "fold (sha_round f k (W_fill ?b)) ts r = fold (round_step ?b) ts r"
    if "\<forall>t \<in> set ts. t < 80 \<and> f = round_fun t \<and> k = round_const t" for f k ts r
    using that by (intro fold_cong) (simp_all add: sha_round_step)
  have split: "[0..<80] = [0..<20] @ [20..<40] @ [40..<60] @ [60..<80]"
    by code_simp
  show ?thesis
    unfolding SHA1ProcessMessageBlock_def compress_def Let_def split fold_append o_apply
    by (subst loop, simp add: round_fun_def round_const_def K_def fun_eq_iff)+
      (simp add: case_prod_unfold)
qed

subsection \<open>A stream of blocks\<close>

lemma absorb_short [simp]: "length xs < 64 \<Longrightarrow> absorb H xs = H"
  by (simp add: absorb.simps)

lemma absorb_append:
  "length xs = 64 * k \<Longrightarrow> absorb H (xs @ ys) = absorb (absorb H xs) ys"
proof (induction k arbitrary: H xs)
  case (Suc k)
  have "absorb H (xs @ ys) = absorb (compress H (take 64 xs)) (drop 64 xs @ ys)"
    using Suc.prems by (subst absorb.simps) simp
  also have "\<dots> = absorb (absorb (compress H (take 64 xs)) (drop 64 xs)) ys"
    using Suc.prems by (intro Suc.IH) simp
  also have "absorb (compress H (take 64 xs)) (drop 64 xs) = absorb H xs"
    using Suc.prems by (subst (2) absorb.simps) simp
  finally show ?case .
qed simp

lemma absorb_one: "length b = 64 \<Longrightarrow> absorb H b = compress H b"
  by (subst absorb.simps) simp

text \<open>
  The context after the bytes \<open>msg\<close>: whole blocks are absorbed, the rest of the bytes
  are in the block, and the two length words hold the number of bits.
\<close>

definition ctx_rep :: "SHA1Context \<Rightarrow> u8 list \<Rightarrow> bool" where
  "ctx_rep c msg \<longleftrightarrow>
     (\<exists>xs ys k. msg = xs @ ys \<and> length xs = 64 * k \<and> length ys < 64 \<and>
        Message_Block_Index c = length ys \<and> take (length ys) (Message_Block c) = ys \<and>
        Intermediate_Hash c = absorb sha1_init xs) \<and>
     length (Message_Block c) = 64 \<and>
     Length_Low c = low_word (length msg) \<and> Length_High c = high_word (length msg) \<and>
     Computed c = 0 \<and> Corrupted c = 0"

lemma byte_mask: "b AND 0xFF = (b :: u8)"
proof -
  have mask: "(0xFF :: u8) = -1" by simp
  show ?thesis unfolding mask by simp
qed

lemma div_eight_same:
  fixes m :: nat
  assumes "8 * (m + 1) mod 4294967296 \<noteq> 0"
  shows "8 * m div 4294967296 = 8 * (m + 1) div 4294967296"
proof -
  define q r where "q = 8 * (m + 1) div 4294967296" and "r = 8 * (m + 1) mod 4294967296"
  have "8 * (m + 1) = 4294967296 * q + r"
    unfolding q_def r_def by (rule mult_div_mod_eq [symmetric])
  moreover have "r < 4294967296"
    unfolding r_def by (rule mod_less_divisor) simp
  moreover have "r \<noteq> 0"
    unfolding r_def by (rule assms)
  ultimately have qr: "8 * (m + 1) = 4294967296 * q + r" "r < 4294967296" "r \<noteq> 0"
    by blast+
  have "8 dvd 4294967296 * q + r"
    using qr(1) by (metis dvd_triv_left)
  moreover have "8 dvd 4294967296 * q"
    by (rule dvd_mult2) simp
  ultimately have "8 dvd r"
    by (simp only: dvd_add_right_iff)
  with qr have "8 \<le> r" by (simp add: dvd_imp_le)
  with qr have "8 * m = 4294967296 * q + (r - 8)" by simp
  with qr have "8 * m div 4294967296 = q" by simp
  then show ?thesis by (simp only: q_def)
qed

lemma length_step:
  assumes "8 * (n + 1) < 2 ^ 64"
  shows "low_word n + 8 = low_word (n + 1)"
    and "low_word (n + 1) = 0 \<Longrightarrow> high_word n + 1 = high_word (n + 1) \<and> high_word (n + 1) \<noteq> 0"
    and "low_word (n + 1) \<noteq> 0 \<Longrightarrow> high_word n = high_word (n + 1)"
proof -
  show "low_word n + 8 = low_word (n + 1)"
    by (simp add: low_word_def)
  have zero: "low_word (n + 1) = 0 \<longleftrightarrow> 4294967296 dvd 8 * (n + 1)"
    unfolding low_word_def by (simp only: word_of_nat_eq_0_iff) simp
  show "high_word n + 1 = high_word (n + 1) \<and> high_word (n + 1) \<noteq> 0" if z: "low_word (n + 1) = 0"
  proof -
    obtain q where q: "8 * (n + 1) = 4294967296 * q" using z zero by auto
    obtain p where p: "q = Suc p" using q by (cases q) auto
    have "8 * n = 4294967288 + 4294967296 * p"
      using q p by simp
    then have n: "high_word n = of_nat p"
      by (simp add: high_word_def)
    have "8 * (n + 1) div 2 ^ 32 = q"
      by (subst q) simp
    then have n1: "high_word (n + 1) = of_nat q"
      by (simp only: high_word_def)
    have "q < 4294967296" using q assms by simp
    then have "(of_nat q :: u32) \<noteq> 0"
      using p by (simp only: word_of_nat_eq_0_iff) (auto dest: dvd_imp_le)
    then show ?thesis
      unfolding n n1 using p by (simp add: add.commute)
  qed
  show "high_word n = high_word (n + 1)" if z: "low_word (n + 1) \<noteq> 0"
  proof -
    have "8 * (n + 1) mod 4294967296 \<noteq> 0" using z unfolding zero by (simp only: dvd_eq_mod_eq_0) simp
    then have "8 * n div 4294967296 = 8 * (n + 1) div 4294967296"
      by (rule div_eight_same)
    then show ?thesis by (simp only: high_word_def) simp
  qed
qed

lemma ctx_rep_byte:
  assumes "ctx_rep c msg" and "8 * (length msg + 1) < 2 ^ 64"
  shows "ctx_rep (SHA1Input_loop [b] c) (msg @ [b])"
proof -
  let ?n = "length msg"
  from assms(1) obtain xs ys k where r: "msg = xs @ ys" "length xs = 64 * k" "length ys < 64"
    "Message_Block_Index c = length ys" "take (length ys) (Message_Block c) = ys"
    "Intermediate_Hash c = absorb sha1_init xs"
    and c: "length (Message_Block c) = 64" "Length_Low c = low_word ?n"
    "Length_High c = high_word ?n" "Computed c = 0" "Corrupted c = 0"
    by (auto simp: ctx_rep_def)
  define h l :: u32 where "h = high_word (?n + 1)" and "l = low_word (?n + 1)"
  define c3 where "c3 = c\<lparr>Message_Block := (Message_Block c)[length ys := b],
      Message_Block_Index := length ys + 1, Length_Low := l, Length_High := h\<rparr>"
  have loop: "SHA1Input_loop [b] c = (if length ys + 1 = 64 then SHA1ProcessMessageBlock c3 else c3)"
    using c r(4) length_step [OF assms(2)]
    by (cases c) (auto simp: put_byte_def byte_mask c3_def h_def l_def Let_def)
  have tk: "take (Suc (length ys)) (Message_Block c3) = ys @ [b]"
    using r(3,5) c(1) by (simp add: c3_def take_Suc_update)
  show ?thesis
  proof (cases "length ys + 1 = 64")
    case True
    then have blk: "Message_Block c3 = ys @ [b]" using tk c(1) by (simp add: c3_def)
    have "absorb sha1_init (xs @ (ys @ [b])) = compress (absorb sha1_init xs) (ys @ [b])"
      using absorb_append [OF r(2), of sha1_init "ys @ [b]"] True by (simp add: absorb_one)
    then have res: "SHA1Input_loop [b] c =
        c3\<lparr>Intermediate_Hash := absorb sha1_init (msg @ [b]), Message_Block_Index := 0\<rparr>"
      unfolding loop using True blk r(1,6) by (simp add: process_block c3_def)
    have "length (msg @ [b]) = 64 * (k + 1)"
      using r(1,2) True by simp
    then show ?thesis
      unfolding ctx_rep_def res using c
      by (intro conjI exI [of _ "msg @ [b]"] exI [of _ "[]"] exI [of _ "k + 1"])
        (simp_all add: c3_def h_def l_def)
  next
    case False
    with r(3) have "length ys + 1 < 64" by simp
    moreover have res: "SHA1Input_loop [b] c = c3"
      unfolding loop using False by simp
    ultimately show ?thesis
      unfolding ctx_rep_def res using tk c r
      by (intro conjI exI [of _ xs] exI [of _ "ys @ [b]"] exI [of _ k])
        (simp_all add: c3_def h_def l_def)
  qed
qed

lemma input_loop_append:
  "SHA1Input_loop (xs @ ys) c = SHA1Input_loop ys (SHA1Input_loop xs c)"
proof (induction xs c rule: SHA1Input_loop.induct)
  case (2 b bs c)
  show ?case
  proof (cases "Corrupted c = 0")
    case False
    then have "SHA1Input_loop zs c = c" for zs by (cases zs) simp_all
    then show ?thesis by simp
  next
    case True
    then show ?thesis using 2 by (simp add: Let_def)
  qed
qed simp

lemma ctx_rep_input:
  "ctx_rep c msg \<Longrightarrow> 8 * length (msg @ bs) < 2 ^ 64 \<Longrightarrow> ctx_rep (SHA1Input_loop bs c) (msg @ bs)"
proof (induction bs rule: rev_induct)
  case (snoc b bs)
  then show ?case
    using ctx_rep_byte [of "SHA1Input_loop bs c" "msg @ bs" b] by (simp add: input_loop_append)
qed simp

subsection \<open>Padding\<close>

lemma fill_zero_eq:
  "Message_Block_Index c \<le> limit \<Longrightarrow> limit \<le> length (Message_Block c) \<Longrightarrow>
   fill_zero limit c = c\<lparr>Message_Block := take (Message_Block_Index c) (Message_Block c) @
     replicate (limit - Message_Block_Index c) 0 @ drop limit (Message_Block c), Message_Block_Index := limit\<rparr>"
proof (induction limit c rule: fill_zero.induct)
  case (1 limit c)
  show ?case
  proof (cases "Message_Block_Index c < limit")
    case True
    then have "limit - Message_Block_Index c = Suc (limit - Suc (Message_Block_Index c))" by simp
    with True 1 show ?thesis
      by (subst fill_zero.simps) (simp add: put_byte_def take_Suc_update)
  next
    case False
    with 1(2) have "Message_Block_Index c = limit" by simp
    then show ?thesis by (subst fill_zero.simps) (cases c; simp)
  qed
qed

lemma eight_bytes:
  "length q = 8 \<Longrightarrow> \<exists>a0 a1 a2 a3 a4 a5 a6 a7. q = [a0, a1, a2, a3, a4, a5, a6, a7]"
  by (auto simp: length_Suc_conv eval_nat_numeral)

lemma store_length_eq:
  assumes "length (Message_Block c) = 64"
  shows "store_length c = c\<lparr>Message_Block := take 56 (Message_Block c) @ be32 (Length_High c) @ be32 (Length_Low c)\<rparr>"
proof -
  obtain p q where b: "Message_Block c = p @ q" "length p = 56" "length q = 8"
    using assms by (intro that [of "take 56 (Message_Block c)" "drop 56 (Message_Block c)"]) simp_all
  then obtain a0 a1 a2 a3 a4 a5 a6 a7 where "q = [a0, a1, a2, a3, a4, a5, a6, a7]"
    using eight_bytes by blast
  with b show ?thesis
    by (simp add: store_length_def be32_def list_update_append)
qed

lemma pad_zeros:
  fixes n k :: nat
  assumes "n < 64"
  shows "(119 - (64 * k + n) mod 64) mod 64 = (if n \<le> 55 then 55 - n else 119 - n)"
proof -
  have "(64 * k + n) mod 64 = n" using assms by simp
  moreover have "(119 - n) mod 64 = 55 - n" if "n \<le> 55"
  proof -
    have "119 - n = (55 - n) + 64" using that by simp
    then have "(119 - n) mod 64 = (55 - n) mod 64" by (simp only: mod_add_self2)
    then show ?thesis by simp
  qed
  ultimately show ?thesis using assms by auto
qed

lemma pad_hash:
  assumes "ctx_rep c msg"
  shows "Intermediate_Hash (SHA1PadMessage c) = absorb sha1_init (sha_pad msg) \<and> Corrupted (SHA1PadMessage c) = 0"
proof -
  from assms obtain xs ys k where r: "msg = xs @ ys" "length xs = 64 * k" "length ys < 64"
    "Message_Block_Index c = length ys" "take (length ys) (Message_Block c) = ys"
    "Intermediate_Hash c = absorb sha1_init xs"
    and c: "length (Message_Block c) = 64" "Length_Low c = low_word (length msg)"
    "Length_High c = high_word (length msg)" "Corrupted c = 0"
    by (auto simp: ctx_rep_def)
  let ?n = "length ys" and ?tail = "be32 (high_word (length msg)) @ be32 (low_word (length msg))"
  have tail: "length ?tail = 8" by (simp add: be32_def)
  define c1 where "c1 = put_byte 0x80 c"
  have c1: "take (?n + 1) (Message_Block c1) = ys @ [0x80]" "Message_Block_Index c1 = ?n + 1"
    "length (Message_Block c1) = 64" "Intermediate_Hash c1 = absorb sha1_init xs"
    "Length_Low c1 = low_word (length msg)" "Length_High c1 = high_word (length msg)" "Corrupted c1 = 0"
    using r c by (simp_all add: c1_def put_byte_def take_Suc_update)
  show ?thesis
  proof (cases "?n \<le> 55")
    case True
    let ?blk = "ys @ [0x80] @ replicate (55 - ?n) 0 @ ?tail"
    have suc: "56 - ?n = Suc (55 - ?n)" using True by simp
    have "SHA1PadMessage c = SHA1ProcessMessageBlock (store_length (fill_zero 56 c1))"
      using True r(4) by (simp add: SHA1PadMessage_def c1_def)
    moreover have "Message_Block (store_length (fill_zero 56 c1)) = ?blk"
      using True c1 by (simp add: fill_zero_eq store_length_eq suc)
    moreover have "Intermediate_Hash (store_length (fill_zero 56 c1)) = absorb sha1_init xs"
      "Corrupted (store_length (fill_zero 56 c1)) = 0"
      using True c1 by (simp_all add: fill_zero_eq store_length_eq)
    moreover have "absorb sha1_init (xs @ ?blk) = compress (absorb sha1_init xs) ?blk"
      using absorb_append [OF r(2), of sha1_init ?blk] True tail by (simp add: absorb_one)
    moreover have "sha_pad msg = xs @ ?blk"
      using True r(1-3) pad_zeros [of ?n k] by (simp add: sha_pad_def)
    ultimately show ?thesis by (simp add: process_block)
  next
    case False
    let ?b1 = "ys @ [0x80] @ replicate (63 - ?n) 0" and ?b2 = "replicate 56 0 @ ?tail"
    define c2 where "c2 = SHA1ProcessMessageBlock (fill_zero 64 c1)"
    have c2: "Message_Block_Index c2 = 0" "length (Message_Block c2) = 64"
      "Intermediate_Hash c2 = compress (absorb sha1_init xs) ?b1"
      "Length_Low c2 = low_word (length msg)" "Length_High c2 = high_word (length msg)" "Corrupted c2 = 0"
      using False c1 r(3) by (simp_all add: c2_def process_block fill_zero_eq)
    have "SHA1PadMessage c = SHA1ProcessMessageBlock (store_length (fill_zero 56 c2))"
      using False r(4) by (simp add: SHA1PadMessage_def c1_def c2_def)
    moreover have "Message_Block (store_length (fill_zero 56 c2)) = ?b2"
      "Intermediate_Hash (store_length (fill_zero 56 c2)) = compress (absorb sha1_init xs) ?b1"
      "Corrupted (store_length (fill_zero 56 c2)) = 0"
      using c2 by (simp_all add: fill_zero_eq store_length_eq)
    moreover have "absorb sha1_init (xs @ ?b1 @ ?b2) = compress (compress (absorb sha1_init xs) ?b1) ?b2"
      using absorb_append [OF r(2), of sha1_init "?b1 @ ?b2"]
        absorb_append [of ?b1 1 "absorb sha1_init xs" ?b2] False r(3) tail by (simp add: absorb_one)
    moreover have "sha_pad msg = xs @ ?b1 @ ?b2"
    proof -
      have "119 - ?n = (63 - ?n) + 56" using r(3) by simp
      then have "replicate (119 - ?n) (0 :: u8) = replicate (63 - ?n) 0 @ replicate 56 0"
        by (metis replicate_add)
      then show ?thesis
        using False r(1-3) pad_zeros [of ?n k] by (simp add: sha_pad_def)
    qed
    ultimately show ?thesis by (simp add: process_block)
  qed
qed

subsection \<open>The whole computation\<close>

fun feed :: "u8 list list \<Rightarrow> SHA1Context option \<Rightarrow> int list \<times> SHA1Context option" where
  "feed [] c = ([], c)"
| "feed (p # ps) c =
     (case SHA1Input c (Some p) of (r, c1) \<Rightarrow> case feed ps c1 of (rs, c2) \<Rightarrow> (r # rs, c2))"

lemma feed_rep:
  "ctx_rep c msg \<Longrightarrow> 8 * length (msg @ concat ps) < 2 ^ 64 \<Longrightarrow>
   \<exists>c'. feed ps (Some c) = (replicate (length ps) shaSuccess, Some c') \<and> ctx_rep c' (msg @ concat ps)"
proof (induction ps arbitrary: c msg)
  case (Cons p ps)
  have "8 * length (msg @ p) < 2 ^ 64" using Cons.prems(2) by simp
  then have rep: "ctx_rep (SHA1Input_loop p c) (msg @ p)" using ctx_rep_input Cons.prems(1) by blast
  have "SHA1Input (Some c) (Some p) = (shaSuccess, Some (SHA1Input_loop p c))"
    using Cons.prems(1) by (auto simp: SHA1Input_def ctx_rep_def)
  with Cons.IH [OF rep] Cons.prems(2) show ?case by auto
qed simp

lemma reset_rep:
  assumes "length (Message_Block c) = 64"
  shows "\<exists>c'. SHA1Reset (Some c) = (shaSuccess, Some c') \<and> ctx_rep c' []"
  using assms
  by (auto simp: SHA1Reset_def ctx_rep_def sha1_init_def low_word_def high_word_def)

lemma result_rep:
  "ctx_rep c msg \<Longrightarrow> \<exists>c'. SHA1Result (Some c) True = (shaSuccess, Some (sha1 msg), Some c')"
  using pad_hash [of c msg] by (auto simp: SHA1Result_def sha1_def Let_def ctx_rep_def)

text \<open>
  C20: the streaming code computes SHA-1. From any context, a reset, any number of inputs
  (of any sizes, together shorter than 2 ^ 64 bits) and a request for the result return
  success at every call, and the digest returned is that of the standard for the
  concatenation of the inputs.
\<close>

theorem sha1_streaming_correct:
  assumes "length (Message_Block c) = 64" and "8 * length (concat pieces) < 2 ^ 64"
  shows "\<exists>c0 c1 c2. SHA1Reset (Some c) = (shaSuccess, Some c0) \<and>
    feed pieces (Some c0) = (replicate (length pieces) shaSuccess, Some c1) \<and>
    SHA1Result (Some c1) True = (shaSuccess, Some (sha1 (concat pieces)), Some c2)"
proof -
  obtain c0 where c0: "SHA1Reset (Some c) = (shaSuccess, Some c0)" "ctx_rep c0 []"
    using reset_rep [OF assms(1)] by blast
  obtain c1 where c1: "feed pieces (Some c0) = (replicate (length pieces) shaSuccess, Some c1)"
    "ctx_rep c1 (concat pieces)"
    using feed_rep [OF c0(2), of pieces] assms(2) by auto
  from c0(1) c1(1) result_rep [OF c1(2)] show ?thesis by blast
qed

definition garbage_context :: SHA1Context where
  "garbage_context = \<lparr>Intermediate_Hash = [1, 2, 3, 4, 5], Length_Low = 7, Length_High = 9,
     Message_Block_Index = 3, Message_Block = replicate 64 0xAA, Computed = 1, Corrupted = 3\<rparr>"

theorem sha1_streaming_correct_witness:
  "\<exists>c0 c1 c2. SHA1Reset (Some garbage_context) = (shaSuccess, Some c0) \<and>
    feed [[97], [98, 99]] (Some c0) = (replicate (length [[97 :: u8], [98, 99]]) shaSuccess, Some c1) \<and>
    SHA1Result (Some c1) True = (shaSuccess, Some (sha1 (concat [[97], [98, 99]])), Some c2)"
  by (rule sha1_streaming_correct) (simp_all add: garbage_context_def)

lemma fill_zero_keeps: "Corrupted (fill_zero limit c) = Corrupted c"
proof (induction limit c rule: fill_zero.induct)
  case (1 limit c)
  then show ?case by (subst fill_zero.simps) (simp add: put_byte_def)
qed

lemma process_keeps: "Corrupted (SHA1ProcessMessageBlock c) = Corrupted c"
  unfolding SHA1ProcessMessageBlock_def Let_def by (simp only: prod.case_distrib [of Corrupted] split_beta) simp

lemma pad_keeps: "Corrupted (SHA1PadMessage c) = Corrupted c"
  unfolding SHA1PadMessage_def Let_def process_keeps
  by (simp add: store_length_def fill_zero_keeps put_byte_def process_keeps)

text \<open>
  C21: a context is used up by its result. Asking again returns the same digest; feeding any
  further bytes is refused with the state error, and from then on every input of bytes and
  every request for the result returns that error and no digest.
\<close>

theorem sha1_used_up:
  assumes "SHA1Result (Some c) True = (shaSuccess, Some d, Some c1)" and "bs \<noteq> []" and "bs' \<noteq> []"
  shows "SHA1Result (Some c1) True = (shaSuccess, Some d, Some c1) \<and>
    (\<exists>c2. SHA1Input (Some c1) (Some bs) = (shaStateError, Some c2) \<and>
      SHA1Input (Some c2) (Some bs') = (shaStateError, Some c2) \<and>
      SHA1Result (Some c2) True = (shaStateError, None, Some c2))"
proof
  have c1: "Computed c1 \<noteq> 0" "Corrupted c1 = 0" "d = digest (Intermediate_Hash c1)"
    using assms(1) by (auto simp: SHA1Result_def Let_def shaSuccess_def pad_keeps split: if_splits)
  then show "SHA1Result (Some c1) True = (shaSuccess, Some d, Some c1)"
    by (simp add: SHA1Result_def)
  show "\<exists>c2. SHA1Input (Some c1) (Some bs) = (shaStateError, Some c2) \<and>
      SHA1Input (Some c2) (Some bs') = (shaStateError, Some c2) \<and>
      SHA1Result (Some c2) True = (shaStateError, None, Some c2)"
    using c1 assms(2,3) by (simp add: SHA1Input_def SHA1Result_def shaStateError_def)
qed

theorem sha1_used_up_witness:
  "\<exists>c1 d. SHA1Result (Some c1) True = (shaSuccess, Some d, Some c1) \<and>
    (\<exists>c2. SHA1Input (Some c1) (Some [7]) = (shaStateError, Some c2) \<and>
      SHA1Input (Some c2) (Some [8]) = (shaStateError, Some c2) \<and>
      SHA1Result (Some c2) True = (shaStateError, None, Some c2))"
proof -
  obtain c0 where c0: "SHA1Reset (Some garbage_context) = (shaSuccess, Some c0)" "ctx_rep c0 []"
    using reset_rep [of garbage_context] by (auto simp: garbage_context_def)
  obtain c1 where "SHA1Result (Some c0) True = (shaSuccess, Some (sha1 []), Some c1)"
    using result_rep [OF c0(2)] by blast
  from sha1_used_up [OF this, of "[7]" "[8]"] show ?thesis by blast
qed

end
