(* ===== verification/KKissFS.thy ===== *)
theory KKissFS
  imports KHashTable
begin

text \<open>
  The read-only file system of the boot module, inc/fs/kiss.h and fs/kissfs.cpp. An image
  is a boot block (the counts and at most 64 directory entries of 64 bytes), one block per
  inode (a size and the numbers of its data blocks), and the data blocks, all of 4096 bytes.
  \<open>initFromMemoryAddress\<close> reads the image into the tables below; file names are copied
  to an array that lies at the address \<open>dbase\<close> which \<open>new\<close> returns.

  32-bit counts are natural numbers, with the wrap-around written where it can happen.
  \<open>readData\<close> returns the bytes it copies to the caller's buffer beside its result.
\<close>

subsection \<open>Reading the image\<close>

definition read32 :: "mem \<Rightarrow> nat \<Rightarrow> nat" where
  "read32 m a = unat (m a) + 256 * unat (m (a + 1)) + 65536 * unat (m (a + 2)) + 16777216 * unat (m (a + 3))"

record Reader =
  startingAddr :: nat
  rread :: nat

definition Reader_new :: "nat \<Rightarrow> Reader" where
  "Reader_new a = \<lparr>startingAddr = a, rread = 0\<rparr>"

text \<open>\<open>>> val\<close> for a \<open>uint32_t\<close> and for \<open>name_tmp\<close>, and skipping.\<close>

definition Reader_u32 :: "mem \<Rightarrow> Reader \<Rightarrow> nat \<times> Reader" where
  "Reader_u32 m r = (read32 m (startingAddr r + rread r), r\<lparr>rread := rread r + 4\<rparr>)"

definition Reader_name :: "mem \<Rightarrow> Reader \<Rightarrow> u8 list \<times> Reader" where
  "Reader_name m r = (load_bytes m (startingAddr r + rread r) MaxFilenameLength, r\<lparr>rread := rread r + MaxFilenameLength\<rparr>)"

definition Reader_skip :: "nat \<Rightarrow> Reader \<Rightarrow> Reader" where
  "Reader_skip n r = r\<lparr>rread := rread r + n\<rparr>"

definition Reader_reposition :: "nat \<Rightarrow> Reader \<Rightarrow> Reader" where
  "Reader_reposition off r = r\<lparr>rread := off\<rparr>"

definition SPECIAL_DEVICE :: nat where "SPECIAL_DEVICE = 0"
definition DIRECTORY :: nat where "DIRECTORY = 1"
definition NORMAL_FILE :: nat where "NORMAL_FILE = 2"
definition MaxNumFiles :: nat where "MaxNumFiles = 64"
definition BlockSize :: nat where "BlockSize = 4096"

lemmas kiss_consts = SPECIAL_DEVICE_def DIRECTORY_def NORMAL_FILE_def MaxNumFiles_def BlockSize_def

text \<open>The file name of an entry is an array in memory; the record holds its address.\<close>

record dentry_t =
  filename :: Filename
  filetype :: nat
  inode :: nat

record inode_t =
  fsize :: nat
  datablocks :: "nat list"
  numDataBlocks :: nat

record KissFS =
  dentryIndexOfFilename :: "(Filename, nat) HashEntry list"
  dentries :: "dentry_t list"
  inodes :: "inode_t list"
  numDentries :: nat
  numInodes :: nat
  numTotalDataBlocks :: nat
  imageStartingAddress :: nat
  numBlocks :: nat

definition sizeof_dentry :: nat where
  "sizeof_dentry = 44"

definition ceil_div :: "nat \<Rightarrow> nat \<Rightarrow> nat" where
  "ceil_div len blkSize = (if len mod blkSize > 0 then len div blkSize + 1 else len div blkSize)"

text \<open>One round of the loop over the directory entries; the 33rd byte of the name stays 0.\<close>

definition load_dentry :: "nat \<Rightarrow> nat \<Rightarrow> mem \<times> Reader \<Rightarrow> dentry_t \<times> mem \<times> Reader" where
  "load_dentry dbase i s =
     (case s of (m, r) \<Rightarrow>
        let (name, r1) = Reader_name m r;
            (ty, r2) = Reader_u32 m r1;
            (ino, r3) = Reader_u32 m r2;
            a = dbase + sizeof_dentry * i
        in (\<lparr>filename = a, filetype = ty, inode = ino\<rparr>, store_bytes m a (name @ [0]), Reader_skip 24 r3))"

fun load_dentries :: "nat \<Rightarrow> nat list \<Rightarrow> mem \<times> Reader \<Rightarrow> dentry_t list \<times> mem \<times> Reader" where
  "load_dentries dbase [] s = ([], s)"
| "load_dentries dbase (i # is) s =
     (let (d, s1) = load_dentry dbase i s; (ds, s2) = load_dentries dbase is s1 in (d # ds, s2))"

text \<open>The data block numbers of an inode: the array has 1023 of them, a longer list overruns it.\<close>

fun load_blocks :: "mem \<Rightarrow> nat \<Rightarrow> Reader \<Rightarrow> nat list" where
  "load_blocks m 0 r = []"
| "load_blocks m (Suc n) r = (case Reader_u32 m r of (b, r1) \<Rightarrow> b # load_blocks m n r1)"

definition load_inode :: "mem \<Rightarrow> Reader \<Rightarrow> nat \<Rightarrow> inode_t kresult" where
  "load_inode m r i =
     (let r0 = Reader_reposition (BlockSize * (i + 1)) r;
          (sz, r1) = Reader_u32 m r0;
          n = ceil_div sz BlockSize
      in if n > BlockSize div 4 - 1 then Inl Fault
         else Inr \<lparr>fsize = sz, datablocks = load_blocks m n r1, numDataBlocks = n\<rparr>)"

fun load_inodes :: "mem \<Rightarrow> Reader \<Rightarrow> nat list \<Rightarrow> inode_t list kresult" where
  "load_inodes m r [] = Inr []"
| "load_inodes m r (i # is) =
     kbind (load_inode m r i) (\<lambda>x. kbind (load_inodes m r is) (\<lambda>xs. Inr (x # xs)))"

text \<open>
  The part of \<open>initFromMemoryAddress\<close> that follows the mapping of the module: the image
  lies at \<open>start\<close> and ends before \<open>start + len\<close>. The outer option is the probing
  of the hash table.
\<close>

definition load_image :: "mem \<Rightarrow> nat \<Rightarrow> nat \<Rightarrow> nat \<Rightarrow> (KissFS \<times> mem) kresult option" where
  "load_image m start len dbase =
     (let (nd0, r1) = Reader_u32 m (Reader_new start);
          (ni0, r2) = Reader_u32 m r1;
          (nb, r3) = Reader_u32 m r2;
          r4 = Reader_skip 52 r3;
          nd = (if nd0 > MaxNumFiles then MaxNumFiles else nd0);
          (ds, m1, r5) = load_dentries dbase [0..<nd] (m, r4);
          ni = (if ni0 > MaxNumFiles then MaxNumFiles else ni0)
      in case load_inodes m1 r5 [0..<ni] of
           Inl e \<Rightarrow> Some (Inl e)
         | Inr ins \<Rightarrow>
             map_option (\<lambda>table. Inr
               (\<lparr>dentryIndexOfFilename = table, dentries = ds, inodes = ins, numDentries = nd,
                 numInodes = ni, numTotalDataBlocks = nb, imageStartingAddress = start,
                 numBlocks = len div BlockSize\<rparr>, m1))
               (fill (Filename_eq m1) (HashFunc_hash m1) (zip (map filename ds) [0..<nd])
                  (LinearProbingHashTable_new 133 0 0)))"

subsection \<open>Files\<close>

text \<open>The data of an open file: the union holds a position in the directory or an inode.\<close>

datatype KissFD = DirData nat nat | FileData nat nat

definition KissFS_open :: "mem \<Rightarrow> KissFS \<Rightarrow> Filename \<Rightarrow> KissFD option option" where
  "KissFS_open m fs fn =
     (case LinearProbingHashTable_get (Filename_eq m) (HashFunc_hash m) (dentryIndexOfFilename fs) fn of
        None \<Rightarrow> None
      | Some None \<Rightarrow> Some None
      | Some (Some i) \<Rightarrow>
          Some (Some (if filetype (dentries fs ! i) = DIRECTORY then DirData 0 (numDentries fs)
                      else FileData (filetype (dentries fs ! i) mod 256) (inode (dentries fs ! i)))))"

definition readBlock :: "mem \<Rightarrow> KissFS \<Rightarrow> nat \<Rightarrow> nat \<Rightarrow> nat \<Rightarrow> u8 list option" where
  "readBlock m fs datablockId off len =
     (let rawBlockId = add32 (add32 datablockId (numInodes fs)) 1 in
      if rawBlockId \<ge> numBlocks fs then None
      else Some (load_bytes m (imageStartingAddress fs + rawBlockId * BlockSize + off) len))"

function readData_loop ::
  "mem \<Rightarrow> KissFS \<Rightarrow> inode_t \<Rightarrow> nat \<Rightarrow> nat \<Rightarrow> nat \<Rightarrow> nat \<Rightarrow> u8 list \<Rightarrow> (int \<times> u8 list) kresult" where
  "readData_loop m fs ino i realOffset len bytesRemaining out =
     (if i < numDataBlocks ino then
        if i \<ge> length (datablocks ino) then Inl Fault
        else if datablocks ino ! i \<le> numTotalDataBlocks fs then
          let n1 = (if len > bytesRemaining then bytesRemaining else len);
              n = (if n1 > BlockSize then BlockSize else n1)
          in case readBlock m fs (datablocks ino ! i) realOffset n of
               None \<Rightarrow> Inr (-1, out)
             | Some bs \<Rightarrow>
                 if len - n = 0 then Inr (int (length (out @ bs)), out @ bs)
                 else readData_loop m fs ino (i + 1) 0 (len - n) (bytesRemaining - n) (out @ bs)
        else Inr (-1, out)
      else Inr (int (length out), out))"
  by pat_completeness auto
termination by (relation "measure (\<lambda>(m, fs, ino, i, _). numDataBlocks ino - i)") auto

declare readData_loop.simps [simp del]

definition readData :: "mem \<Rightarrow> KissFS \<Rightarrow> nat \<Rightarrow> nat \<Rightarrow> nat \<Rightarrow> (int \<times> u8 list) kresult" where
  "readData m fs ino off len =
     (if ino \<le> numInodes fs then
        if ino \<ge> length (inodes fs) then Inl Fault
        else readData_loop m fs (inodes fs ! ino) (off div BlockSize) (off mod BlockSize) len
               (sub32 (fsize (inodes fs ! ino)) off) []
      else Inr (-1, []))"

text \<open>\<open>readDir\<close> copies the next name to the buffer and returns its length there.\<close>

definition readDir :: "mem \<Rightarrow> KissFS \<Rightarrow> nat \<Rightarrow> nat \<Rightarrow> nat \<Rightarrow> nat \<Rightarrow> (mem \<times> KissFD \<times> int) option" where
  "readDir m fs pos mx buf len =
     (if pos \<ge> mx then Some (m, DirData pos mx, 0)
      else let m1 = strncpy m buf (filename (dentries fs ! pos)) len
           in map_option (\<lambda>n. (m1, DirData (pos + 1) mx, int n)) (strlen m1 buf))"

definition KissFS_read ::
  "mem \<Rightarrow> KissFS \<Rightarrow> KissFD \<Rightarrow> nat \<Rightarrow> nat \<Rightarrow> nat \<Rightarrow> (mem \<times> KissFD \<times> int) kresult option" where
  "KissFS_read m fs fd off buf len =
     (case fd of
        DirData pos mx \<Rightarrow> map_option Inr (readDir m fs pos mx buf len)
      | FileData ty ino \<Rightarrow>
          Some (kbind (readData m fs ino off len) (\<lambda>(r, bs). Inr (store_bytes m buf bs, fd, r))))"

definition KissFS_write :: "KissFD \<Rightarrow> nat \<Rightarrow> u8 list \<Rightarrow> int" where
  "KissFS_write fd off bs = -1"

definition S_IFDIR :: nat where "S_IFDIR = 16384"
definition S_IFCHR :: nat where "S_IFCHR = 8192"
definition S_IFREG :: nat where "S_IFREG = 32768"

text \<open>The fields \<open>st_mode\<close> and \<open>st_size\<close> that \<open>fstat\<close> stores; the size only for files.\<close>

definition KissFS_fstat :: "KissFS \<Rightarrow> KissFD \<Rightarrow> (nat \<times> nat option) kresult" where
  "KissFS_fstat fs fd =
     (case fd of
        DirData _ _ \<Rightarrow> Inr (S_IFDIR, None)
      | FileData ty ino \<Rightarrow>
          if ty = SPECIAL_DEVICE then Inr (S_IFCHR, None)
          else kbind (rd (inodes fs) ino) (\<lambda>x. Inr (S_IFREG, Some (fsize x))))"

definition KissFS_canSeek :: "KissFD \<Rightarrow> bool" where
  "KissFS_canSeek fd = (case fd of DirData _ _ \<Rightarrow> False | FileData ty _ \<Rightarrow> ty = NORMAL_FILE)"

definition KissFS_getFileSize :: "KissFS \<Rightarrow> KissFD \<Rightarrow> nat option kresult" where
  "KissFS_getFileSize fs fd =
     (case fd of
        DirData _ _ \<Rightarrow> Inr None
      | FileData ty ino \<Rightarrow>
          if ty \<noteq> NORMAL_FILE then Inr None
          else kbind (rd (inodes fs) ino) (\<lambda>x. Inr (Some (fsize x))))"

text \<open>Looking up an entry by name and by index. The index is compared with \<open><=\<close>.\<close>

definition readDentry_name :: "mem \<Rightarrow> KissFS \<Rightarrow> Filename \<Rightarrow> dentry_t option option" where
  "readDentry_name m fs fn =
     (case LinearProbingHashTable_get (Filename_eq m) (HashFunc_hash m) (dentryIndexOfFilename fs) fn of
        None \<Rightarrow> None
      | Some None \<Rightarrow> Some None
      | Some (Some i) \<Rightarrow> Some (Some (dentries fs ! i)))"

definition readDentry_index :: "KissFS \<Rightarrow> nat \<Rightarrow> dentry_t option kresult" where
  "readDentry_index fs i =
     (if i \<le> numDentries fs then
        if i < length (dentries fs) then Inr (Some (dentries fs ! i)) else Inl Fault
      else Inr None)"

subsection \<open>What a file holds\<close>

definition data_block :: "mem \<Rightarrow> KissFS \<Rightarrow> nat \<Rightarrow> u8 list" where
  "data_block m fs b = load_bytes m (imageStartingAddress fs + (b + numInodes fs + 1) * BlockSize) BlockSize"

definition file_content :: "mem \<Rightarrow> KissFS \<Rightarrow> inode_t \<Rightarrow> u8 list" where
  "file_content m fs ino = take (fsize ino) (concat (map (data_block m fs) (datablocks ino)))"

definition inode_ok :: "KissFS \<Rightarrow> inode_t \<Rightarrow> bool" where
  "inode_ok fs ino \<longleftrightarrow> fsize ino < two32 \<and> numBlocks fs < two32 \<and>
     numDataBlocks ino = ceil_div (fsize ino) BlockSize \<and> length (datablocks ino) = numDataBlocks ino \<and>
     (\<forall>b \<in> set (datablocks ino). b \<le> numTotalDataBlocks fs \<and> b + numInodes fs + 1 < numBlocks fs)"

lemma length_data_block [simp]: "length (data_block m fs b) = BlockSize"
  by (simp add: data_block_def)

lemma ceil_div_bounds:
  assumes "0 < b"
  shows "n \<le> b * ceil_div n b" and "i < ceil_div n b \<longleftrightarrow> b * i < n"
proof -
  have n: "n = b * (n div b) + n mod b" by simp
  show "n \<le> b * ceil_div n b"
  proof (cases "n mod b > 0")
    case True
    have "n mod b < b" using assms by simp
    then have "n \<le> b * (n div b) + b" using mult_div_mod_eq [of b n] by linarith
    with True show ?thesis by (simp add: ceil_div_def algebra_simps)
  next
    case False
    then have "n = b * (n div b)" using n by linarith
    with False show ?thesis by (simp add: ceil_div_def)
  qed
  show "i < ceil_div n b \<longleftrightarrow> b * i < n"
  proof (cases "n mod b > 0")
    case True
    have "b * i < n \<longleftrightarrow> i \<le> n div b"
      using True assms by (metis div_less_iff_less_mult less_eq_div_iff_mult_less_eq linorder_not_le mult.commute mult_div_mod_eq
          add.right_neutral le_antisym less_le less_imp_le_nat mod_mult_self1_is_0 not_less_zero)
    with True show ?thesis by (auto simp: ceil_div_def)
  next
    case False
    then have "n = b * (n div b)" using n by simp
    then have "b * i < n \<longleftrightarrow> i < n div b" using assms by (metis nat_mult_less_cancel1)
    with False show ?thesis by (simp add: ceil_div_def)
  qed
qed

lemma drop_concat_blocks:
  "\<forall>x \<in> set xss. length x = c \<Longrightarrow> drop (c * i) (concat xss) = concat (drop i xss)"
proof (induction xss arbitrary: i)
  case (Cons x xss)
  show ?case
  proof (cases i)
    case (Suc j)
    with Cons show ?thesis by simp
  qed simp
qed simp

lemma load_bytes_take_drop:
  "off + n \<le> c \<Longrightarrow> load_bytes m (a + off) n = take n (drop off (load_bytes m a c))"
  by (rule nth_equalityI) (simp_all add: add.assoc)

lemma readBlock_ok:
  assumes "inode_ok fs ino" and "b \<in> set (datablocks ino)"
  shows "readBlock m fs b off n =
    Some (load_bytes m (imageStartingAddress fs + (b + numInodes fs + 1) * BlockSize + off) n)"
proof -
  have "b + numInodes fs + 1 < two32" "b + numInodes fs + 1 < numBlocks fs"
    using assms by (auto simp: inode_ok_def)
  then have "add32 (add32 b (numInodes fs)) 1 = b + numInodes fs + 1"
    by (simp add: add32_exact)
  with \<open>b + numInodes fs + 1 < numBlocks fs\<close> show ?thesis
    by (simp add: readBlock_def)
qed

text \<open>The bytes of a file from the start of its block \<open>i\<close> on.\<close>

lemma content_from:
  assumes "inode_ok fs ino" and "i < numDataBlocks ino"
  shows "drop (BlockSize * i) (file_content m fs ino) =
    take (fsize ino - BlockSize * i) (data_block m fs (datablocks ino ! i)) @
    drop (BlockSize * (i + 1)) (file_content m fs ino)"
proof -
  let ?bs = "map (data_block m fs) (datablocks ino)"
  have len: "\<forall>x \<in> set ?bs. length x = BlockSize" by simp
  have i: "i < length ?bs" using assms by (simp add: inode_ok_def)
  have d: "drop (BlockSize * k) (file_content m fs ino) = take (fsize ino - BlockSize * k) (concat (drop k ?bs))" for k
    unfolding file_content_def by (simp only: drop_take drop_concat_blocks [OF len])
  have "drop i ?bs = ?bs ! i # drop (i + 1) ?bs"
    using Cons_nth_drop_Suc [OF i, symmetric] by (simp only: Suc_eq_plus1)
  then show ?thesis
    using i unfolding d by (simp add: algebra_simps)
qed

lemma content_end: "inode_ok fs ino \<Longrightarrow> numDataBlocks ino \<le> i \<Longrightarrow> drop (BlockSize * i) (file_content m fs ino) = []"
  using ceil_div_bounds(2) [of BlockSize i "fsize ino"] by (auto simp: file_content_def inode_ok_def BlockSize_def)

lemma loop_aligned:
  assumes "inode_ok fs ino" and "bytesRemaining = fsize ino - BlockSize * i"
  shows "readData_loop m fs ino i 0 len bytesRemaining out =
    (let bs = take len (drop (BlockSize * i) (file_content m fs ino)) in Inr (int (length (out @ bs)), out @ bs))"
  using assms(2)
proof (induction "numDataBlocks ino - i" arbitrary: i len bytesRemaining out)
  case 0
  then show ?case
    using content_end [OF assms(1), of i] by (subst readData_loop.simps) (simp add: Let_def)
next
  case (Suc d)
  then have i: "i < numDataBlocks ino" "i < length (datablocks ino)"
    using assms(1) by (auto simp: inode_ok_def)
  define n where "n = (if (if len > bytesRemaining then bytesRemaining else len) > BlockSize then BlockSize
    else (if len > bytesRemaining then bytesRemaining else len))"
  have n: "n \<le> len" "n \<le> BlockSize" "n \<le> bytesRemaining" "n < len \<Longrightarrow> n = min bytesRemaining BlockSize"
    by (auto simp: n_def)
  let ?b = "datablocks ino ! i" and ?blk = "data_block m fs (datablocks ino ! i)"
  have b: "?b \<in> set (datablocks ino)" "?b \<le> numTotalDataBlocks fs"
    using assms(1) i by (auto simp: inode_ok_def)
  have rb: "readBlock m fs ?b 0 n = Some (take n ?blk)"
    using load_bytes_take_drop [of 0 n BlockSize m] n(2)
    by (simp add: readBlock_ok [OF assms(1) b(1)] data_block_def)
  note from_i = content_from [OF assms(1) i(1), of m]
  have step: "readData_loop m fs ino i 0 len bytesRemaining out =
      (if len - n = 0 then Inr (int (length (out @ take n ?blk)), out @ take n ?blk)
       else readData_loop m fs ino (i + 1) 0 (len - n) (bytesRemaining - n) (out @ take n ?blk))"
    using i b(2) rb by (subst readData_loop.simps) (simp add: n_def [symmetric] Let_def)
  show ?case
  proof (cases "len = n")
    case True
    then have "take len (drop (BlockSize * i) (file_content m fs ino)) = take n ?blk"
      using n Suc.prems unfolding from_i by simp
    with step True show ?thesis by (simp add: Let_def)
  next
    case False
    with n have mn: "n = min bytesRemaining BlockSize" "n < len" by auto
    have rem: "bytesRemaining - n = fsize ino - BlockSize * (i + 1)"
      using Suc.prems mn by (auto simp: min_def)
    have "take len (drop (BlockSize * i) (file_content m fs ino)) =
        take n ?blk @ take (len - n) (drop (BlockSize * (i + 1)) (file_content m fs ino))"
    proof -
      have "take (fsize ino - BlockSize * i) ?blk = take n ?blk" "length (take n ?blk) = n"
        using mn(1) n(2) Suc.prems by (auto simp: min_def)
      then show ?thesis using mn(2) unfolding from_i by simp
    qed
    moreover have "readData_loop m fs ino (i + 1) 0 (len - n) (bytesRemaining - n) (out @ take n ?blk) =
      (let bs = take (len - n) (drop (BlockSize * (i + 1)) (file_content m fs ino))
       in Inr (int (length ((out @ take n ?blk) @ bs)), (out @ take n ?blk) @ bs))"
    proof (rule Suc.hyps(1))
      show "d = numDataBlocks ino - (i + 1)" using Suc.hyps(2) by simp
    qed (rule rem)
    ultimately show ?thesis
      using step mn by (simp add: Let_def)
  qed
qed

lemma readData_ok:
  assumes "ino < numInodes fs" and "length (inodes fs) = numInodes fs" and "inode_ok fs (inodes fs ! ino)"
    and "off \<le> fsize (inodes fs ! ino)"
    and "off mod BlockSize = 0 \<or> off mod BlockSize + min len (fsize (inodes fs ! ino) - off) \<le> BlockSize"
  shows "readData m fs ino off len =
    (let bs = take len (drop off (file_content m fs (inodes fs ! ino))) in Inr (int (length bs), bs))"
proof -
  let ?ino = "inodes fs ! ino"
  define i r where "i = off div BlockSize" and "r = off mod BlockSize"
  have off: "off = BlockSize * i + r" "r < BlockSize"
    by (simp_all add: i_def r_def BlockSize_def)
  define rem where "rem = fsize ?ino - off"
  have rem: "sub32 (fsize ?ino) off = rem"
    unfolding rem_def using assms(3,4) by (intro sub32_exact) (auto simp: inode_ok_def)
  have read: "readData m fs ino off len = readData_loop m fs ?ino i r len rem []"
    using assms(1,2) rem by (simp add: readData_def i_def r_def)
  show ?thesis
  proof (cases "r = 0")
    case True
    then show ?thesis
      using loop_aligned [OF assms(3), of rem i m len "[]"] read off by (simp add: rem_def Let_def)
  next
    case False
    with assms(5) have cross: "r + min len rem \<le> BlockSize" by (simp add: r_def rem_def)
    show ?thesis
    proof (cases "i < numDataBlocks ?ino")
      case False
      then have "drop (BlockSize * i) (file_content m fs ?ino) = []"
        using content_end assms(3) by simp
      then have "drop off (file_content m fs ?ino) = []"
        using off(1) by (metis drop_drop drop_Nil add.commute)
      then show ?thesis
        using False read by (simp add: readData_loop.simps Let_def)
    next
      case True
      let ?b = "datablocks ?ino ! i" and ?blk = "data_block m fs (datablocks ?ino ! i)"
      have i: "i < length (datablocks ?ino)" using True assms(3) by (simp add: inode_ok_def)
      then have b: "?b \<in> set (datablocks ?ino)" "?b \<le> numTotalDataBlocks fs"
        using assms(3) by (auto simp: inode_ok_def)
      define n where "n = min len rem"
      have n: "(if (if len > rem then rem else len) > BlockSize then BlockSize else (if len > rem then rem else len)) = n"
      proof -
        have "min len rem \<le> BlockSize" using cross by simp
        then show ?thesis unfolding n_def by (cases "len \<le> rem") auto
      qed
      have rb: "readBlock m fs ?b r n = Some (take n (drop r ?blk))"
        using load_bytes_take_drop [of r n BlockSize m] cross
        by (simp add: readBlock_ok [OF assms(3) b(1)] data_block_def n_def)
      have step: "readData_loop m fs ?ino i r len rem [] =
          (if len - n = 0 then Inr (int (length (take n (drop r ?blk))), take n (drop r ?blk))
           else readData_loop m fs ?ino (i + 1) 0 (len - n) (rem - n) (take n (drop r ?blk)))"
        using i True b(2) rb by (subst readData_loop.simps) (simp only: n Let_def, simp)
      have content: "drop off (file_content m fs ?ino) =
          drop r (take (fsize ?ino - BlockSize * i) ?blk @ drop (BlockSize * (i + 1)) (file_content m fs ?ino))"
        using content_from [OF assms(3) True, of m] off(1) by (metis drop_drop add.commute)
      show ?thesis
      proof (cases "len \<le> rem")
        case True
        then have ln: "n = len" by (simp add: n_def)
        have "take len (drop off (file_content m fs ?ino)) = take len (drop r ?blk)"
          unfolding content using True cross off ln n_def assms(4) by (simp add: rem_def drop_take)
        with ln step read show ?thesis by (simp add: Let_def)
      next
        case False
        then have ln: "n = rem" "n < len" by (simp_all add: n_def)
        then have "BlockSize * (i + 1) \<ge> fsize ?ino"
          using cross off assms(4) n_def by (simp add: rem_def)
        then have last: "\<not> i + 1 < numDataBlocks ?ino" "drop (BlockSize * (i + 1)) (file_content m fs ?ino) = []"
          using ceil_div_bounds(2) [of BlockSize "i + 1" "fsize ?ino"] assms(3)
          by (auto simp: inode_ok_def file_content_def BlockSize_def)
        have "take len (drop off (file_content m fs ?ino)) = take n (drop r ?blk)"
          unfolding content last(2) using ln off assms(4) by (simp add: rem_def drop_take)
        moreover have "readData_loop m fs ?ino (i + 1) 0 (len - n) (rem - n) (take n (drop r ?blk)) =
            Inr (int (length (take n (drop r ?blk))), take n (drop r ?blk))"
          using last(1) by (subst readData_loop.simps) simp
        ultimately show ?thesis
          using ln step read by (simp add: Let_def)
      qed
    qed
  qed
qed


text \<open>A file system of one file of 5000 bytes in the blocks 1 and 0, for the examples.\<close>

definition sample_fs :: KissFS where
  "sample_fs = \<lparr>dentryIndexOfFilename = [], dentries = [],
     inodes = [\<lparr>fsize = 5000, datablocks = [1, 0], numDataBlocks = 2\<rparr>], numDentries = 0, numInodes = 1,
     numTotalDataBlocks = 2, imageStartingAddress = 0, numBlocks = 4\<rparr>"

lemma sample_ok: "inode_ok sample_fs (inodes sample_fs ! 0)"
  by (simp add: sample_fs_def inode_ok_def ceil_div_def BlockSize_def)


text \<open>
  C23: a read of at most a block that crosses the end of its first block returns the bytes
  that follow in the image, not those of the file's next block: \<open>len\<close> is cut off at a
  whole block although only the rest of the block is left.
\<close>

theorem readData_crosses_into_next_image_block:
  assumes "ino < numInodes fs" and "length (inodes fs) = numInodes fs" and "inode_ok fs (inodes fs ! ino)"
    and "off + len \<le> fsize (inodes fs ! ino)" and "0 < len" and "len \<le> BlockSize"
    and "BlockSize < off mod BlockSize + len"
  shows "readData m fs ino off len = Inr (int len, load_bytes m
    (imageStartingAddress fs + (datablocks (inodes fs ! ino) ! (off div BlockSize) + numInodes fs + 1) * BlockSize
      + off mod BlockSize) len)"
proof -
  let ?ino = "inodes fs ! ino" and ?i = "off div BlockSize"
  have rem: "sub32 (fsize ?ino) off = fsize ?ino - off"
    using assms(3,4) by (intro sub32_exact) (auto simp: inode_ok_def)
  have "BlockSize * ?i < fsize ?ino"
    using assms(4,5) by (metis add_lessD1 le_less_trans less_add_same_cancel1 order_less_le_trans times_div_less_eq_dividend)
  then have i: "?i < numDataBlocks ?ino" "?i < length (datablocks ?ino)"
    using ceil_div_bounds(2) [of BlockSize ?i "fsize ?ino"] assms(3) by (simp_all add: inode_ok_def BlockSize_def)
  then have b: "datablocks ?ino ! ?i \<in> set (datablocks ?ino)" "datablocks ?ino ! ?i \<le> numTotalDataBlocks fs"
    using assms(3) by (auto simp: inode_ok_def)
  have n: "\<not> len > fsize ?ino - off" "\<not> len > BlockSize" using assms(4,6) by auto
  have "readData_loop m fs ?ino ?i (off mod BlockSize) len (fsize ?ino - off) [] =
      Inr (int len, load_bytes m (imageStartingAddress fs + (datablocks ?ino ! ?i + numInodes fs + 1) * BlockSize
        + off mod BlockSize) len)"
    using i b n by (subst readData_loop.simps) (simp add: Let_def readBlock_ok [OF assms(3) b(1)])
  then show ?thesis
    using assms(1,2) rem by (simp add: readData_def)
qed

theorem readData_crosses_into_next_image_block_witness:
  "readData (\<lambda>a. of_nat a) sample_fs 0 4090 10 = Inr (int 10, load_bytes (\<lambda>a. of_nat a)
    (imageStartingAddress sample_fs + (datablocks (inodes sample_fs ! 0) ! (4090 div BlockSize) + numInodes sample_fs + 1) * BlockSize
      + 4090 mod BlockSize) 10)"
  by (rule readData_crosses_into_next_image_block) (use sample_ok in \<open>simp_all add: sample_fs_def BlockSize_def\<close>)

subsection \<open>What loading an image gives\<close>

lemma load_bytes_cong: "(\<And>i. i < n \<Longrightarrow> m' (a + i) = m (a + i)) \<Longrightarrow> load_bytes m' a n = load_bytes m a n"
  by (simp add: load_bytes_def)

lemma read32_cong: "(\<And>i. i < 4 \<Longrightarrow> m' (a + i) = m (a + i)) \<Longrightarrow> read32 m' a = read32 m a"
proof -
  assume *: "\<And>i. i < 4 \<Longrightarrow> m' (a + i) = m (a + i)"
  show ?thesis using *[of 0] *[of 1] *[of 2] *[of 3] by (simp add: read32_def)
qed

lemma load_dentries_spec:
  assumes "load_dentries dbase [i..<i + n] (m, r) = (ds, m', r')"
    and "startingAddr r + rread r + 64 * n \<le> dbase + 44 * i \<or> dbase + 44 * (i + n) \<le> startingAddr r + rread r"
  shows "length ds = n" and "r' = r\<lparr>rread := rread r + 64 * n\<rparr>"
    and "a < dbase + 44 * i \<or> dbase + 44 * (i + n) \<le> a \<Longrightarrow> m' a = m a"
    and "j < n \<Longrightarrow> ds ! j = \<lparr>filename = dbase + 44 * (i + j),
      filetype = read32 m (startingAddr r + rread r + 64 * j + 32),
      inode = read32 m (startingAddr r + rread r + 64 * j + 36)\<rparr>"
    and "j < n \<Longrightarrow> load_bytes m' (dbase + 44 * (i + j)) 33 = load_bytes m (startingAddr r + rread r + 64 * j) 32 @ [0]"
proof -
  have "length ds = n \<and> r' = r\<lparr>rread := rread r + 64 * n\<rparr> \<and>
    (\<forall>a. a < dbase + 44 * i \<or> dbase + 44 * (i + n) \<le> a \<longrightarrow> m' a = m a) \<and>
    (\<forall>j < n. ds ! j = \<lparr>filename = dbase + 44 * (i + j),
      filetype = read32 m (startingAddr r + rread r + 64 * j + 32),
      inode = read32 m (startingAddr r + rread r + 64 * j + 36)\<rparr> \<and>
      load_bytes m' (dbase + 44 * (i + j)) 33 = load_bytes m (startingAddr r + rread r + 64 * j) 32 @ [0])"
    using assms
  proof (induction n arbitrary: i m r ds m' r')
    case 0
    then show ?case by simp
  next
    case (Suc n)
    let ?b = "startingAddr r + rread r"
    let ?m1 = "store_bytes m (dbase + 44 * i) (load_bytes m ?b 32 @ [0])"
    let ?r1 = "r\<lparr>rread := rread r + 64\<rparr>"
    obtain ds1 m2 r2 where rest: "load_dentries dbase [Suc i..<Suc i + n] (?m1, ?r1) = (ds1, m2, r2)"
      by (metis prod_cases3)
    have out: "?m1 a = m a" if "a < dbase + 44 * i \<or> dbase + 44 * i + 33 \<le> a" for a
      using that by (simp add: store_bytes_out)
    have upt: "[i..<i + Suc n] = i # [Suc i..<Suc i + n]" by (simp add: upt_conv_Cons)
    have res: "ds = \<lparr>filename = dbase + 44 * i, filetype = read32 m (?b + 32), inode = read32 m (?b + 36)\<rparr> # ds1"
        "m' = m2" "r' = r2"
      using Suc.prems(1) rest unfolding upt
      by (simp_all add: load_dentry_def Reader_name_def Reader_u32_def Reader_skip_def Let_def sizeof_dentry_def
          MaxFilenameLength_def add.assoc mult.commute)
    have "startingAddr ?r1 + rread ?r1 + 64 * n \<le> dbase + 44 * Suc i \<or>
        dbase + 44 * (Suc i + n) \<le> startingAddr ?r1 + rread ?r1"
      using Suc.prems(2) by auto
    note IH = Suc.IH [OF rest this]
    have img: "load_bytes ?m1 (?b + 64 * Suc j) 32 = load_bytes m (?b + 64 * Suc j) 32"
        "read32 ?m1 (?b + 64 * Suc j + 32) = read32 m (?b + 64 * Suc j + 32)"
        "read32 ?m1 (?b + 64 * Suc j + 36) = read32 m (?b + 64 * Suc j + 36)" if "j < n" for j
      using Suc.prems(2) that by (auto intro!: load_bytes_cong read32_cong out)
    have own: "load_bytes m2 (dbase + 44 * i) 33 = load_bytes m ?b 32 @ [0]"
    proof -
      have "load_bytes m2 (dbase + 44 * i) 33 = load_bytes ?m1 (dbase + 44 * i) 33"
        using IH by (intro load_bytes_cong) auto
      then show ?thesis by (simp add: load_store)
    qed
    show ?case
    proof (intro conjI allI impI)
      fix j assume j: "j < Suc n"
      show "ds ! j = \<lparr>filename = dbase + 44 * (i + j), filetype = read32 m (?b + 64 * j + 32),
          inode = read32 m (?b + 64 * j + 36)\<rparr>"
        using j IH img res by (cases j) (simp_all add: algebra_simps)
      show "load_bytes m' (dbase + 44 * (i + j)) 33 = load_bytes m (?b + 64 * j) 32 @ [0]"
        using j IH img own res by (cases j) (simp_all add: algebra_simps)
    qed (use IH res out in auto)
  qed
  then show "length ds = n" and "r' = r\<lparr>rread := rread r + 64 * n\<rparr>"
    and "a < dbase + 44 * i \<or> dbase + 44 * (i + n) \<le> a \<Longrightarrow> m' a = m a"
    and "j < n \<Longrightarrow> ds ! j = \<lparr>filename = dbase + 44 * (i + j),
      filetype = read32 m (startingAddr r + rread r + 64 * j + 32),
      inode = read32 m (startingAddr r + rread r + 64 * j + 36)\<rparr>"
    and "j < n \<Longrightarrow> load_bytes m' (dbase + 44 * (i + j)) 33 = load_bytes m (startingAddr r + rread r + 64 * j) 32 @ [0]"
    by blast+
qed

lemma find_append: "find P (xs @ ys) = (case find P xs of None \<Rightarrow> find P ys | Some x \<Rightarrow> Some x)"
  by (induction xs) auto

lemma last_match_find: "last_match eq kvs k = map_option snd (find (\<lambda>(a, v). eq a k) (rev kvs))"
  by (induction eq kvs k rule: last_match.induct) (auto simp: find_append split: option.splits)

lemma load_inodes_cases:
  "load_inodes m r is = (if \<exists>i \<in> set is. \<exists>e. load_inode m r i = Inl e then Inl Fault else Inr (map (\<lambda>i. projr (load_inode m r i)) is))"
proof (induction "is")
  case (Cons i "is")
  have "load_inode m r i = Inl e \<Longrightarrow> e = Fault" for e
    by (simp add: load_inode_def Let_def split: prod.splits if_splits)
  with Cons show ?case by (cases "load_inode m r i") auto
qed simp

lemma load_inode_eq:
  "load_inode m r i =
    (if ceil_div (read32 m (startingAddr r + BlockSize * (i + 1))) BlockSize > 1023 then Inl Fault
     else Inr \<lparr>fsize = read32 m (startingAddr r + BlockSize * (i + 1)),
       datablocks = load_blocks m (ceil_div (read32 m (startingAddr r + BlockSize * (i + 1))) BlockSize)
         (r\<lparr>rread := BlockSize * (i + 1) + 4\<rparr>),
       numDataBlocks = ceil_div (read32 m (startingAddr r + BlockSize * (i + 1))) BlockSize\<rparr>)"
  by (simp add: load_inode_def Reader_u32_def Reader_reposition_def Let_def BlockSize_def)

lemma load_blocks_eq: "load_blocks m n r = map (\<lambda>j. read32 m (startingAddr r + rread r + 4 * j)) [0..<n]"
proof (induction n arbitrary: r)
  case (Suc n)
  then show ?case
    by (simp add: Reader_u32_def upt_conv_Cons map_Suc_upt [symmetric] algebra_simps del: upt_Suc)
qed simp

text \<open>What the boot block and the inode blocks of the image at \<open>start\<close> say.\<close>

definition image_count :: "mem \<Rightarrow> nat \<Rightarrow> nat" where
  "image_count m start = min (read32 m start) 64"

definition image_inodes :: "mem \<Rightarrow> nat \<Rightarrow> nat" where
  "image_inodes m start = min (read32 m (start + 4)) 64"

definition image_name :: "mem \<Rightarrow> nat \<Rightarrow> nat \<Rightarrow> u8 list" where
  "image_name m start i = name_at m (start + 64 + 64 * i) 32"

definition image_type :: "mem \<Rightarrow> nat \<Rightarrow> nat \<Rightarrow> nat" where
  "image_type m start i = read32 m (start + 64 + 64 * i + 32)"

definition image_inode :: "mem \<Rightarrow> nat \<Rightarrow> nat \<Rightarrow> nat" where
  "image_inode m start i = read32 m (start + 64 + 64 * i + 36)"

definition image_size :: "mem \<Rightarrow> nat \<Rightarrow> nat \<Rightarrow> nat" where
  "image_size m start i = read32 m (start + BlockSize * (i + 1))"

definition image_block :: "mem \<Rightarrow> nat \<Rightarrow> nat \<Rightarrow> nat \<Rightarrow> nat" where
  "image_block m start i j = read32 m (start + BlockSize * (i + 1) + 4 + 4 * j)"

text \<open>The table of entries that is allocated lies outside the boot block and the inodes.\<close>

definition image_apart :: "nat \<Rightarrow> nat \<Rightarrow> bool" where
  "image_apart start dbase \<longleftrightarrow> start + 65 * BlockSize \<le> dbase \<or> dbase + 64 * sizeof_dentry \<le> start"

lemma name_at_load_bytes: "load_bytes m' b n = load_bytes m a n \<Longrightarrow> name_at m' b n = name_at m a n"
  by (simp add: name_at_def)

lemma load_bytes_prefix: "load_bytes m' b (Suc n) = load_bytes m a n @ [x] \<Longrightarrow> load_bytes m' b n = load_bytes m a n"
  by (drule arg_cong [where f = "take n"]) (simp add: load_bytes_def take_map)

lemma cstring_name_at:
  assumes "load_bytes m' b (Suc n) = load_bytes m a n @ [0]"
  shows "cstring m' b (name_at m a n)"
proof -
  let ?k = "length (name_at m a n)"
  have at: "m' (b + i) = (load_bytes m a n @ [0]) ! i" if "i \<le> n" for i
    using arg_cong [OF assms, of "\<lambda>xs. xs ! i"] that by simp
  have k: "?k \<le> n" by (rule name_at_length)
  have "name_at m a n ! i = load_bytes m a n ! i" if "i < ?k" for i
    using that unfolding name_at_def by (rule takeWhile_nth)
  moreover have "m' (b + ?k) = 0"
  proof (cases "?k < n")
    case True
    then show ?thesis
      using at [of ?k] nth_length_takeWhile [of "\<lambda>b. b \<noteq> 0" "load_bytes m a n"]
      by (simp add: name_at_def nth_append)
  next
    case False
    with k at [of ?k] show ?thesis by (simp add: nth_append)
  qed
  moreover have "0 \<notin> set (name_at m a n)"
    unfolding name_at_def by (auto dest: set_takeWhileD)
  ultimately show ?thesis
    using at k by (auto simp: cstring_def nth_append)
qed

lemma load_image_unfold:
  "load_image m start len dbase =
     (case load_dentries dbase [0..<image_count m start] (m, \<lparr>startingAddr = start, rread = 64\<rparr>) of (ds, m1, r5) \<Rightarrow>
        case load_inodes m1 r5 [0..<image_inodes m start] of
          Inl e \<Rightarrow> Some (Inl e)
        | Inr ins \<Rightarrow>
            map_option (\<lambda>table. Inr
              (\<lparr>dentryIndexOfFilename = table, dentries = ds, inodes = ins, numDentries = image_count m start,
                numInodes = image_inodes m start, numTotalDataBlocks = read32 m (start + 8),
                imageStartingAddress = start, numBlocks = len div BlockSize\<rparr>, m1))
              (fill (Filename_eq m1) (HashFunc_hash m1) (zip (map filename ds) [0..<image_count m start])
                 (LinearProbingHashTable_new 133 0 0)))"
proof -
  have c: "(if x > MaxNumFiles then MaxNumFiles else x) = min x 64" for x
    by (simp add: MaxNumFiles_def min_def)
  show ?thesis
    unfolding load_image_def Reader_new_def Reader_u32_def Reader_skip_def Let_def prod.case c
      image_count_def image_inodes_def
    by (simp cong: sum.case_cong prod.case_cong)
qed

lemma load_image_spec:
  assumes "image_apart start dbase"
  obtains ds m1 table where "length ds = image_count m start"
    and "\<And>i. i < image_count m start \<Longrightarrow> ds ! i = \<lparr>filename = dbase + 44 * i, filetype = image_type m start i,
      inode = image_inode m start i\<rparr>"
    and "\<And>i. i < image_count m start \<Longrightarrow> name_at m1 (dbase + 44 * i) 32 = image_name m start i"
    and "\<And>i. i < image_count m start \<Longrightarrow> cstring m1 (dbase + 44 * i) (image_name m start i)"
    and "\<And>a. a < dbase \<or> dbase + 44 * image_count m start \<le> a \<Longrightarrow> m1 a = m a"
    and "\<And>k. LinearProbingHashTable_get (Filename_eq m1) (HashFunc_hash m1) table k =
      Some (find (\<lambda>i. image_name m start i = name_at m1 k 32) (rev [0..<image_count m start]))"
    and "load_image m start len dbase = Some
      (if \<exists>i < image_inodes m start. ceil_div (image_size m start i) BlockSize > 1023 then Inl Fault
       else Inr (\<lparr>dentryIndexOfFilename = table, dentries = ds,
         inodes = map (\<lambda>i. \<lparr>fsize = image_size m start i,
           datablocks = map (image_block m start i) [0..<ceil_div (image_size m start i) BlockSize],
           numDataBlocks = ceil_div (image_size m start i) BlockSize\<rparr>) [0..<image_inodes m start],
         numDentries = image_count m start, numInodes = image_inodes m start,
         numTotalDataBlocks = read32 m (start + 8), imageStartingAddress = start,
         numBlocks = len div BlockSize\<rparr>, m1))"
proof -
  let ?n = "image_count m start" and ?r = "\<lparr>startingAddr = start, rread = 64\<rparr>"
  have n64: "?n \<le> 64" "image_inodes m start \<le> 64" by (simp_all add: image_count_def image_inodes_def)
  obtain ds m1 r' where ld: "load_dentries dbase [0..<0 + ?n] (m, ?r) = (ds, m1, r')"
    by (metis prod_cases3)
  have ap: "startingAddr ?r + rread ?r + 64 * ?n \<le> dbase + 44 * 0 \<or> dbase + 44 * (0 + ?n) \<le> startingAddr ?r + rread ?r"
    using assms n64 by (auto simp: image_apart_def BlockSize_def sizeof_dentry_def)
  note spec = load_dentries_spec [OF ld ap]
  have ds: "ds ! i = \<lparr>filename = dbase + 44 * i, filetype = image_type m start i, inode = image_inode m start i\<rparr>"
    if "i < ?n" for i using spec(4) [OF that] by (simp add: image_type_def image_inode_def)
  have loaded: "load_bytes m1 (dbase + 44 * i) 33 = load_bytes m (start + 64 + 64 * i) 32 @ [0]" if "i < ?n" for i
    using spec(5) [OF that] by simp
  have nm: "name_at m1 (dbase + 44 * i) 32 = image_name m start i" if "i < ?n" for i
    using load_bytes_prefix [of m1 "dbase + 44 * i" 32] loaded [OF that]
    by (simp add: image_name_def name_at_def)
  have nm1: "cstring m1 (dbase + 44 * i) (image_name m start i)" if "i < ?n" for i
    using cstring_name_at [of m1 "dbase + 44 * i" 32] loaded [OF that] by (simp add: image_name_def)
  have out: "m1 a = m a" if "a < dbase \<or> dbase + 44 * ?n \<le> a" for a
    using spec(3) that by simp
  have same: "m1 a = m a" if "start \<le> a" "a < start + 65 * BlockSize" for a
    using that assms n64 by (intro out) (auto simp: image_apart_def sizeof_dentry_def)
  let ?kvs = "zip (map filename ds) [0..<?n]"
  have len: "length ?kvs < 133" using n64 by simp
  obtain table where table: "fill (Filename_eq m1) (HashFunc_hash m1) ?kvs (LinearProbingHashTable_new 133 0 0) = Some table"
    "\<And>k. LinearProbingHashTable_get (Filename_eq m1) (HashFunc_hash m1) table k = Some (last_match (Filename_eq m1) ?kvs k)"
    using fname.fill_new [OF len, of m1 0 0] by metis
  have kvs: "?kvs = map (\<lambda>i. (dbase + 44 * i, i)) [0..<?n]"
    using spec(1) ds by (intro nth_equalityI) auto
  have get: "LinearProbingHashTable_get (Filename_eq m1) (HashFunc_hash m1) table k =
      Some (find (\<lambda>i. image_name m start i = name_at m1 k 32) (rev [0..<?n]))" for k
  proof -
    have "\<forall>i \<in> set xs. i < ?n \<Longrightarrow> map_option snd (find (\<lambda>(a, v). Filename_eq m1 a k) (map (\<lambda>i. (dbase + 44 * i, i)) xs)) =
      find (\<lambda>i. image_name m start i = name_at m1 k 32) xs" for xs
      by (induction xs) (auto simp: Filename_eq_name MaxFilenameLength_def nm)
    then show ?thesis
      unfolding table(2) kvs last_match_find rev_map by simp
  qed
  have sz: "read32 m1 (start + BlockSize * (i + 1)) = image_size m start i" if "i < 64" for i
    unfolding image_size_def using that by (intro read32_cong same) (auto simp: BlockSize_def)
  have blk: "read32 m1 (start + BlockSize * (i + 1) + 4 + 4 * j) = image_block m start i j" if "i < 64" "j < 1023" for i j
    unfolding image_block_def using that by (intro read32_cong same) (auto simp: BlockSize_def)
  have inode: "load_inode m1 (\<lparr>startingAddr = start, rread = x\<rparr>) i =
     (if ceil_div (image_size m start i) BlockSize > 1023 then Inl Fault
      else Inr \<lparr>fsize = image_size m start i,
           datablocks = map (image_block m start i) [0..<ceil_div (image_size m start i) BlockSize],
           numDataBlocks = ceil_div (image_size m start i) BlockSize\<rparr>)" if "i < 64" for i x
    using sz [OF that] blk [OF that] by (auto simp: load_inode_eq load_blocks_eq add.assoc)
  have inodes: "load_inodes m1 r' [0..<image_inodes m start] =
    (if \<exists>i < image_inodes m start. ceil_div (image_size m start i) BlockSize > 1023 then Inl Fault
       else Inr (map (\<lambda>i. \<lparr>fsize = image_size m start i,
           datablocks = map (image_block m start i) [0..<ceil_div (image_size m start i) BlockSize],
           numDataBlocks = ceil_div (image_size m start i) BlockSize\<rparr>) [0..<image_inodes m start]))"
    using n64(2) spec(2) by (auto simp: load_inodes_cases inode)
  have "load_image m start len dbase = Some
      (if \<exists>i < image_inodes m start. ceil_div (image_size m start i) BlockSize > 1023 then Inl Fault
       else Inr (\<lparr>dentryIndexOfFilename = table, dentries = ds,
         inodes = map (\<lambda>i. \<lparr>fsize = image_size m start i,
           datablocks = map (image_block m start i) [0..<ceil_div (image_size m start i) BlockSize],
           numDataBlocks = ceil_div (image_size m start i) BlockSize\<rparr>) [0..<image_inodes m start],
         numDentries = ?n, numInodes = image_inodes m start,
         numTotalDataBlocks = read32 m (start + 8), imageStartingAddress = start,
         numBlocks = len div BlockSize\<rparr>, m1))"
  proof -
    have "load_dentries dbase [0..<?n] (m, ?r) = (ds, m1, r')" using ld by simp
    then show ?thesis
      by (simp only: load_image_unfold prod.case inodes table(1)) simp
  qed
  with that spec(1) ds nm nm1 out get show ?thesis by blast
qed

text \<open>
  C24: loading always ends, whatever the image holds: the hash table of 133 slots is larger
  than the at most 64 entries put into it. It fails exactly when one of the inodes that are
  read claims a size of more than the 1023 blocks its table has room for.
\<close>

theorem load_image_ends:
  assumes "image_apart start dbase"
  shows "\<exists>r. load_image m start len dbase = Some r \<and>
    (r = Inl Fault \<longleftrightarrow> (\<exists>i < image_inodes m start. ceil_div (image_size m start i) BlockSize > 1023))"
  by (rule load_image_spec [OF assms, of m len]) (simp split: if_splits)

theorem load_image_ends_witness:
  "\<exists>r. load_image (\<lambda>_. 0) 0 4096 300000 = Some r \<and>
    (r = Inl Fault \<longleftrightarrow> (\<exists>i < image_inodes (\<lambda>_. 0) 0. ceil_div (image_size (\<lambda>_. 0) 0 i) BlockSize > 1023))"
  by (rule load_image_ends) (simp add: image_apart_def kiss_consts)

lemma open_by_name:
  assumes "image_apart start dbase" and "load_image m start len dbase = Some (Inr (fs, m1))"
    and "fn + 32 \<le> dbase \<or> dbase + 64 * sizeof_dentry \<le> fn"
  shows "KissFS_open m1 fs fn = Some (map_option
    (\<lambda>i. if image_type m start i = DIRECTORY then DirData 0 (image_count m start)
         else FileData (image_type m start i mod 256) (image_inode m start i))
    (find (\<lambda>i. image_name m start i = name_at m fn 32) (rev [0..<image_count m start])))"
proof (rule load_image_spec [OF assms(1), of m len])
  fix ds m2 table
  assume ds: "\<And>i. i < image_count m start \<Longrightarrow> ds ! i =
      \<lparr>filename = dbase + 44 * i, filetype = image_type m start i, inode = image_inode m start i\<rparr>"
    and out: "\<And>a. a < dbase \<or> dbase + 44 * image_count m start \<le> a \<Longrightarrow> m2 a = m a"
    and get: "\<And>k. LinearProbingHashTable_get (Filename_eq m2) (HashFunc_hash m2) table k =
      Some (find (\<lambda>i. image_name m start i = name_at m2 k 32) (rev [0..<image_count m start]))"
    and ld: "load_image m start len dbase = Some
      (if \<exists>i < image_inodes m start. ceil_div (image_size m start i) BlockSize > 1023 then Inl Fault
       else Inr (\<lparr>dentryIndexOfFilename = table, dentries = ds,
         inodes = map (\<lambda>i. \<lparr>fsize = image_size m start i,
           datablocks = map (image_block m start i) [0..<ceil_div (image_size m start i) BlockSize],
           numDataBlocks = ceil_div (image_size m start i) BlockSize\<rparr>) [0..<image_inodes m start],
         numDentries = image_count m start, numInodes = image_inodes m start,
         numTotalDataBlocks = read32 m (start + 8), imageStartingAddress = start,
         numBlocks = len div BlockSize\<rparr>, m2))"
  have fs: "m1 = m2" "dentryIndexOfFilename fs = table" "dentries fs = ds" "numDentries fs = image_count m start"
    using ld assms(2) by (auto split: if_splits)
  have "image_count m start \<le> 64" by (simp add: image_count_def)
  then have "name_at m2 fn 32 = name_at m fn 32"
    using assms(3) by (intro name_at_load_bytes load_bytes_cong out) (auto simp: sizeof_dentry_def)
  moreover have "i < image_count m start" if "find P (rev [0..<image_count m start]) = Some i" for P i
    using that by (auto simp: find_Some_iff rev_nth)
  ultimately show ?thesis
    using get [of fn] ds by (auto simp: KissFS_open_def fs split: option.splits)
qed

text \<open>
  On a loaded image \<open>open\<close> answers for every name. It finds the last directory
  entry whose first 32 characters agree with the name: a directory is opened at its start,
  any other entry with its type and inode number. If there is none, the answer is no.
\<close>

lemma kiss_open_by_name:
  assumes "image_apart start dbase" and "load_image m start len dbase = Some (Inr (fs, m1))"
    and "fn + 32 \<le> dbase \<or> dbase + 64 * sizeof_dentry \<le> fn"
  shows "KissFS_open m1 fs fn = Some (map_option
    (\<lambda>i. if image_type m start i = DIRECTORY then DirData 0 (image_count m start)
         else FileData (image_type m start i mod 256) (image_inode m start i))
    (find (\<lambda>i. image_name m start i = name_at m fn 32) (rev [0..<image_count m start])))"
  using assms by (rule open_by_name)

subsection \<open>Enumerating the directory\<close>

text \<open>\<open>k\<close> successive reads of an open file into the same buffer, and the bytes each returned.\<close>

primrec read_times :: "nat \<Rightarrow> mem \<Rightarrow> KissFS \<Rightarrow> KissFD \<Rightarrow> nat \<Rightarrow> nat \<Rightarrow> u8 list list option" where
  "read_times 0 m fs fd buf n = Some []"
| "read_times (Suc k) m fs fd buf n =
     (case KissFS_read m fs fd 0 buf n of
        Some (Inr (m1, fd1, r)) \<Rightarrow> map_option (\<lambda>xs. load_bytes m1 buf (nat r) # xs) (read_times k m1 fs fd1 buf n)
      | _ \<Rightarrow> None)"

lemma read_dir_end: "mx \<le> pos \<Longrightarrow> read_times k m fs (DirData pos mx) buf n = Some (replicate k [])"
  by (induction k) (simp_all add: KissFS_read_def readDir_def)

lemma readDir_name:
  assumes "cstring m (filename (dentries fs ! pos)) xs" and "pos < mx" and "length xs < n" and "length xs \<le> 32"
    and "buf + n \<le> filename (dentries fs ! pos) \<or> filename (dentries fs ! pos) + n \<le> buf"
  obtains m1 where "readDir m fs pos mx buf n = Some (m1, DirData (pos + 1) mx, int (length xs))"
    "load_bytes m1 buf (length xs) = xs" "\<And>a. a < buf \<or> buf + n \<le> a \<Longrightarrow> m1 a = m a"
proof -
  let ?m1 = "store_bytes m buf (xs @ replicate (n - length xs) 0)"
  have "name_at m (filename (dentries fs ! pos)) n = xs"
    using name_at_cstring [OF assms(1), of n] assms(3) by simp
  then have copy: "strncpy m buf (filename (dentries fs ! pos)) n = ?m1"
    using assms(5) by (simp add: strncpy_eq)
  have "0 \<notin> set xs" using assms(1) by (simp add: cstring_def)
  then have s: "cstring ?m1 buf xs"
    using assms(3) by (auto simp: cstring_def store_bytes_def nth_append)
  show ?thesis
    using that [of ?m1] copy strlen_cstring [OF s] cstring_load [OF s] assms(2,3)
    by (simp add: readDir_def store_bytes_out)
qed

lemma load_image_names:
  assumes "image_apart start dbase" and "load_image m start len dbase = Some (Inr (fs, m1))" and "i < image_count m start"
  shows "filename (dentries fs ! i) = dbase + 44 * i" and "cstring m1 (dbase + 44 * i) (image_name m start i)"
    and "numDentries fs = image_count m start"
  by (rule load_image_spec [OF assms(1), of m len]; use assms(2,3) in \<open>auto split: if_splits\<close>)+

text \<open>The names of the entries of a loaded image are where the entries say.\<close>

definition names_at :: "mem \<Rightarrow> nat \<Rightarrow> nat \<Rightarrow> KissFS \<Rightarrow> mem \<Rightarrow> bool" where
  "names_at m start dbase fs m' \<longleftrightarrow> (\<forall>i < image_count m start. filename (dentries fs ! i) = dbase + 44 * i \<and>
     cstring m' (dbase + 44 * i) (image_name m start i))"

lemma names_at_keep:
  assumes "names_at m start dbase fs m'" and "\<And>a. dbase \<le> a \<Longrightarrow> a < dbase + 64 * sizeof_dentry \<Longrightarrow> m3 a = m' a"
  shows "names_at m start dbase fs m3"
  unfolding names_at_def
proof (intro allI impI conjI)
  fix i assume i: "i < image_count m start"
  then show "filename (dentries fs ! i) = dbase + 44 * i" using assms(1) by (simp add: names_at_def)
  show "cstring m3 (dbase + 44 * i) (image_name m start i)"
  proof (rule cstring_cong)
    fix a assume "dbase + 44 * i \<le> a" "a \<le> dbase + 44 * i + length (image_name m start i)"
    moreover have "length (image_name m start i) \<le> 32" "image_count m start \<le> 64"
      by (simp_all add: image_name_def name_at_length image_count_def)
    ultimately show "m3 a = m' a"
      using i by (intro assms(2)) (auto simp: sizeof_dentry_def)
  qed (use assms(1) i in \<open>simp add: names_at_def\<close>)
qed

lemma readDir_entry:
  assumes nm: "names_at m start dbase fs m'" and pos: "pos < image_count m start"
    and buf: "buf + n \<le> dbase \<or> dbase + 64 * sizeof_dentry \<le> buf" and n: "length (image_name m start pos) < n" "n \<le> sizeof_dentry"
  obtains m3 where "readDir m' fs pos (image_count m start) buf n =
      Some (m3, DirData (pos + 1) (image_count m start), int (length (image_name m start pos)))"
    and "load_bytes m3 buf (length (image_name m start pos)) = image_name m start pos"
    and "\<And>a. a < buf \<or> buf + n \<le> a \<Longrightarrow> m3 a = m' a" and "names_at m start dbase fs m3"
proof -
  have l: "length (image_name m start pos) \<le> 32" "image_count m start \<le> 64"
    by (simp_all add: image_name_def name_at_length image_count_def)
  have far: "buf + n \<le> filename (dentries fs ! pos) \<or> filename (dentries fs ! pos) + n \<le> buf"
    using nm buf n(2) pos l(2) by (auto simp: names_at_def sizeof_dentry_def)
  obtain m3 where m3: "readDir m' fs pos (image_count m start) buf n =
      Some (m3, DirData (pos + 1) (image_count m start), int (length (image_name m start pos)))"
    "load_bytes m3 buf (length (image_name m start pos)) = image_name m start pos"
    "\<And>a. a < buf \<or> buf + n \<le> a \<Longrightarrow> m3 a = m' a"
    by (rule readDir_name [OF _ pos n(1) l(1) far]) (use nm pos in \<open>auto simp: names_at_def\<close>)
  moreover have "names_at m start dbase fs m3"
    using buf n(2) by (intro names_at_keep [OF nm] m3(3)) auto
  ultimately show ?thesis using that by blast
qed

lemma read_times_names:
  assumes "names_at m start dbase fs m'" and "pos \<le> image_count m start"
    and "buf + n \<le> dbase \<or> dbase + 64 * sizeof_dentry \<le> buf" and "32 < n" and "n \<le> sizeof_dentry"
  shows "read_times (image_count m start - pos + k) m' fs (DirData pos (image_count m start)) buf n =
    Some (map (image_name m start) [pos..<image_count m start] @ replicate k [])"
  using assms(1,2)
proof (induction "image_count m start - pos" arbitrary: pos m')
  case 0
  then show ?case by (simp add: read_dir_end)
next
  case (Suc d)
  let ?n = "image_count m start"
  have pos: "pos < ?n" using Suc.hyps(2) by simp
  have l: "length (image_name m start pos) < n"
    unfolding image_name_def by (rule le_less_trans [OF name_at_length assms(4)])
  obtain m3 where m3: "readDir m' fs pos ?n buf n = Some (m3, DirData (pos + 1) ?n, int (length (image_name m start pos)))"
    "load_bytes m3 buf (length (image_name m start pos)) = image_name m start pos" "names_at m start dbase fs m3"
    by (rule readDir_entry [OF Suc.prems(1) pos assms(3) l assms(5)])
  have "read_times (?n - (pos + 1) + k) m3 fs (DirData (pos + 1) ?n) buf n =
      Some (map (image_name m start) [pos + 1..<?n] @ replicate k [])"
    using Suc.hyps(2) pos m3(3) by (intro Suc.hyps(1)) auto
  moreover have "?n - pos + k = Suc (?n - (pos + 1) + k)" using pos by simp
  moreover have "[pos..<?n] = pos # [pos + 1..<?n]" using pos by (simp add: upt_conv_Cons)
  ultimately show ?case
    using m3(1,2) by (simp add: KissFS_read_def)
qed



end
