(* ===== verification/UList.thy ===== *)
theory UList
  imports Prelude
begin

text \<open>
  The doubly linked list that createfs.c and elfconvert.c share. The root is cast to a list
  element: its \<open>head\<close> lies where an element has \<open>prev\<close> and its \<open>tail\<close> where an
  element has \<open>next\<close>, so an element is "after" another when it is reached by its
  \<open>prev\<close> pointer first. Both programs go through the list from \<open>head\<close> along
  \<open>prev\<close>.

  The elements live in a store from addresses; the root is at the address \<open>ROOT\<close>. The
  address of a new element is the one \<open>malloc\<close> returned.
\<close>

subsection \<open>The code\<close>

type_synonym list_ptr = nat

definition ROOT :: list_ptr where "ROOT = 0"

record 'a list_elem =
  prev :: list_ptr
  "next" :: list_ptr
  data :: 'a

text \<open>The two pointers of the root are those of the element at \<open>ROOT\<close>; \<open>count\<close> follows them.\<close>

record 'a list_root =
  elems :: "list_ptr \<Rightarrow> 'a list_elem"
  count :: nat

definition list_init :: "'a \<Rightarrow> 'a list_root" where
  "list_init d = \<lparr>elems = (\<lambda>_. \<lparr>prev = ROOT, next = ROOT, data = d\<rparr>), count = 0\<rparr>"

definition list_head :: "'a list_root \<Rightarrow> list_ptr" where
  "list_head r = prev (elems r ROOT)"

definition set_prev :: "list_ptr \<Rightarrow> list_ptr \<Rightarrow> 'a list_root \<Rightarrow> 'a list_root" where
  "set_prev a p r = r\<lparr>elems := (elems r)(a := (elems r a)\<lparr>prev := p\<rparr>)\<rparr>"

definition set_next :: "list_ptr \<Rightarrow> list_ptr \<Rightarrow> 'a list_root \<Rightarrow> 'a list_root" where
  "set_next a n r = r\<lparr>elems := (elems r)(a := (elems r a)\<lparr>next := n\<rparr>)\<rparr>"

definition set_data :: "list_ptr \<Rightarrow> 'a \<Rightarrow> 'a list_root \<Rightarrow> 'a list_root" where
  "set_data a d r = r\<lparr>elems := (elems r)(a := (elems r a)\<lparr>data := d\<rparr>)\<rparr>"

definition list_insert_after :: "list_ptr \<Rightarrow> list_ptr \<Rightarrow> 'a \<Rightarrow> 'a list_root \<Rightarrow> 'a list_root" where
  "list_insert_after result element d r =
     (let r1 = r\<lparr>count := count r + 1\<rparr>;
          r2 = set_data result d r1;
          r3 = set_prev result (prev (elems r2 element)) r2;
          r4 = set_next result element r3;
          r5 = set_next (prev (elems r4 element)) result r4
      in set_prev element result r5)"

definition list_insert_before :: "list_ptr \<Rightarrow> list_ptr \<Rightarrow> 'a \<Rightarrow> 'a list_root \<Rightarrow> 'a list_root" where
  "list_insert_before result element d r =
     (let r1 = r\<lparr>count := count r + 1\<rparr>;
          r2 = set_data result d r1;
          r3 = set_prev result element r2;
          r4 = set_next result (next (elems r3 element)) r3;
          r5 = set_prev (next (elems r4 element)) result r4
      in set_next element result r5)"

definition list_insert_at_head :: "list_ptr \<Rightarrow> 'a \<Rightarrow> 'a list_root \<Rightarrow> 'a list_root" where
  "list_insert_at_head result d r = list_insert_after result ROOT d r"

definition list_insert_at_tail :: "list_ptr \<Rightarrow> 'a \<Rightarrow> 'a list_root \<Rightarrow> 'a list_root" where
  "list_insert_at_tail result d r = list_insert_before result ROOT d r"

text \<open>\<open>for (i = root.head; i != &root; i = i->prev)\<close>: the data the loop meets, in order.\<close>

partial_function (option) list_walk :: "'a list_root \<Rightarrow> list_ptr \<Rightarrow> 'a list option" where
  [code]: "list_walk r a =
     (if a = ROOT then Some []
      else Option.bind (list_walk r (prev (elems r a))) (\<lambda>xs. Some (data (elems r a) # xs)))"

subsection \<open>The list a root represents\<close>

text \<open>The addresses on the way from \<open>a\<close> to \<open>b\<close> along \<open>prev\<close>, with matching \<open>next\<close> pointers.\<close>

fun chain :: "(list_ptr \<Rightarrow> 'a list_elem) \<Rightarrow> list_ptr \<Rightarrow> list_ptr list \<Rightarrow> list_ptr \<Rightarrow> bool" where
  "chain s a [] b \<longleftrightarrow> prev (s a) = b \<and> next (s b) = a"
| "chain s a (x # xs) b \<longleftrightarrow> prev (s a) = x \<and> next (s x) = a \<and> chain s x xs b"

definition list_rep :: "'a list_root \<Rightarrow> list_ptr list \<Rightarrow> 'a list \<Rightarrow> bool" where
  "list_rep r as ds \<longleftrightarrow> chain (elems r) ROOT as ROOT \<and> distinct as \<and> ROOT \<notin> set as \<and>
     ds = map (\<lambda>a. data (elems r a)) as \<and> count r = length as"

lemma chain_append: "chain s a (xs @ y # ys) b \<longleftrightarrow> chain s a xs y \<and> chain s y ys b"
  by (induction xs arbitrary: a) auto

lemma chain_snoc: "chain s a (xs @ [y]) b \<longleftrightarrow> chain s a xs y \<and> chain s y [] b"
  using chain_append [of s a xs y "[]" b] by simp

lemma chain_cong:
  "chain s a xs b \<Longrightarrow> (\<And>x. x \<in> insert a (set xs) \<Longrightarrow> prev (t x) = prev (s x)) \<Longrightarrow>
   (\<And>x. x \<in> insert b (set xs) \<Longrightarrow> next (t x) = next (s x)) \<Longrightarrow> chain t a xs b"
  by (induction xs arbitrary: a) auto

lemma list_init_rep: "list_rep (list_init d) [] []"
  by (simp add: list_rep_def list_init_def)

lemma list_insert_at_tail_rep:
  assumes "list_rep r as ds" and "a \<noteq> ROOT" and "a \<notin> set as"
  shows "list_rep (list_insert_at_tail a d r) (as @ [a]) (ds @ [d])"
proof -
  let ?r = "list_insert_at_tail a d r"
  note defs = list_insert_at_tail_def list_insert_before_def set_prev_def set_next_def set_data_def Let_def
  have rep: "chain (elems r) ROOT as ROOT" "distinct as" "ROOT \<notin> set as" "count r = length as"
    "ds = map (\<lambda>a. data (elems r a)) as"
    using assms(1) by (simp_all add: list_rep_def)
  have data: "data (elems ?r x) = (if x = a then d else data (elems r x))" for x
    using assms(2) by (auto simp: defs)
  have "chain (elems ?r) ROOT (as @ [a]) ROOT"
  proof (cases as rule: rev_cases)
    case Nil
    with rep assms show ?thesis by (auto simp: defs)
  next
    case (snoc as' z)
    have z: "next (elems r ROOT) = z" "z \<noteq> ROOT" "z \<noteq> a" "z \<notin> set as'" "chain (elems r) ROOT as' z"
      using rep assms(3) by (auto simp: snoc chain_snoc)
    have "chain (elems ?r) ROOT as' z"
      using z rep assms by (intro chain_cong [OF z(5)]) (auto simp: defs snoc)
    moreover have "chain (elems ?r) z [a] ROOT"
      using z assms by (simp add: defs)
    ultimately show ?thesis
      using chain_append [of "elems ?r" ROOT as' z "[a]" ROOT] by (simp add: snoc)
  qed
  moreover have "map (\<lambda>x. data (elems ?r x)) (as @ [a]) = ds @ [d]"
    using rep(5) assms(3) by (auto simp: data)
  moreover have "count ?r = length (as @ [a])"
    using rep(4) by (simp add: defs)
  ultimately show ?thesis
    using rep(2,3) assms(2,3) by (simp add: list_rep_def)
qed

lemma list_insert_at_head_rep:
  assumes "list_rep r as ds" and "a \<noteq> ROOT" and "a \<notin> set as"
  shows "list_rep (list_insert_at_head a d r) (a # as) (d # ds)"
proof -
  let ?r = "list_insert_at_head a d r"
  note defs = list_insert_at_head_def list_insert_after_def set_prev_def set_next_def set_data_def Let_def
  have rep: "chain (elems r) ROOT as ROOT" "distinct as" "ROOT \<notin> set as" "count r = length as"
    "ds = map (\<lambda>a. data (elems r a)) as"
    using assms(1) by (simp_all add: list_rep_def)
  have data: "data (elems ?r x) = (if x = a then d else data (elems r x))" for x
    using assms(2) by (auto simp: defs)
  have "chain (elems ?r) ROOT (a # as) ROOT"
  proof (cases as)
    case Nil
    with rep assms show ?thesis by (auto simp: defs)
  next
    case (Cons z as')
    have z: "prev (elems r ROOT) = z" "z \<noteq> ROOT" "z \<noteq> a" "z \<notin> set as'" "chain (elems r) z as' ROOT"
      using rep assms(3) by (auto simp: Cons)
    have "chain (elems ?r) z as' ROOT"
      using z rep assms by (intro chain_cong [OF z(5)]) (auto simp: defs Cons)
    then show ?thesis
      using z assms by (simp add: defs Cons)
  qed
  moreover have "map (\<lambda>x. data (elems ?r x)) (a # as) = d # ds"
    using rep(5) assms(3) by (auto simp: data)
  moreover have "count ?r = length (a # as)"
    using rep(4) by (simp add: defs)
  ultimately show ?thesis
    using rep(2,3) assms(2,3) by (simp add: list_rep_def)
qed

lemma walk_chain:
  "chain (elems r) b as ROOT \<Longrightarrow> ROOT \<notin> set as \<Longrightarrow>
   list_walk r (prev (elems r b)) = Some (map (\<lambda>a. data (elems r a)) as)"
proof (induction as arbitrary: b)
  case (Cons a as)
  then show ?case by (subst list_walk.simps) auto
qed (simp add: list_walk.simps)

lemma list_walk_rep: "list_rep r as ds \<Longrightarrow> list_walk r (list_head r) = Some ds"
  using walk_chain [of r ROOT as] by (simp add: list_rep_def list_head_def)

text \<open>A root whose elements were numbered as they were made, and the list it holds.\<close>

definition holds_list :: "'a list_root \<Rightarrow> 'a list \<Rightarrow> bool" where
  "holds_list r ds \<longleftrightarrow> (\<exists>as. list_rep r as ds \<and> (\<forall>a \<in> set as. 0 < a \<and> a \<le> count r))"

lemma holds_list_init: "holds_list (list_init d) []"
  unfolding holds_list_def using list_init_rep by (intro exI [of _ "[]"]) simp

lemma holds_list_tail:
  assumes "holds_list r ds"
  shows "holds_list (list_insert_at_tail (count r + 1) d r) (ds @ [d])"
proof -
  obtain as where as: "list_rep r as ds" "\<forall>a \<in> set as. 0 < a \<and> a \<le> count r"
    using assms by (auto simp: holds_list_def)
  have "list_rep (list_insert_at_tail (count r + 1) d r) (as @ [count r + 1]) (ds @ [d])"
    using as by (intro list_insert_at_tail_rep) (auto simp: ROOT_def)
  then show ?thesis
    unfolding holds_list_def using as
    by (intro exI [of _ "as @ [count r + 1]"]) (auto simp: list_rep_def)
qed

lemma holds_list_walk: "holds_list r ds \<Longrightarrow> list_walk r (list_head r) = Some ds"
  by (auto simp: holds_list_def list_walk_rep)

end
