(* ===== verification/UCreatefs.thy ===== *)
theory UCreatefs
  imports UList KKissFS
begin

text \<open>
  createfs.c, the host program that builds the image of the boot file system out of a
  directory: the boot block, one object per file with its buffers, the list of objects, the
  free map from which inode and data block numbers are drawn at random, and the writes.

  What the host answers is in \<open>createfs_env\<close>: the directory entries in the order of
  \<open>readdir\<close>, what \<open>stat\<close> and each \<open>read\<close> return for them (\<open>None\<close> is an error), what
  an allocated buffer held before, the numbers \<open>rand\<close> returns, and which writes succeed.
  A string is the list of its bytes without the terminator. The result is the exit status, or
  the contents and the size of the output file; the outer option is the search for a free
  number, which need not end.
\<close>

subsection \<open>Environment and data\<close>

record dirent =
  d_name :: "u8 list"
  stat_of :: "(nat \<times> nat) option"
  reads :: "nat \<Rightarrow> u8 list option"
  buffers :: "nat \<Rightarrow> u8 list"

record createfs_env =
  args :: "string list"
  open_excl :: bool
  answer :: nat
  open_trunc :: bool
  opendir :: "dirent list option"
  dir_errno :: bool
  rand :: "nat \<Rightarrow> nat"
  write_ok :: "nat \<Rightarrow> bool"

text \<open>The object that \<open>create_file\<close> allocates: word 0, the words 1 to 1023, the buffers
  from word 1024 on, and the words 2047, 2048 and 2049. The place of the directory entry is
  its offset in the boot block.\<close>

record file_obj =
  obj_size :: nat
  obj_blocks :: "nat list"
  obj_data :: "u8 list list"
  obj_dentry :: nat
  obj_num :: nat
  obj_ino :: nat

record freemap =
  fm_inodes :: nat
  fm_datablocks :: nat
  fm_map :: "u8 list"

text \<open>The boot block, the objects in the order they were made, and the list of pointers to them.\<close>

record createfs_state =
  bblock :: mem
  objs :: "file_obj list"
  inode_list :: "nat list_root"

definition le32 :: "nat \<Rightarrow> u8 list" where
  "le32 v = [word_of_nat v, word_of_nat (v div 256), word_of_nat (v div 65536), word_of_nat (v div 16777216)]"

definition put32 :: "mem \<Rightarrow> nat \<Rightarrow> nat \<Rightarrow> mem" where
  "put32 m a v = store_bytes m a (le32 v)"

subsection \<open>Directory entries and files\<close>

definition S_ISREG :: "nat \<Rightarrow> bool" where "S_ISREG mode \<longleftrightarrow> mode AND 61440 = 32768"
definition S_ISCHR :: "nat \<Rightarrow> bool" where "S_ISCHR mode \<longleftrightarrow> mode AND 61440 = 8192"

definition create_dentry :: "mem \<Rightarrow> u8 list \<Rightarrow> nat \<Rightarrow> nat \<Rightarrow> mem \<times> int" where
  "create_dentry m src mode dest =
     (let m0 = store_bytes m dest (replicate 64 0);
          finish = (\<lambda>ty. let m1 = put32 m0 (dest + 32) ty;
                            m2 = store_bytes m1 dest (take 31 src @ replicate (31 - length src) 0);
                            m3 = m2(dest + 31 := 0)
                        in (put32 m3 (dest + 36) (two32 - 1), 0))
      in if S_ISREG mode then finish 2 else if S_ISCHR mode then finish 0 else (m0, -1))"

text \<open>The loop that reads a file block by block; \<open>read\<close> fills a prefix of the buffer.\<close>

fun create_file_loop :: "dirent \<Rightarrow> nat \<Rightarrow> nat \<Rightarrow> u8 list list option" where
  "create_file_loop d i 0 = Some []"
| "create_file_loop d i (Suc k) =
     (case reads d i of
        None \<Rightarrow> None
      | Some bs \<Rightarrow> map_option (\<lambda>xs. (bs @ drop (length bs) (buffers d i)) # xs) (create_file_loop d (i + 1) k))"

definition create_file :: "dirent \<Rightarrow> nat \<Rightarrow> file_obj option" where
  "create_file d sz =
     (if sz \<le> 4190208 then
        let v3 = (if sz mod 4096 \<noteq> 0 then sz div 4096 + 1 else sz div 4096)
        in map_option (\<lambda>bufs. \<lparr>obj_size = sz, obj_blocks = replicate 1023 0, obj_data = bufs,
             obj_dentry = 0, obj_num = v3, obj_ino = 0\<rparr>) (create_file_loop d 0 v3)
      else None)"

text \<open>The body of the directory loop after a successful \<open>stat\<close>, and the loop.\<close>

definition add_entry :: "dirent \<Rightarrow> nat \<Rightarrow> nat \<Rightarrow> createfs_state \<Rightarrow> createfs_state" where
  "add_entry d mode sz s =
     (let dest = unat (bblock s 0) * 64 + 64;
          (bb, v11) = create_dentry (bblock s) (d_name d) mode dest
      in if v11 \<noteq> 0 then s\<lparr>bblock := bb\<rparr>
         else case create_file d sz of
           None \<Rightarrow> s\<lparr>bblock := bb\<rparr>
         | Some obj \<Rightarrow>
             let bb1 = put32 bb 0 (add32 (read32 bb 0) 1);
                 bb2 = put32 bb1 4 (add32 (read32 bb1 4) 1);
                 bb3 = put32 bb2 8 (add32 (read32 bb2 8) (obj_num obj));
                 n = length (objs s)
             in s\<lparr>bblock := bb3, objs := objs s @ [obj\<lparr>obj_dentry := dest\<rparr>],
                  inode_list := list_insert_at_tail (n + 1) n (inode_list s)\<rparr>)"

fun scan_dir :: "dirent list \<Rightarrow> bool \<Rightarrow> createfs_state \<Rightarrow> nat + createfs_state" where
  "scan_dir [] errno s = (if read32 (bblock s) 0 \<le> 62 \<and> errno then Inl 1 else Inr s)"
| "scan_dir (d # ds) errno s =
     (if read32 (bblock s) 0 \<le> 62 then
        case stat_of d of
          None \<Rightarrow> Inl 1
        | Some (mode, sz) \<Rightarrow> scan_dir ds errno (add_entry d mode sz s)
      else Inr s)"

subsection \<open>The free map\<close>

definition get_size :: "freemap \<Rightarrow> nat" where
  "get_size fm = fm_inodes fm + fm_datablocks fm + 1"

definition get_num_datablocks :: "freemap \<Rightarrow> nat" where
  "get_num_datablocks fm = fm_datablocks fm"

definition get_num_inodes :: "freemap \<Rightarrow> nat" where
  "get_num_inodes fm = fm_inodes fm"

definition init_freemap :: "nat \<Rightarrow> nat \<Rightarrow> freemap" where
  "init_freemap a1 a2 =
     (let fm = \<lparr>fm_inodes = 2 * a1, fm_datablocks = 2 * a2, fm_map = []\<rparr>
      in fm\<lparr>fm_map := (replicate (get_size fm) 0)[0 := 1]\<rparr>)"

text \<open>The search: numbers below \<open>n\<close> whose byte at offset \<open>base\<close> of the map is zero.\<close>

partial_function (option) draw :: "(nat \<Rightarrow> nat) \<Rightarrow> u8 list \<Rightarrow> nat \<Rightarrow> nat \<Rightarrow> nat \<Rightarrow> (nat \<times> nat) option" where
  [code]: "draw rnd fmap n base k =
     (let v2 = rnd k mod n in
      if fmap ! (v2 + base) \<noteq> 0 then draw rnd fmap n base (k + 1) else Some (v2, k + 1))"

definition get_inode_block :: "(nat \<Rightarrow> nat) \<Rightarrow> freemap \<times> nat \<Rightarrow> (nat \<times> freemap \<times> nat) option" where
  "get_inode_block rnd s =
     (case s of (fm, k) \<Rightarrow>
        map_option (\<lambda>(v2, k1). (v2, fm\<lparr>fm_map := (fm_map fm)[v2 + 1 := 1]\<rparr>, k1))
          (draw rnd (fm_map fm) (fm_inodes fm) 1 k))"

definition get_data_block :: "(nat \<Rightarrow> nat) \<Rightarrow> freemap \<times> nat \<Rightarrow> (nat \<times> freemap \<times> nat) option" where
  "get_data_block rnd s =
     (case s of (fm, k) \<Rightarrow>
        map_option (\<lambda>(v2, k1). (v2, fm\<lparr>fm_map := (fm_map fm)[v2 + fm_inodes fm + 1 := 1]\<rparr>, k1))
          (draw rnd (fm_map fm) (fm_datablocks fm) (fm_inodes fm + 1) k))"

subsection \<open>Numbering and writing\<close>

text \<open>The first loop over the list: an inode number for every object, entered in its directory entry.\<close>

fun number_inodes :: "(nat \<Rightarrow> nat) \<Rightarrow> nat list \<Rightarrow> createfs_state \<times> freemap \<times> nat \<Rightarrow> (createfs_state \<times> freemap \<times> nat) option" where
  "number_inodes rnd [] sf = Some sf"
| "number_inodes rnd (b # bs) (s, f) =
     (case get_inode_block rnd f of
        None \<Rightarrow> None
      | Some (ino, f1) \<Rightarrow>
          let s1 = s\<lparr>objs := (objs s)[b := (objs s ! b)\<lparr>obj_ino := ino\<rparr>]\<rparr>
          in number_inodes rnd bs (s1\<lparr>bblock := put32 (bblock s1) (obj_dentry (objs s1 ! b) + 36) (obj_ino (objs s1 ! b))\<rparr>, f1))"

text \<open>The second: a data block number for every buffer of every object.\<close>

fun number_blocks_loop :: "(nat \<Rightarrow> nat) \<Rightarrow> nat list \<Rightarrow> file_obj \<times> freemap \<times> nat \<Rightarrow> (file_obj \<times> freemap \<times> nat) option" where
  "number_blocks_loop rnd [] sf = Some sf"
| "number_blocks_loop rnd (p # ps) (ob, f) =
     (case get_data_block rnd f of
        None \<Rightarrow> None
      | Some (v, f1) \<Rightarrow> number_blocks_loop rnd ps (ob\<lparr>obj_blocks := (obj_blocks ob)[p := v]\<rparr>, f1))"

fun number_blocks :: "(nat \<Rightarrow> nat) \<Rightarrow> nat list \<Rightarrow> file_obj list \<times> freemap \<times> nat \<Rightarrow> (file_obj list \<times> freemap \<times> nat) option" where
  "number_blocks rnd [] sf = Some sf"
| "number_blocks rnd (b # bs) (os, f) =
     (case number_blocks_loop rnd [0..<obj_num (os ! b)] (os ! b, f) of
        None \<Rightarrow> None
      | Some (ob, f1) \<Rightarrow> number_blocks rnd bs (os[b := ob], f1))"

text \<open>The first 4096 bytes of an object, and the writes of the three parts of the image.\<close>

definition obj_bytes :: "file_obj \<Rightarrow> u8 list" where
  "obj_bytes ob = le32 (obj_size ob) @ concat (map le32 (obj_blocks ob))"

definition inode_writes :: "file_obj list \<Rightarrow> nat list \<Rightarrow> (nat \<times> u8 list) list" where
  "inode_writes os bs = map (\<lambda>b. (obj_ino (os ! b) * 4096 + 4096, obj_bytes (os ! b))) bs"

definition data_writes :: "file_obj list \<Rightarrow> nat \<Rightarrow> nat list \<Rightarrow> (nat \<times> u8 list) list" where
  "data_writes os ninodes bs =
     concat (map (\<lambda>b. map (\<lambda>i. ((obj_blocks (os ! b) ! i + ninodes + 1) * 4096, obj_data (os ! b) ! i))
       [0..<obj_num (os ! b)]) bs)"

text \<open>Seeking and writing, until a write fails: holes read as zeros.\<close>

fun do_writes :: "(nat \<Rightarrow> bool) \<Rightarrow> nat \<Rightarrow> (nat \<times> u8 list) list \<Rightarrow> mem \<times> nat \<Rightarrow> nat + mem \<times> nat" where
  "do_writes ok k [] f = Inr f"
| "do_writes ok k ((off, bs) # ws) (c, sz) =
     (if ok k then do_writes ok (k + 1) ws (store_bytes c off bs, max sz (off + length bs)) else Inl 1)"

subsection \<open>The program\<close>

definition boot_init :: mem where
  "boot_init = put32 (put32 (put32 (store_bytes (\<lambda>_. 0) 64 [46, 0]) 96 1) 100 0) 0 1"

definition createfs_image :: "createfs_env \<Rightarrow> (nat + mem \<times> nat) option" where
  "createfs_image e =
     (let s0 = \<lparr>bblock = boot_init, objs = [], inode_list = list_init 0\<rparr>
      in case (case opendir e of None \<Rightarrow> Inr s0 | Some ds \<Rightarrow> scan_dir ds (dir_errno e) s0) of
           Inl r \<Rightarrow> Some (Inl r)
         | Inr s1 \<Rightarrow>
             let v12 = init_freemap (read32 (bblock s1) 4) (read32 (bblock s1) 8);
                 bb1 = put32 (bblock s1) 4 (get_num_inodes v12);
                 bb2 = put32 bb1 8 (get_num_datablocks v12)
             in Option.bind (list_walk (inode_list s1) (list_head (inode_list s1))) (\<lambda>bufs.
                Option.bind (number_inodes (rand e) bufs (s1\<lparr>bblock := bb2\<rparr>, v12, 0)) (\<lambda>(s2, f2).
                Option.bind (number_blocks (rand e) bufs (objs s2, f2)) (\<lambda>(os, f3).
                  Some (do_writes (write_ok e) 0
                    ((0, load_bytes (bblock s2) 0 4096) # inode_writes os bufs
                      @ data_writes os (get_num_inodes (fst f3)) bufs) (\<lambda>_. 0, 0))))))"

definition createfs_main :: "createfs_env \<Rightarrow> (nat + mem \<times> nat) option" where
  "createfs_main e =
     (if length (args e) \<noteq> 2 \<and> (length (args e) \<noteq> 4 \<or> args e ! 2 \<noteq> ''-o'') then Some (Inl 1)
      else if \<not> open_excl e \<and> answer e = 110 then Some (Inl 1)
      else createfs_image (if open_excl e \<or> open_trunc e then e else e\<lparr>write_ok := \<lambda>_. False\<rparr>))"

subsection \<open>Words in memory\<close>

lemma length_le32 [simp]: "length (le32 v) = 4"
  by (simp add: le32_def)

lemma digits:
  fixes v a b c r0 r1 r2 :: nat
  shows "v = r0 + 256 * a \<Longrightarrow> a = r1 + 256 * b \<Longrightarrow> b = r2 + 256 * c \<Longrightarrow>
    r0 + 256 * r1 + 65536 * r2 + 16777216 * c = v"
  by simp

lemma read32_le32:
  assumes "v < two32" and "load_bytes m a 4 = le32 v"
  shows "read32 m a = v"
proof -
  have at: "m (a + i) = le32 v ! i" if "i < 4" for i
    using arg_cong [OF assms(2), of "\<lambda>xs. xs ! i"] that by simp
  have b: "m a = word_of_nat v" "m (a + 1) = word_of_nat (v div 256)" "m (a + 2) = word_of_nat (v div 65536)"
    "m (a + 3) = word_of_nat (v div 16777216)"
    using at [of 0] at [of 1] at [of 2] at [of 3] by (simp_all add: le32_def)
  have "v div 16777216 mod 256 = v div 16777216"
    using assms(1) by (simp add: less_mult_imp_div_less)
  moreover have "v mod 256 + 256 * (v div 256 mod 256) + 65536 * (v div 65536 mod 256) + 16777216 * (v div 16777216) = v"
  proof (rule digits)
    show "v = v mod 256 + 256 * (v div 256)" by (rule mod_mult_div_eq [symmetric])
    show "v div 256 = v div 256 mod 256 + 256 * (v div 65536)" "v div 65536 = v div 65536 mod 256 + 256 * (v div 16777216)"
      by (simp_all add: div_mult2_eq [of v 256 256, simplified] div_mult2_eq [of v 65536 256, simplified])
  qed
  ultimately show ?thesis
    unfolding read32_def b unat_of_nat by simp
qed

lemma read32_put32: "v < two32 \<Longrightarrow> read32 (put32 m a v) a = v"
  by (rule read32_le32) (simp_all add: put32_def load_store)

lemma read32_put32_other: "a + 4 \<le> b \<or> b + 4 \<le> a \<Longrightarrow> read32 (put32 m b v) a = read32 m a"
  by (intro read32_cong) (auto simp: put32_def store_bytes_def)

lemma read32_store_other: "a + 4 \<le> b \<or> b + length xs \<le> a \<Longrightarrow> read32 (store_bytes m b xs) a = read32 m a"
  by (intro read32_cong) (auto simp: store_bytes_def)

lemma load_store_other: "a + n \<le> b \<or> b + length xs \<le> a \<Longrightarrow> load_bytes (store_bytes m b xs) a n = load_bytes m a n"
  by (intro load_bytes_cong) (auto simp: store_bytes_def)

lemma load_put32_other: "a + n \<le> b \<or> b + 4 \<le> a \<Longrightarrow> load_bytes (put32 m b v) a n = load_bytes m a n"
  by (simp add: put32_def load_store_other)

lemma put32_other: "a < b \<or> b + 4 \<le> a \<Longrightarrow> put32 m b v a = m a"
  by (auto simp: put32_def store_bytes_def)

definition entry_name :: "dirent \<Rightarrow> u8 list" where
  "entry_name d = take 31 (d_name d) @ replicate (32 - min 31 (length (d_name d))) 0"

lemma length_entry_name [simp]: "length (entry_name d) = 32"
  by (simp add: entry_name_def min_def)

lemma read32_low_byte: "read32 m a < 256 \<Longrightarrow> unat (m a) = read32 m a"
  by (simp add: read32_def)

lemma create_dentry_ok:
  assumes "S_ISREG mode \<or> S_ISCHR mode"
  obtains bb where "create_dentry m (d_name d) mode dest = (bb, 0)"
    "load_bytes bb dest 32 = entry_name d"
    "read32 bb (dest + 32) = (if S_ISREG mode then 2 else 0)"
    "\<And>a. a < dest \<or> dest + 64 \<le> a \<Longrightarrow> bb a = m a"
proof -
  define ty :: nat where "ty = (if S_ISREG mode then 2 else 0)"
  let ?m1 = "put32 (store_bytes m dest (replicate 64 0)) (dest + 32) ty"
  let ?nm = "take 31 (d_name d) @ replicate (31 - length (d_name d)) 0"
  let ?bb = "put32 ((store_bytes ?m1 dest ?nm)(dest + 31 := 0)) (dest + 36) (two32 - 1)"
  have len: "length ?nm = 31" by simp
  have nm: "?nm @ [0] = entry_name d"
  proof (cases "31 \<le> length (d_name d)")
    case False
    then have "32 - length (d_name d) = Suc (31 - length (d_name d))" by simp
    then show ?thesis using False by (simp add: entry_name_def replicate_append_same)
  qed (simp add: entry_name_def)
  have two: "(store_bytes ?m1 dest ?nm)(dest + 31 := 0) = store_bytes ?m1 dest (entry_name d)"
    unfolding nm [symmetric] by (subst store_bytes_snoc) (simp only: len)
  have bb: "create_dentry m (d_name d) mode dest = (?bb, 0)"
    using assms by (auto simp: create_dentry_def Let_def ty_def)
  have "load_bytes ?bb dest 32 = entry_name d"
    unfolding two by (subst load_put32_other) (simp_all add: load_store)
  moreover have "read32 ?bb (dest + 32) = ty"
    unfolding two by (subst read32_put32_other, simp)
      (simp add: read32_store_other read32_put32 ty_def)
  moreover have "?bb a = m a" if "a < dest \<or> dest + 64 \<le> a" for a
    unfolding two using that by (auto simp: put32_def store_bytes_def)
  ultimately show ?thesis
    using that bb by (auto simp: ty_def)
qed

lemma create_dentry_skip:
  assumes "\<not> S_ISREG mode" and "\<not> S_ISCHR mode"
  shows "create_dentry m src mode dest = (store_bytes m dest (replicate 64 0), -1)"
  using assms by (simp add: create_dentry_def Let_def)


subsection \<open>The boot block while the directory is read\<close>

definition usable :: "dirent \<Rightarrow> bool" where
  "usable d = (case stat_of d of None \<Rightarrow> False
     | Some (mode, sz) \<Rightarrow> (S_ISREG mode \<or> S_ISCHR mode) \<and> create_file d sz \<noteq> None)"

definition file_of :: "dirent \<Rightarrow> file_obj" where
  "file_of d = the (create_file d (snd (the (stat_of d))))"

definition type_of :: "dirent \<Rightarrow> nat" where
  "type_of d = (if S_ISREG (fst (the (stat_of d))) then 2 else 0)"

definition entry_ok :: "mem \<Rightarrow> nat \<Rightarrow> dirent \<Rightarrow> bool" where
  "entry_ok bb a d \<longleftrightarrow> load_bytes bb a 32 = entry_name d \<and> read32 bb (a + 32) = type_of d"

definition dot_ok :: "mem \<Rightarrow> bool" where
  "dot_ok bb \<longleftrightarrow> load_bytes bb 64 32 = 46 # replicate 31 0 \<and> read32 bb 96 = 1"

definition scan_inv :: "createfs_state \<Rightarrow> dirent list \<Rightarrow> bool" where
  "scan_inv s ks \<longleftrightarrow> read32 (bblock s) 0 = length ks + 1 \<and> read32 (bblock s) 4 = length ks \<and>
     read32 (bblock s) 8 = (\<Sum>d\<leftarrow>ks. obj_num (file_of d)) \<and> dot_ok (bblock s) \<and>
     (\<forall>i < length ks. entry_ok (bblock s) (64 * (i + 2)) (ks ! i)) \<and>
     objs s = map (\<lambda>i. (file_of (ks ! i))\<lparr>obj_dentry := 64 * (i + 2)\<rparr>) [0..<length ks] \<and>
     list_rep (inode_list s) [1..<length ks + 1] [0..<length ks]"

lemma entry_ok_cong:
  "entry_ok bb a d \<Longrightarrow> (\<And>x. a \<le> x \<Longrightarrow> x < a + 36 \<Longrightarrow> bb' x = bb x) \<Longrightarrow> entry_ok bb' a d"
proof -
  assume *: "entry_ok bb a d" "\<And>x. a \<le> x \<Longrightarrow> x < a + 36 \<Longrightarrow> bb' x = bb x"
  have "load_bytes bb' a 32 = load_bytes bb a 32" by (rule load_bytes_cong) (simp add: *(2))
  moreover have "read32 bb' (a + 32) = read32 bb (a + 32)" by (rule read32_cong) (simp add: *(2))
  ultimately show ?thesis using *(1) by (simp add: entry_ok_def)
qed

lemma dot_ok_cong: "dot_ok bb \<Longrightarrow> (\<And>x. 64 \<le> x \<Longrightarrow> x < 100 \<Longrightarrow> bb' x = bb x) \<Longrightarrow> dot_ok bb'"
  unfolding dot_ok_def by (simp add: load_bytes_cong [of 32 bb' 64 bb] read32_cong [of bb' 96 bb])

lemma create_file_num:
  assumes "create_file d sz = Some ob"
  shows "obj_num ob = ceil_div sz 4096" and "obj_num ob \<le> 1023" and "obj_size ob = sz"
proof -
  show "obj_num ob = ceil_div sz 4096" "obj_size ob = sz"
    using assms by (auto simp: create_file_def ceil_div_def Let_def split: if_splits)
  have "sz \<le> 4190208" using assms by (simp add: create_file_def split: if_splits)
  then have "\<not> 4096 * 1023 < sz" by simp
  then have "ceil_div sz 4096 \<le> 1023" using ceil_div_bounds(2) [of 4096 1023 sz] by simp
  with \<open>obj_num ob = ceil_div sz 4096\<close> show "obj_num ob \<le> 1023" by simp
qed

lemma usableD: "usable d \<Longrightarrow> stat_of d = Some (mode, sz) \<Longrightarrow> create_file d sz = Some (file_of d) \<and> (S_ISREG mode \<or> S_ISCHR mode)"
  by (auto simp: usable_def file_of_def)

lemma usable_num: "usable d \<Longrightarrow> obj_num (file_of d) \<le> 1023"
  by (cases "stat_of d") (auto simp: usable_def file_of_def intro!: create_file_num(2) [of d])

lemma sum_num_bound: "\<forall>d \<in> set ks. usable d \<Longrightarrow> (\<Sum>d\<leftarrow>ks. obj_num (file_of d)) \<le> 1023 * length ks"
  using usable_num by (induction ks) fastforce+

lemma add_entry_inv:
  assumes "scan_inv s ks" and "length ks < 62" and "stat_of d = Some (mode, sz)" and "\<forall>d \<in> set ks. usable d"
  shows "scan_inv (add_entry d mode sz s) (if usable d then ks @ [d] else ks)"
proof -
  let ?n = "length ks" and ?bb = "bblock s"
  have inv: "read32 ?bb 0 = ?n + 1" "read32 ?bb 4 = ?n" "read32 ?bb 8 = (\<Sum>d\<leftarrow>ks. obj_num (file_of d))" "dot_ok ?bb"
    "\<And>i. i < ?n \<Longrightarrow> entry_ok ?bb (64 * (i + 2)) (ks ! i)"
    "objs s = map (\<lambda>i. (file_of (ks ! i))\<lparr>obj_dentry := 64 * (i + 2)\<rparr>) [0..<?n]"
    "list_rep (inode_list s) [1..<?n + 1] [0..<?n]"
    using assms(1) by (auto simp: scan_inv_def)
  have dest: "unat (?bb 0) * 64 + 64 = 64 * (?n + 2)"
    using read32_low_byte [of ?bb 0] inv(1) assms(2) by simp
  have keep: "scan_inv (s\<lparr>bblock := bb\<rparr>) ks" if "\<And>a. a < 64 * (?n + 2) \<Longrightarrow> bb a = ?bb a" for bb
  proof -
    have "entry_ok bb (64 * (i + 2)) (ks ! i)" if "i < ?n" for i
      using inv(5) [OF that] by (rule entry_ok_cong) (use that \<open>\<And>a. a < 64 * (?n + 2) \<Longrightarrow> bb a = ?bb a\<close> in auto)
    moreover have "read32 bb a = read32 ?bb a" if "a < 60" for a
      using that \<open>\<And>a. a < 64 * (?n + 2) \<Longrightarrow> bb a = ?bb a\<close> by (intro read32_cong) auto
    moreover have "dot_ok bb" using inv(4) by (rule dot_ok_cong) (use that in auto)
    ultimately show ?thesis using inv by (simp add: scan_inv_def)
  qed
  show ?thesis
  proof (cases "S_ISREG mode \<or> S_ISCHR mode")
    case False
    then have "\<not> usable d" using assms(3) by (simp add: usable_def)
    moreover have "scan_inv (s\<lparr>bblock := store_bytes ?bb (64 * (?n + 2)) (replicate 64 0)\<rparr>) ks"
      by (rule keep) (simp add: store_bytes_out)
    ultimately show ?thesis
      using False create_dentry_skip [of mode ?bb "d_name d" "64 * (?n + 2)"]
      unfolding add_entry_def dest by (simp add: Let_def)
  next
    case True
    obtain bb where bb: "create_dentry ?bb (d_name d) mode (64 * (?n + 2)) = (bb, 0)"
      "load_bytes bb (64 * (?n + 2)) 32 = entry_name d" "read32 bb (64 * (?n + 2) + 32) = (if S_ISREG mode then 2 else 0)"
      "\<And>a. a < 64 * (?n + 2) \<or> 64 * (?n + 2) + 64 \<le> a \<Longrightarrow> bb a = ?bb a"
      using that by (rule create_dentry_ok [OF True, of ?bb d "64 * (?n + 2)"])
    show ?thesis
    proof (cases "create_file d sz")
      case None
      then have "\<not> usable d" using assms(3) by (simp add: usable_def)
      moreover have "scan_inv (s\<lparr>bblock := bb\<rparr>) ks"
        by (rule keep) (simp add: bb(4))
      ultimately show ?thesis
        using None bb(1) unfolding add_entry_def dest by (simp add: Let_def)
    next
      case (Some ob)
      then have us: "usable d" "file_of d = ob" "type_of d = (if S_ISREG mode then 2 else 0)"
        using assms(3) True by (auto simp: usable_def file_of_def type_of_def)
      define tot where "tot = (\<Sum>d\<leftarrow>ks. obj_num (file_of d))"
      have tot: "tot \<le> 1023 * ?n" "obj_num ob \<le> 1023"
        using sum_num_bound [OF assms(4)] usable_num [OF us(1)] us(2) by (simp_all add: tot_def)
      have keeps: "scan_inv (s\<lparr>bblock := bb\<rparr>) ks" by (rule keep) (simp add: bb(4))
      then have k: "read32 bb 0 = ?n + 1" "read32 bb 4 = ?n" "read32 bb 8 = tot" "dot_ok bb"
        "\<And>i. i < ?n \<Longrightarrow> entry_ok bb (64 * (i + 2)) (ks ! i)"
        by (auto simp: scan_inv_def tot_def)
      define b1 b2 b3 where "b1 = put32 bb 0 (?n + 2)" and "b2 = put32 b1 4 (?n + 1)"
        and "b3 = put32 b2 8 (tot + obj_num ob)"
      note bs = b1_def b2_def b3_def
      let ?s = "s\<lparr>bblock := b3, objs := objs s @ [ob\<lparr>obj_dentry := 64 * (?n + 2)\<rparr>],
        inode_list := list_insert_at_tail (?n + 1) ?n (inode_list s)\<rparr>"
      have r: "read32 b1 4 = ?n" "read32 b2 8 = tot"
        using k by (simp_all add: bs read32_put32_other)
      have "add_entry d mode sz s = ?s"
        using bb(1) Some inv(6) assms(2) tot k(1) r unfolding add_entry_def dest
        by (simp add: Let_def add32_exact bs)
      moreover have "scan_inv ?s (ks @ [d])"
      proof -
        have hi: "b3 a = bb a" if "12 \<le> a" for a
          using that by (simp add: bs put32_other)
        have "read32 b3 0 = ?n + 2" "read32 b3 4 = ?n + 1" "read32 b3 8 = tot + obj_num ob"
          using assms(2) tot by (simp_all add: bs read32_put32 read32_put32_other)
        moreover have "dot_ok b3" using k(4) by (rule dot_ok_cong) (rule hi, simp)
        moreover have "entry_ok b3 (64 * (i + 2)) ((ks @ [d]) ! i)" if "i < ?n + 1" for i
        proof (cases "i < ?n")
          case True
          from k(5) [OF this] have "entry_ok b3 (64 * (i + 2)) (ks ! i)"
            by (rule entry_ok_cong) (rule hi, simp)
          with True show ?thesis by (simp add: nth_append)
        next
          case False
          have "entry_ok bb (64 * (?n + 2)) d"
            using bb(2,3) us(3) by (simp add: entry_ok_def)
          then have "entry_ok b3 (64 * (?n + 2)) d"
            by (rule entry_ok_cong) (rule hi, simp)
          with False that show ?thesis by (simp add: nth_append less_Suc_eq)
        qed
        moreover have "list_rep (inode_list ?s) ([1..<?n + 1] @ [?n + 1]) ([0..<?n] @ [?n])"
          using list_insert_at_tail_rep [OF inv(7), of "?n + 1" ?n] by (simp add: ROOT_def)
        ultimately show ?thesis
          using us inv(6) by (simp add: scan_inv_def tot_def nth_append cong: map_cong)
      qed
      ultimately show ?thesis using us(1) by simp
    qed
  qed
qed

lemma scan_dir_inv:
  "scan_inv s ks \<Longrightarrow> length ks + length (filter usable ds) \<le> 61 \<Longrightarrow> \<forall>d \<in> set ds. stat_of d \<noteq> None \<Longrightarrow>
   \<forall>d \<in> set ks. usable d \<Longrightarrow> \<exists>s'. scan_dir ds False s = Inr s' \<and> scan_inv s' (ks @ filter usable ds)"
proof (induction ds arbitrary: s ks)
  case (Cons d ds)
  obtain mode sz where st: "stat_of d = Some (mode, sz)" using Cons.prems(3) by auto
  have c: "read32 (bblock s) 0 \<le> 62" using Cons.prems(1,2) by (simp add: scan_inv_def)
  let ?ks = "if usable d then ks @ [d] else ks"
  have "scan_inv (add_entry d mode sz s) ?ks"
    using Cons.prems(2,4) by (intro add_entry_inv [OF Cons.prems(1) _ st]) auto
  moreover have "length ?ks + length (filter usable ds) \<le> 61" using Cons.prems(2) by auto
  moreover have "\<forall>d \<in> set ds. stat_of d \<noteq> None" "\<forall>d \<in> set ?ks. usable d" using Cons.prems(3,4) by auto
  ultimately have "\<exists>s'. scan_dir ds False (add_entry d mode sz s) = Inr s' \<and> scan_inv s' (?ks @ filter usable ds)"
    by (rule Cons.IH)
  moreover have "?ks @ filter usable ds = ks @ filter usable (d # ds)" by simp
  ultimately show ?case using c st by simp
qed simp

subsection \<open>Drawing numbers\<close>

text \<open>A generator is fair when it hits every residue again and again.\<close>

definition fair :: "(nat \<Rightarrow> nat) \<Rightarrow> bool" where
  "fair rnd \<longleftrightarrow> (\<forall>n v k. v < n \<longrightarrow> (\<exists>j \<ge> k. rnd j mod n = v))"

lemma fair_id: "fair (\<lambda>k. k)"
  unfolding fair_def
proof (intro allI impI)
  fix n v k :: nat assume "v < n"
  then show "\<exists>j \<ge> k. j mod n = v"
    by (intro exI [of _ "v + k * n"]) (simp add: trans_le_add2)
qed

lemma draw_ok:
  assumes "fair rnd" and "v < n" and "fmap ! (v + base) = 0"
  shows "\<exists>v' k'. draw rnd fmap n base k = Some (v', k') \<and> v' < n \<and> fmap ! (v' + base) = 0"
proof -
  obtain j where j: "k \<le> j" "rnd j mod n = v" using assms(1,2) unfolding fair_def by blast
  then show ?thesis
  proof (induction "j - k" arbitrary: k)
    case 0
    then have "j = k" by simp
    then show ?case using 0 assms by (subst draw.simps) (simp add: Let_def)
  next
    case (Suc d)
    show ?case
    proof (cases "fmap ! (rnd k mod n + base) = 0")
      case True
      then show ?thesis using assms(2) by (subst draw.simps) (simp add: Let_def)
    next
      case False
      have "\<exists>v' k'. draw rnd fmap n base (k + 1) = Some (v', k') \<and> v' < n \<and> fmap ! (v' + base) = 0"
        using Suc.hyps(2) Suc.prems by (intro Suc.hyps(1)) auto
      with False show ?thesis by (subst draw.simps) (simp add: Let_def)
    qed
  qed
qed

text \<open>A free map in which the inode numbers \<open>is\<close> and the data block numbers \<open>bs\<close> are taken.\<close>

definition fm_rep :: "freemap \<Rightarrow> nat \<Rightarrow> nat \<Rightarrow> nat list \<Rightarrow> nat list \<Rightarrow> bool" where
  "fm_rep fm n d is bs \<longleftrightarrow> fm_inodes fm = n \<and> fm_datablocks fm = d \<and> length (fm_map fm) = n + d + 1 \<and>
     distinct is \<and> distinct bs \<and> set is \<subseteq> {..<n} \<and> set bs \<subseteq> {..<d} \<and>
     (\<forall>v < n. fm_map fm ! (v + 1) = 0 \<longleftrightarrow> v \<notin> set is) \<and>
     (\<forall>v < d. fm_map fm ! (v + n + 1) = 0 \<longleftrightarrow> v \<notin> set bs)"

lemma init_freemap_rep: "fm_rep (init_freemap a b) (2 * a) (2 * b) [] []"
  by (simp add: fm_rep_def init_freemap_def get_size_def Let_def)

lemma free_number:
  assumes "distinct xs" and "set xs \<subseteq> {..<n}" and "length xs < n"
  obtains v where "v < n" and "v \<notin> set xs"
proof -
  have "card (set xs) < card {..<n}" using assms distinct_card [of xs] by simp
  then have "\<not> {..<n} \<subseteq> set xs" by (metis card_mono finite_set not_le)
  with that show ?thesis by auto
qed

lemma get_inode_block_ok:
  assumes "fair rnd" and "fm_rep fm n d is bs" and "length is < n"
  obtains v fm' k' where "get_inode_block rnd (fm, k) = Some (v, fm', k')" "v < n" "v \<notin> set is"
    "fm_rep fm' n d (is @ [v]) bs"
proof -
  obtain u where u: "u < n" "u \<notin> set is"
    using assms(2,3) by (auto simp: fm_rep_def elim: free_number [of "is" n])
  then have "fm_map fm ! (u + 1) = 0" using assms(2) by (simp add: fm_rep_def)
  from draw_ok [OF assms(1) u(1) this, of k] obtain v k' where
    v: "draw rnd (fm_map fm) n 1 k = Some (v, k')" "v < n" "fm_map fm ! (v + 1) = 0" by blast
  then have "v \<notin> set is" using assms(2) by (simp add: fm_rep_def)
  moreover have "fm_rep (fm\<lparr>fm_map := (fm_map fm)[v + 1 := 1]\<rparr>) n d (is @ [v]) bs"
    using assms(2) v calculation by (auto simp: fm_rep_def nth_list_update)
  ultimately show ?thesis
    using that [of v "fm\<lparr>fm_map := (fm_map fm)[v + 1 := 1]\<rparr>" k'] v assms(2)
    by (simp add: get_inode_block_def fm_rep_def)
qed

lemma get_data_block_ok:
  assumes "fair rnd" and "fm_rep fm n d is bs" and "length bs < d"
  obtains v fm' k' where "get_data_block rnd (fm, k) = Some (v, fm', k')" "v < d" "v \<notin> set bs"
    "fm_rep fm' n d is (bs @ [v])"
proof -
  obtain u where u: "u < d" "u \<notin> set bs"
    using assms(2,3) by (auto simp: fm_rep_def elim: free_number [of bs d])
  then have "fm_map fm ! (u + (n + 1)) = 0" using assms(2) by (simp add: fm_rep_def)
  from draw_ok [OF assms(1) u(1) this, of k] obtain v k' where
    v: "draw rnd (fm_map fm) d (n + 1) k = Some (v, k')" "v < d" "fm_map fm ! (v + n + 1) = 0" by auto
  then have "v \<notin> set bs" using assms(2) by (simp add: fm_rep_def)
  moreover have "fm_rep (fm\<lparr>fm_map := (fm_map fm)[v + n + 1 := 1]\<rparr>) n d is (bs @ [v])"
    using assms(2) v calculation by (auto simp: fm_rep_def nth_list_update)
  ultimately show ?thesis
    using that [of v "fm\<lparr>fm_map := (fm_map fm)[v + n + 1 := 1]\<rparr>" k'] v assms(2)
    by (simp add: get_data_block_def fm_rep_def)
qed

lemma number_inodes_ok:
  assumes "fair rnd" and "n < N" and "N < two32"
  shows "length is = j \<Longrightarrow> j \<le> n \<Longrightarrow> fm_rep fm N D is [] \<Longrightarrow> n = length (objs s) \<Longrightarrow>
    (\<forall>i < n. obj_dentry (objs s ! i) = 64 * (i + 2)) \<Longrightarrow>
    (\<forall>i < j. obj_ino (objs s ! i) = is ! i \<and> read32 (bblock s) (64 * (i + 2) + 36) = is ! i) \<Longrightarrow>
    \<exists>s' fm' k' is'. number_inodes rnd [j..<n] (s, fm, k) = Some (s', fm', k') \<and> length is' = n \<and> fm_rep fm' N D is' [] \<and>
      objs s' = map (\<lambda>i. (objs s ! i)\<lparr>obj_ino := is' ! i\<rparr>) [0..<n] \<and>
      (\<forall>i < n. read32 (bblock s') (64 * (i + 2) + 36) = is' ! i) \<and>
      (\<forall>a. (\<forall>i < n. a < 64 * (i + 2) + 36 \<or> 64 * (i + 2) + 40 \<le> a) \<longrightarrow> bblock s' a = bblock s a)"
proof (induction "n - j" arbitrary: j "is" s fm k)
  case 0
  have "objs s = map (\<lambda>i. (objs s ! i)\<lparr>obj_ino := is ! i\<rparr>) [0..<n]"
    using 0 by (intro nth_equalityI) auto
  with 0 show ?case
    by (intro exI [of _ s] exI [of _ fm] exI [of _ k] exI [of _ "is"]) simp
next
  case (Suc c)
  then have j: "j < n" by simp
  obtain v fm1 k1 where v: "get_inode_block rnd (fm, k) = Some (v, fm1, k1)" "v < N" "v \<notin> set is"
    "fm_rep fm1 N D (is @ [v]) []"
    using get_inode_block_ok [OF assms(1) Suc.prems(3), of k] Suc.prems(1) j assms(2) by auto
  let ?s = "s\<lparr>objs := (objs s)[j := (objs s ! j)\<lparr>obj_ino := v\<rparr>], bblock := put32 (bblock s) (64 * (j + 2) + 36) v\<rparr>"
  have step: "number_inodes rnd [j..<n] (s, fm, k) = number_inodes rnd [j + 1..<n] (?s, fm1, k1)"
    using v(1) j Suc.prems(4,5) by (simp add: upt_conv_Cons Let_def)
  have "\<exists>s' fm' k' is'. number_inodes rnd [j + 1..<n] (?s, fm1, k1) = Some (s', fm', k') \<and> length is' = n \<and> fm_rep fm' N D is' [] \<and>
      objs s' = map (\<lambda>i. (objs ?s ! i)\<lparr>obj_ino := is' ! i\<rparr>) [0..<n] \<and>
      (\<forall>i < n. read32 (bblock s') (64 * (i + 2) + 36) = is' ! i) \<and>
      (\<forall>a. (\<forall>i < n. a < 64 * (i + 2) + 36 \<or> 64 * (i + 2) + 40 \<le> a) \<longrightarrow> bblock s' a = bblock ?s a)"
  proof (rule Suc.hyps(1))
    show "\<forall>i < j + 1. obj_ino (objs ?s ! i) = (is @ [v]) ! i \<and> read32 (bblock ?s) (64 * (i + 2) + 36) = (is @ [v]) ! i"
    proof (intro allI impI)
      fix i assume "i < j + 1"
      then consider "i < j" | "i = j" by linarith
      then show "obj_ino (objs ?s ! i) = (is @ [v]) ! i \<and> read32 (bblock ?s) (64 * (i + 2) + 36) = (is @ [v]) ! i"
      proof cases
        case 1
        then have "read32 (bblock ?s) (64 * (i + 2) + 36) = read32 (bblock s) (64 * (i + 2) + 36)"
          by (simp add: read32_put32_other)
        with 1 Suc.prems(1,6) show ?thesis by (simp add: nth_append)
      next
        case 2
        with Suc.prems(1,4) j v(2) assms(3) show ?thesis by (simp add: read32_put32 nth_append)
      qed
    qed
    show "c = n - (j + 1)" using Suc.hyps(2) by simp
    show "fm_rep fm1 N D (is @ [v]) []" by (rule v(4))
  qed (use Suc.prems j in \<open>auto simp: nth_list_update\<close>)
  then obtain s' fm' k' is' where r: "number_inodes rnd [j + 1..<n] (?s, fm1, k1) = Some (s', fm', k')"
    "length is' = n" "fm_rep fm' N D is' []" "objs s' = map (\<lambda>i. (objs ?s ! i)\<lparr>obj_ino := is' ! i\<rparr>) [0..<n]"
    "\<forall>i < n. read32 (bblock s') (64 * (i + 2) + 36) = is' ! i"
    "\<forall>a. (\<forall>i < n. a < 64 * (i + 2) + 36 \<or> 64 * (i + 2) + 40 \<le> a) \<longrightarrow> bblock s' a = bblock ?s a"
    by blast
  have "objs s' = map (\<lambda>i. (objs s ! i)\<lparr>obj_ino := is' ! i\<rparr>) [0..<n]"
    unfolding r(4) using Suc.prems(4) j by (intro map_cong) (auto simp: nth_list_update)
  moreover have "bblock s' a = bblock s a"
    if "\<forall>i < n. a < 64 * (i + 2) + 36 \<or> 64 * (i + 2) + 40 \<le> a" for a
    using r(6) that j put32_other [of a "64 * (j + 2) + 36" "bblock s" v] by fastforce
  ultimately show ?case
    using step r by auto
qed


lemma number_blocks_loop_ok:
  assumes "fair rnd" and "num \<le> length (obj_blocks ob0)"
  shows "p \<le> num \<Longrightarrow> length (obj_blocks ob) = length (obj_blocks ob0) \<Longrightarrow> fm_rep fm N D is (bs @ take p (obj_blocks ob)) \<Longrightarrow>
    length bs + num < D \<Longrightarrow>
    \<exists>bl fm' k'. number_blocks_loop rnd [p..<num] (ob, fm, k) = Some (ob\<lparr>obj_blocks := bl\<rparr>, fm', k') \<and>
      length bl = length (obj_blocks ob0) \<and> drop num bl = drop num (obj_blocks ob) \<and> fm_rep fm' N D is (bs @ take num bl)"
proof (induction "num - p" arbitrary: p ob fm k)
  case 0
  then show ?case by (intro exI [of _ "obj_blocks ob"]) simp
next
  case (Suc c)
  then have p: "p < num" by simp
  obtain v fm1 k1 where v: "get_data_block rnd (fm, k) = Some (v, fm1, k1)"
    "fm_rep fm1 N D is ((bs @ take p (obj_blocks ob)) @ [v])"
  proof -
    have "length (bs @ take p (obj_blocks ob)) < D" using Suc.prems(4) p by (simp add: min_def)
    from get_data_block_ok [OF assms(1) Suc.prems(3) this, of k] that show ?thesis by blast
  qed
  let ?ob = "ob\<lparr>obj_blocks := (obj_blocks ob)[p := v]\<rparr>"
  have len: "p < length (obj_blocks ob)" using p assms(2) Suc.prems(2) by simp
  then have tk: "take (p + 1) (obj_blocks ?ob) = take p (obj_blocks ob) @ [v]"
    by (simp add: take_Suc_conv_app_nth)
  have "\<exists>bl fm' k'. number_blocks_loop rnd [p + 1..<num] (?ob, fm1, k1) = Some (?ob\<lparr>obj_blocks := bl\<rparr>, fm', k') \<and>
      length bl = length (obj_blocks ob0) \<and> drop num bl = drop num (obj_blocks ?ob) \<and> fm_rep fm' N D is (bs @ take num bl)"
    using Suc.hyps(2) p Suc.prems(2,4) v(2) by (intro Suc.hyps(1)) (simp_all only: tk, simp_all)
  then show ?case
    using v(1) p by (auto simp: upt_conv_Cons)
qed

lemma number_blocks_ok:
  assumes "fair rnd" and "n = length os" and "\<And>i. i < n \<Longrightarrow> obj_num (os ! i) \<le> length (obj_blocks (os ! i))"
    and "(\<Sum>i\<leftarrow>[0..<n]. obj_num (os ! i)) < D"
  shows "j \<le> n \<Longrightarrow> length bls = j \<Longrightarrow> (\<And>i. i < j \<Longrightarrow> length (bls ! i) = length (obj_blocks (os ! i))) \<Longrightarrow>
    length os' = n \<Longrightarrow>
    (\<And>i. i < n \<Longrightarrow> os' ! i = (if i < j then (os ! i)\<lparr>obj_blocks := bls ! i\<rparr> else os ! i)) \<Longrightarrow>
    fm_rep fm N D is (concat (map (\<lambda>i. take (obj_num (os ! i)) (bls ! i)) [0..<j])) \<Longrightarrow>
    \<exists>bls' fm' k'. number_blocks rnd [j..<n] (os', fm, k) = Some (map (\<lambda>i. (os ! i)\<lparr>obj_blocks := bls' ! i\<rparr>) [0..<n], fm', k') \<and>
      length bls' = n \<and> (\<forall>i < n. length (bls' ! i) = length (obj_blocks (os ! i))) \<and>
      fm_rep fm' N D is (concat (map (\<lambda>i. take (obj_num (os ! i)) (bls' ! i)) [0..<n]))"
proof (induction "n - j" arbitrary: j bls os' fm k)
  case 0
  then have "os' = map (\<lambda>i. (os ! i)\<lparr>obj_blocks := bls ! i\<rparr>) [0..<n]"
    by (intro nth_equalityI) auto
  with 0 show ?case by (intro exI [of _ bls]) simp
next
  case (Suc c)
  then have j: "j < n" by simp
  let ?bs = "concat (map (\<lambda>i. take (obj_num (os ! i)) (bls ! i)) [0..<j])"
  have "length (take (obj_num (os ! i)) (bls ! i)) = obj_num (os ! i)" if "i < j" for i
    using Suc.prems(3) [OF that] assms(3) [of i] that j by simp
  then have lb: "length ?bs = (\<Sum>i\<leftarrow>[0..<j]. obj_num (os ! i))"
    unfolding length_concat map_map comp_def by (intro arg_cong [where f = sum_list] map_cong) auto
  have "(\<Sum>i\<leftarrow>[0..<j]. obj_num (os ! i)) + obj_num (os ! j) \<le> (\<Sum>i\<leftarrow>[0..<n]. obj_num (os ! i))"
  proof -
    have "[0..<n] = [0..<j] @ [j..<n]" using upt_add_eq_append [of 0 j "n - j"] j by simp
    moreover have "[j..<n] = j # [j + 1..<n]" using j by (rule upt_conv_Cons [unfolded Suc_eq_plus1])
    ultimately show ?thesis by simp
  qed
  then have room: "length ?bs + obj_num (os ! j) < D" using lb assms(4) by simp
  have osj: "os' ! j = os ! j" using Suc.prems(5) [OF j] by simp
  have fm0: "fm_rep fm N D is (?bs @ take 0 (obj_blocks (os ! j)))" using Suc.prems(6) by simp
  obtain bl fm1 k1 where bl: "number_blocks_loop rnd [0..<obj_num (os ! j)] (os ! j, fm, k) =
      Some ((os ! j)\<lparr>obj_blocks := bl\<rparr>, fm1, k1)" "length bl = length (obj_blocks (os ! j))"
    "fm_rep fm1 N D is (?bs @ take (obj_num (os ! j)) bl)"
    using number_blocks_loop_ok [OF assms(1) assms(3) [OF j] _ _ fm0 room, of k] by auto
  have "\<exists>bls' fm' k'. number_blocks rnd [j + 1..<n] (os'[j := (os ! j)\<lparr>obj_blocks := bl\<rparr>], fm1, k1) =
        Some (map (\<lambda>i. (os ! i)\<lparr>obj_blocks := bls' ! i\<rparr>) [0..<n], fm', k') \<and>
      length bls' = n \<and> (\<forall>i < n. length (bls' ! i) = length (obj_blocks (os ! i))) \<and>
      fm_rep fm' N D is (concat (map (\<lambda>i. take (obj_num (os ! i)) (bls' ! i)) [0..<n]))"
  proof (rule Suc.hyps(1) [of "j + 1" "bls @ [bl]"])
    have eq: "map (\<lambda>i. take (obj_num (os ! i)) ((bls @ [bl]) ! i)) [0..<j + 1] =
        map (\<lambda>i. take (obj_num (os ! i)) (bls ! i)) [0..<j] @ [take (obj_num (os ! j)) bl]"
      using Suc.prems(2) by (simp add: nth_append)
    show "fm_rep fm1 N D is (concat (map (\<lambda>i. take (obj_num (os ! i)) ((bls @ [bl]) ! i)) [0..<j + 1]))"
      unfolding eq using bl(3) by simp
  qed (use Suc.hyps(2) Suc.prems j bl(2) in \<open>auto simp: nth_append less_Suc_eq nth_list_update\<close>)
  then show ?case
    using bl(1) osj j by (simp add: upt_conv_Cons)
qed

subsection \<open>Writes\<close>

text \<open>Whole blocks written to different places stay as they were written.\<close>

lemma do_writes_ok:
  assumes "\<forall>k. ok k"
  shows "(\<forall>w \<in> set ws. length (snd w) = 4096) \<Longrightarrow> distinct (map fst ws) \<Longrightarrow> (\<forall>w \<in> set ws. fst w mod 4096 = 0) \<Longrightarrow>
    \<exists>c' sz'. do_writes ok k ws (c, sz) = Inr (c', sz') \<and>
      (\<forall>(off, bs) \<in> set ws. load_bytes c' off 4096 = bs \<and> off + 4096 \<le> sz') \<and>
      (\<forall>a. (\<forall>off \<in> set (map fst ws). a < off \<or> off + 4096 \<le> a) \<longrightarrow> c' a = c a) \<and>
      sz \<le> sz' \<and> (\<forall>b. sz \<le> b \<and> (\<forall>off \<in> set (map fst ws). off + 4096 \<le> b) \<longrightarrow> sz' \<le> b)"
proof (induction ws arbitrary: k c sz)
  case (Cons w ws)
  obtain off bs where w: "w = (off, bs)" by (cases w)
  have len: "length bs = 4096" using Cons.prems(1) w by simp
  have apart: "off + 4096 \<le> o' \<or> o' + 4096 \<le> off" if "o' \<in> set (map fst ws)" for o'
  proof -
    have "off \<noteq> o'" "off mod 4096 = 0" "o' mod 4096 = 0"
      using that Cons.prems(2,3) w by auto
    then show ?thesis by (auto elim!: dvdE simp: mod_eq_0_iff_dvd)
  qed
  obtain c' sz' where r: "do_writes ok (k + 1) ws (store_bytes c off bs, max sz (off + 4096)) = Inr (c', sz')"
    "\<forall>(off, bs) \<in> set ws. load_bytes c' off 4096 = bs \<and> off + 4096 \<le> sz'"
    "\<forall>a. (\<forall>off \<in> set (map fst ws). a < off \<or> off + 4096 \<le> a) \<longrightarrow> c' a = store_bytes c off bs a"
    "max sz (off + 4096) \<le> sz'"
    "\<forall>b. max sz (off + 4096) \<le> b \<and> (\<forall>off \<in> set (map fst ws). off + 4096 \<le> b) \<longrightarrow> sz' \<le> b"
    using Cons.IH [of "k + 1" "store_bytes c off bs" "max sz (off + 4096)"] Cons.prems by auto
  have "load_bytes c' off 4096 = load_bytes (store_bytes c off bs) off 4096"
    by (rule load_bytes_cong, rule r(3) [rule_format]) (use apart in fastforce)
  then have here: "load_bytes c' off 4096 = bs" using len by (simp add: load_store)
  have out: "c' a = c a" if "\<forall>o' \<in> set (map fst (w # ws)). a < o' \<or> o' + 4096 \<le> a" for a
    using r(3) [rule_format, of a] that len w by (simp add: store_bytes_out)
  have "do_writes ok k (w # ws) (c, sz) = Inr (c', sz')"
    using r(1) w len assms by simp
  moreover have "\<forall>(off, bs) \<in> set (w # ws). load_bytes c' off 4096 = bs \<and> off + 4096 \<le> sz'"
    using r(2,4) here w by auto
  moreover have "sz \<le> sz'" using r(4) by simp
  moreover have "sz' \<le> b" if "sz \<le> b \<and> (\<forall>off \<in> set (map fst (w # ws)). off + 4096 \<le> b)" for b
    using r(5) that w by auto
  ultimately show ?case using out by blast
qed simp

end
