(* ===== verification/UImage.thy ===== *)
theory UImage
  imports UCreatefs
begin

text \<open>
  The image that createfs writes and the file system the kernel loads from it: what each
  block of the image holds after a run, and that loading it gives back the directory and the
  contents of every file.
\<close>

subsection \<open>The image\<close>

lemma boot_init_inv: "scan_inv \<lparr>bblock = boot_init, objs = [], inode_list = list_init 0\<rparr> []"
proof -
  have "load_bytes boot_init 64 32 = 46 # replicate 31 0"
    unfolding boot_init_def by (simp add: load_put32_other)
      (rule nth_equalityI, auto simp: store_bytes_def nth_Cons')
  moreover have "read32 boot_init 0 = 1" "read32 boot_init 96 = 1" "read32 boot_init 4 = 0" "read32 boot_init 8 = 0"
    by (simp_all add: boot_init_def read32_put32 read32_put32_other read32_store_other) (simp_all add: read32_def)
  ultimately show ?thesis
    using list_init_rep [of 0] by (simp add: scan_inv_def dot_ok_def)
qed

text \<open>What a host promises of a file: a read fills at most the buffer.\<close>

definition dirent_ok :: "dirent \<Rightarrow> bool" where
  "dirent_ok d \<longleftrightarrow> stat_of d \<noteq> None \<and>
     (\<forall>i. length (buffers d i) = 4096 \<and> (\<forall>bs. reads d i = Some bs \<longrightarrow> length bs \<le> 4096))"

definition env_ok :: "createfs_env \<Rightarrow> dirent list \<Rightarrow> bool" where
  "env_ok e ds \<longleftrightarrow> opendir e = Some ds \<and> \<not> dir_errno e \<and> fair (rand e) \<and> (\<forall>k. write_ok e k) \<and> (\<forall>d \<in> set ds. dirent_ok d)"

lemma create_file_loop_lengths:
  "dirent_ok d \<Longrightarrow> create_file_loop d i k = Some xs \<Longrightarrow> length xs = k \<and> (\<forall>x \<in> set xs. length x = 4096)"
proof (induction k arbitrary: i xs)
  case (Suc k)
  then obtain bs ys where bs: "reads d i = Some bs" "create_file_loop d (i + 1) k = Some ys"
    "xs = (bs @ drop (length bs) (buffers d i)) # ys"
    by (auto split: option.splits)
  moreover have "length bs \<le> 4096" "length (buffers d i) = 4096"
    using Suc.prems(1) bs(1) by (auto simp: dirent_ok_def)
  ultimately show ?case using Suc.IH [OF Suc.prems(1) bs(2)] by simp
qed simp

lemma create_file_SomeD:
  "create_file d sz = Some ob \<Longrightarrow>
   create_file_loop d 0 (obj_num ob) = Some (obj_data ob) \<and> obj_blocks ob = replicate 1023 0"
  by (auto simp: create_file_def Let_def simp del: create_file_loop.simps split: if_splits)

lemma create_file_data:
  assumes "dirent_ok d" and "create_file d sz = Some ob"
  shows "length (obj_data ob) = obj_num ob" and "\<forall>x \<in> set (obj_data ob). length x = 4096"
    and "obj_blocks ob = replicate 1023 0"
  using create_file_loop_lengths [OF assms(1)] create_file_SomeD [OF assms(2)] by blast+

lemma file_of_facts:
  assumes "usable d" and "dirent_ok d"
  shows "length (obj_data (file_of d)) = obj_num (file_of d)" and "\<forall>x \<in> set (obj_data (file_of d)). length x = 4096"
    and "obj_blocks (file_of d) = replicate 1023 0" and "obj_num (file_of d) \<le> 1023"
  using assms create_file_data [of d _ "file_of d"] usable_num [of d]
  by (auto simp: usable_def file_of_def split: option.splits)

lemma length_concat_le32 [simp]: "length (concat (map le32 xs)) = 4 * length xs"
  by (induction xs) simp_all

definition image_ok :: "mem \<Rightarrow> nat \<Rightarrow> dirent list \<Rightarrow> nat list \<Rightarrow> nat list list \<Rightarrow> bool" where
  "image_ok img sz ks is bls \<longleftrightarrow>
     (let n = length ks; tot = (\<Sum>d\<leftarrow>ks. obj_num (file_of d)) in
      read32 img 0 = n + 1 \<and> read32 img 4 = 2 * n \<and> read32 img 8 = 2 * tot \<and> dot_ok img \<and>
      length is = n \<and> length bls = n \<and> distinct is \<and> set is \<subseteq> {..<2 * n} \<and>
      (\<forall>i < n. entry_ok img (64 * (i + 2)) (ks ! i) \<and> read32 img (64 * (i + 2) + 36) = is ! i \<and>
        length (bls ! i) = 1023 \<and>
        load_bytes img (is ! i * 4096 + 4096) 4096 = le32 (obj_size (file_of (ks ! i))) @ concat (map le32 (bls ! i)) \<and>
        (\<forall>j < obj_num (file_of (ks ! i)). bls ! i ! j < 2 * tot \<and> (bls ! i ! j + 2 * n + 1) * 4096 + 4096 \<le> sz \<and>
          load_bytes img ((bls ! i ! j + 2 * n + 1) * 4096) 4096 = obj_data (file_of (ks ! i)) ! j)) \<and>
      (\<forall>v < 2 * n. v \<notin> set is \<longrightarrow> read32 img (v * 4096 + 4096) = 0) \<and>
      sz \<le> (2 * n + 2 * tot + 1) * 4096)"

lemma createfs_image_ok:
  assumes env: "env_ok e ds" and ks: "ks = filter usable ds" and n61: "length ks \<le> 61"
    and some: "\<exists>d \<in> set ks. obj_num (file_of d) > 0"
  shows "\<exists>img sz is bls. createfs_image e = Some (Inr (img, sz)) \<and> image_ok img sz ks is bls"
proof -
  let ?n = "length ks" and ?tot = "\<Sum>d\<leftarrow>ks. obj_num (file_of d)"
  have us: "\<forall>d \<in> set ks. usable d \<and> dirent_ok d" using env ks by (auto simp: env_ok_def)
  have n0: "0 < ?n" using some by (cases ks) auto
  have tot0: "0 < ?tot" using some by (auto simp: sum_list_eq_0_iff intro: ccontr)
  have tot: "?tot \<le> 1023 * ?n" using sum_num_bound us by blast
  obtain s1 where s1: "scan_dir ds False \<lparr>bblock = boot_init, objs = [], inode_list = list_init 0\<rparr> = Inr s1" "scan_inv s1 ks"
    using scan_dir_inv [OF boot_init_inv, of ds] env ks n61 by (auto simp: env_ok_def dirent_ok_def)
  then have inv: "read32 (bblock s1) 0 = ?n + 1" "read32 (bblock s1) 4 = ?n" "read32 (bblock s1) 8 = ?tot" "dot_ok (bblock s1)"
    "\<And>i. i < ?n \<Longrightarrow> entry_ok (bblock s1) (64 * (i + 2)) (ks ! i)"
    "objs s1 = map (\<lambda>i. (file_of (ks ! i))\<lparr>obj_dentry := 64 * (i + 2)\<rparr>) [0..<?n]"
    "list_rep (inode_list s1) [1..<?n + 1] [0..<?n]"
    by (auto simp: scan_inv_def)
  define fm where "fm = init_freemap ?n ?tot"
  have fm: "fm_rep fm (2 * ?n) (2 * ?tot) [] []" by (simp add: fm_def init_freemap_rep)
  define bb1 where "bb1 = put32 (bblock s1) 4 (2 * ?n)"
  define bb2 where "bb2 = put32 bb1 8 (2 * ?tot)"
  have bb2: "read32 bb2 0 = ?n + 1" "read32 bb2 4 = 2 * ?n" "read32 bb2 8 = 2 * ?tot"
    using inv(1) n61 tot by (simp_all add: bb2_def bb1_def read32_put32 read32_put32_other)
  have bb2_hi: "bb2 a = bblock s1 a" if "12 \<le> a" for a
    using that by (simp add: bb2_def bb1_def put32_other)
  have "\<exists>s2 fm2 k2 is. number_inodes (rand e) [0..<?n] (s1\<lparr>bblock := bb2\<rparr>, fm, 0) = Some (s2, fm2, k2) \<and>
      length is = ?n \<and> fm_rep fm2 (2 * ?n) (2 * ?tot) is [] \<and>
      objs s2 = map (\<lambda>i. (objs (s1\<lparr>bblock := bb2\<rparr>) ! i)\<lparr>obj_ino := is ! i\<rparr>) [0..<?n] \<and>
      (\<forall>i < ?n. read32 (bblock s2) (64 * (i + 2) + 36) = is ! i) \<and>
      (\<forall>a. (\<forall>i < ?n. a < 64 * (i + 2) + 36 \<or> 64 * (i + 2) + 40 \<le> a) \<longrightarrow> bblock s2 a = bblock (s1\<lparr>bblock := bb2\<rparr>) a)"
    by (rule number_inodes_ok [OF _ _ _ _ _ fm]) (use env n0 n61 fm inv(6) in \<open>simp_all add: env_ok_def\<close>)
  then obtain s2 fm2 k2 "is" where s2: "number_inodes (rand e) [0..<?n] (s1\<lparr>bblock := bb2\<rparr>, fm, 0) = Some (s2, fm2, k2)"
    "length is = ?n" "fm_rep fm2 (2 * ?n) (2 * ?tot) is []"
    "objs s2 = map (\<lambda>i. (objs (s1\<lparr>bblock := bb2\<rparr>) ! i)\<lparr>obj_ino := is ! i\<rparr>) [0..<?n]"
    "\<And>i. i < ?n \<Longrightarrow> read32 (bblock s2) (64 * (i + 2) + 36) = is ! i"
    "\<And>a. (\<And>i. i < ?n \<Longrightarrow> a < 64 * (i + 2) + 36 \<or> 64 * (i + 2) + 40 \<le> a) \<Longrightarrow> bblock s2 a = bblock (s1\<lparr>bblock := bb2\<rparr>) a"
    by (elim exE conjE) blast
  define os where "os = objs s2"
  have os: "length os = ?n" "\<And>i. i < ?n \<Longrightarrow> os ! i = (file_of (ks ! i))\<lparr>obj_dentry := 64 * (i + 2), obj_ino := is ! i\<rparr>"
    using s2(4) inv(6) by (simp_all add: os_def)
  have nums: "obj_num (os ! i) = obj_num (file_of (ks ! i))" "obj_blocks (os ! i) = replicate 1023 0"
    "obj_num (os ! i) \<le> 1023" if "i < ?n" for i
    using os(2) [OF that] file_of_facts [of "ks ! i"] us nth_mem [OF that] by auto
  have sum: "(\<Sum>i\<leftarrow>[0..<?n]. obj_num (os ! i)) = ?tot"
  proof -
    have "map (\<lambda>i. obj_num (os ! i)) [0..<?n] = map (\<lambda>d. obj_num (file_of d)) ks"
      using nums(1) by (intro nth_equalityI) auto
    then show ?thesis by simp
  qed
  obtain bls fm3 k3 where bls: "number_blocks (rand e) [0..<?n] (os, fm2, k2) =
      Some (map (\<lambda>i. (os ! i)\<lparr>obj_blocks := bls ! i\<rparr>) [0..<?n], fm3, k3)" "length bls = ?n"
    "\<And>i. i < ?n \<Longrightarrow> length (bls ! i) = 1023"
    "fm_rep fm3 (2 * ?n) (2 * ?tot) is (concat (map (\<lambda>i. take (obj_num (os ! i)) (bls ! i)) [0..<?n]))"
    using number_blocks_ok [of "rand e" ?n os "2 * ?tot" 0 "[]" os fm2 "2 * ?n" "is" k2] env os(1) nums(2,3) sum tot0 s2(3)
    by (auto simp: env_ok_def)
  define os3 where "os3 = map (\<lambda>i. (os ! i)\<lparr>obj_blocks := bls ! i\<rparr>) [0..<?n]"
  let ?ws = "(0, load_bytes (bblock s2) 0 4096) # inode_writes os3 [0..<?n] @ data_writes os3 (2 * ?n) [0..<?n]"
  have run: "createfs_image e = Some (do_writes (write_ok e) 0 ?ws (\<lambda>_. 0, 0))"
  proof -
    have "list_walk (inode_list s1) (list_head (inode_list s1)) = Some [0..<?n]"
      using inv(7) by (rule list_walk_rep)
    moreover have "get_num_inodes fm = 2 * ?n" "get_num_datablocks fm = 2 * ?tot" "get_num_inodes fm3 = 2 * ?n"
      using fm bls(4) by (simp_all add: fm_rep_def get_num_inodes_def get_num_datablocks_def)
    ultimately show ?thesis
      using env s1(1) inv(2,3) s2(1) bls(1)
      by (simp add: createfs_image_def env_ok_def Let_def fm_def [symmetric] bb1_def [symmetric] bb2_def [symmetric]
          os_def [symmetric] os3_def [symmetric])
  qed
  have os3: "os3 ! i = (file_of (ks ! i))\<lparr>obj_dentry := 64 * (i + 2), obj_ino := is ! i, obj_blocks := bls ! i\<rparr>"
    if "i < ?n" for i using that os by (simp add: os3_def)
  define BS where "BS = concat (map (\<lambda>i. take (obj_num (os ! i)) (bls ! i)) [0..<?n])"
  have BS: "distinct BS" "set BS \<subseteq> {..<2 * ?tot}" "distinct is" "set is \<subseteq> {..<2 * ?n}"
    using bls(4) by (simp_all add: fm_rep_def BS_def)
  have offs: "map fst ?ws = map (\<lambda>x. x * 4096) (0 # map Suc is @ map (\<lambda>v. v + 2 * ?n + 1) BS)"
  proof -
    have "map fst (inode_writes os3 [0..<?n]) = map (\<lambda>i. Suc (is ! i) * 4096) [0..<?n]"
      by (simp add: inode_writes_def os3)
    also have "\<dots> = map (\<lambda>x. x * 4096) (map Suc is)"
      using s2(2) by (intro nth_equalityI) simp_all
    finally have i: "map fst (inode_writes os3 [0..<?n]) = map (\<lambda>x. x * 4096) (map Suc is)" .
    have "map fst (data_writes os3 (2 * ?n) [0..<?n]) =
        concat (map (\<lambda>i. map (\<lambda>j. (bls ! i ! j + 2 * ?n + 1) * 4096) [0..<obj_num (os ! i)]) [0..<?n])"
      unfolding data_writes_def map_concat map_map comp_def
      by (intro arg_cong [where f = concat] map_cong) (simp_all add: os3 nums)
    also have "\<dots> = concat (map (\<lambda>i. map (\<lambda>v. (v + 2 * ?n + 1) * 4096) (take (obj_num (os ! i)) (bls ! i))) [0..<?n])"
    proof (rule arg_cong [where f = concat], rule map_cong [OF refl])
      fix i assume "i \<in> set [0..<?n]"
      then have "i < ?n" by simp
      then show "map (\<lambda>j. (bls ! i ! j + 2 * ?n + 1) * 4096) [0..<obj_num (os ! i)] =
          map (\<lambda>v. (v + 2 * ?n + 1) * 4096) (take (obj_num (os ! i)) (bls ! i))"
        using bls(3) nums(3) by (intro nth_equalityI) simp_all
    qed
    also have "\<dots> = map (\<lambda>x. x * 4096) (map (\<lambda>v. v + 2 * ?n + 1) BS)"
      by (simp add: BS_def map_concat comp_def)
    finally show ?thesis using i by simp
  qed
  have lens: "\<forall>w \<in> set ?ws. length (snd w) = 4096"
  proof -
    have "length (obj_bytes (os3 ! i)) = 4096" if "i < ?n" for i
      using os3 [OF that] bls(3) [OF that] by (simp add: obj_bytes_def)
    moreover have "length (obj_data (os3 ! i) ! j) = 4096" if "i < ?n" "j < obj_num (os3 ! i)" for i j
      using os3 [OF that(1)] that file_of_facts [of "ks ! i"] us nth_mem [OF that(1)] by auto
    ultimately show ?thesis by (auto simp: inode_writes_def data_writes_def)
  qed
  have dist: "distinct (map fst ?ws)"
    unfolding offs distinct_map using BS by (auto simp: distinct_map inj_on_def)
  have ok: "\<forall>k. write_ok e k" using env by (simp add: env_ok_def)
  have m4: "\<forall>w \<in> set ?ws. fst w mod 4096 = 0"
  proof
    fix w assume "w \<in> set ?ws"
    then have "fst w \<in> set (map fst ?ws)" by (metis image_eqI set_map)
    then show "fst w mod 4096 = 0" unfolding offs by auto
  qed
  obtain img sz where w: "do_writes (write_ok e) 0 ?ws (\<lambda>_. 0, 0) = Inr (img, sz)"
    "\<forall>(off, bs) \<in> set ?ws. load_bytes img off 4096 = bs \<and> off + 4096 \<le> sz"
    "\<forall>a. (\<forall>off \<in> set (map fst ?ws). a < off \<or> off + 4096 \<le> a) \<longrightarrow> img a = 0"
    "\<forall>b. 0 \<le> b \<and> (\<forall>off \<in> set (map fst ?ws). off + 4096 \<le> b) \<longrightarrow> sz \<le> b"
    using do_writes_ok [OF ok lens dist m4, of 0 "\<lambda>_. 0" 0] by auto
  have at: "load_bytes img off 4096 = bs \<and> off + 4096 \<le> sz" if "(off, bs) \<in> set ?ws" for off bs
    using bspec [OF w(2) that] by simp
  have boot: "img a = bblock s2 a" if "a < 4096" for a
  proof -
    have "load_bytes img 0 4096 = load_bytes (bblock s2) 0 4096" by (rule at [THEN conjunct1]) simp
    from arg_cong [OF this, of "\<lambda>xs. xs ! a"] that show ?thesis by simp
  qed
  have boot2: "img a = bb2 a" if "a < 4096" "\<And>i. i < ?n \<Longrightarrow> a < 64 * (i + 2) + 36 \<or> 64 * (i + 2) + 40 \<le> a" for a
    using boot [OF that(1)] s2(6) [of a] that(2) by simp
  have hd: "read32 img 0 = ?n + 1" "read32 img 4 = 2 * ?n" "read32 img 8 = 2 * ?tot"
    unfolding bb2 [symmetric] by (intro read32_cong boot2; simp)+
  have dot: "dot_ok img"
    using inv(4) by (rule dot_ok_cong) (subst boot2, simp_all add: bb2_hi)
  have ent: "entry_ok img (64 * (i + 2)) (ks ! i)" "read32 img (64 * (i + 2) + 36) = is ! i" if "i < ?n" for i
  proof -
    have i61: "i < 61" using that n61 by simp
    show "entry_ok img (64 * (i + 2)) (ks ! i)"
      using inv(5) [OF that]
    proof (rule entry_ok_cong)
      fix x assume x: "64 * (i + 2) \<le> x" "x < 64 * (i + 2) + 36"
      have "x < 64 * (i' + 2) + 36 \<or> 64 * (i' + 2) + 40 \<le> x" for i'
        using x by (cases i' i rule: linorder_cases) auto
      with x i61 show "img x = bblock s1 x" by (subst boot2) (auto simp: bb2_hi)
    qed
    have "read32 img (64 * (i + 2) + 36) = read32 (bblock s2) (64 * (i + 2) + 36)"
      using i61 by (intro read32_cong boot) auto
    then show "read32 img (64 * (i + 2) + 36) = is ! i" using s2(5) [OF that] by simp
  qed
  have ino: "load_bytes img (is ! i * 4096 + 4096) 4096 = le32 (obj_size (file_of (ks ! i))) @ concat (map le32 (bls ! i))"
    if "i < ?n" for i
  proof -
    have "(is ! i * 4096 + 4096, obj_bytes (os3 ! i)) \<in> set ?ws"
      using that os3 [OF that] by (force simp: inode_writes_def)
    from at [OF this] show ?thesis using os3 [OF that] by (simp add: obj_bytes_def)
  qed
  have blk: "bls ! i ! j < 2 * ?tot \<and> (bls ! i ! j + 2 * ?n + 1) * 4096 + 4096 \<le> sz \<and>
      load_bytes img ((bls ! i ! j + 2 * ?n + 1) * 4096) 4096 = obj_data (file_of (ks ! i)) ! j"
    if "i < ?n" "j < obj_num (file_of (ks ! i))" for i j
  proof -
    have "((bls ! i ! j + 2 * ?n + 1) * 4096, obj_data (os3 ! i) ! j) \<in> set ?ws"
      using that os3 [OF that(1)] by (force simp: data_writes_def)
    from at [OF this] have "(bls ! i ! j + 2 * ?n + 1) * 4096 + 4096 \<le> sz \<and>
        load_bytes img ((bls ! i ! j + 2 * ?n + 1) * 4096) 4096 = obj_data (file_of (ks ! i)) ! j"
      using os3 [OF that(1)] by simp
    moreover have "bls ! i ! j \<in> set BS"
    proof -
      have "j < length (take (obj_num (os ! i)) (bls ! i))" using that nums [OF that(1)] bls(3) [OF that(1)] by simp
      then have "bls ! i ! j \<in> set (take (obj_num (os ! i)) (bls ! i))" by (metis nth_mem nth_take length_take min_less_iff_conj)
      then show ?thesis using that(1) by (auto simp: BS_def)
    qed
    ultimately show ?thesis using BS(2) by auto
  qed
  have hole: "read32 img (v * 4096 + 4096) = 0" if "v < 2 * ?n" "v \<notin> set is" for v
  proof -
    have "img a = 0" if "v * 4096 + 4096 \<le> a" "a < v * 4096 + 8192" for a
    proof (rule w(3) [rule_format])
      fix off assume "off \<in> set (map fst ?ws)"
      then obtain x where "off = x * 4096" "x \<in> set (0 # map Suc is @ map (\<lambda>v. v + 2 * ?n + 1) BS)"
        unfolding offs set_map by blast
      then have x: "off = x * 4096" "x = 0 \<or> x \<in> Suc ` set is \<or> 2 * ?n + 1 \<le> x" by auto
      with \<open>v < 2 * ?n\<close> \<open>v \<notin> set is\<close> have "x \<noteq> v + 1" by auto
      then show "a < off \<or> off + 4096 \<le> a"
        using that x(1) by (cases x "v + 1" rule: linorder_cases) auto
    qed
    then show ?thesis by (simp add: read32_def)
  qed
  have "sz \<le> (2 * ?n + 2 * ?tot + 1) * 4096"
  proof (rule w(4) [rule_format], intro conjI ballI)
    fix off assume "off \<in> set (map fst ?ws)"
    then obtain x where x: "off = x * 4096" "x \<in> set (0 # map Suc is @ map (\<lambda>v. v + 2 * ?n + 1) BS)"
      unfolding offs set_map by blast
    then have "x < 2 * ?n + 2 * ?tot + 1" using BS(2,4) by auto
    with x(1) show "off + 4096 \<le> (2 * ?n + 2 * ?tot + 1) * 4096" by simp
  qed simp
  with hd dot s2(2) bls(2,3) BS(3,4) ent ino blk hole have "image_ok img sz ks is bls"
    by (simp add: image_ok_def Let_def)
  with run w(1) show ?thesis by auto
qed

subsection \<open>Image and file system together\<close>

text \<open>A regular file with the contents \<open>c\<close>, which the host reads block by block.\<close>

definition regular :: "dirent \<Rightarrow> u8 list \<Rightarrow> bool" where
  "regular d c \<longleftrightarrow> (\<exists>mode. stat_of d = Some (mode, length c) \<and> S_ISREG mode) \<and> length c \<le> 4190208 \<and>
     (\<forall>i. reads d i = Some (take 4096 (drop (4096 * i) c)))"

definition padded :: "dirent \<Rightarrow> u8 list \<Rightarrow> nat \<Rightarrow> u8 list" where
  "padded d c i = take 4096 (drop (4096 * i) c) @ drop (length (take 4096 (drop (4096 * i) c))) (buffers d i)"

lemma create_file_loop_regular:
  "regular d c \<Longrightarrow> create_file_loop d i k = Some (map (padded d c) [i..<i + k])"
proof (induction k arbitrary: i)
  case (Suc k)
  then have "create_file_loop d (i + 1) k = Some (map (padded d c) [i + 1..<i + 1 + k])" by blast
  moreover have "[i..<i + Suc k] = i # [i + 1..<i + 1 + k]" by (simp add: upt_conv_Cons)
  ultimately show ?case using Suc.prems by (simp add: regular_def padded_def)
qed simp

lemma concat_padded:
  assumes "dirent_ok d"
  shows "take (length c) (concat (map (padded d c) [0..<k])) = take (4096 * k) c"
proof (induction k)
  case (Suc k)
  let ?X = "concat (map (padded d c) [0..<k])" and ?B = "take 4096 (drop (4096 * k) c)"
  have len: "length (padded d c i) = 4096" for i
    using assms by (simp add: padded_def dirent_ok_def)
  have lX: "length ?X = 4096 * k"
    by (simp add: length_concat comp_def len sum_list_triv)
  have split: "concat (map (padded d c) [0..<Suc k]) = ?X @ padded d c k" by simp
  show ?case
  proof (cases "4096 * k \<le> length c")
    case True
    have X: "?X = take (4096 * k) c" using Suc.IH True lX by simp
    have "take (length c - 4096 * k) (padded d c k) = ?B"
    proof (cases "length c - 4096 * k \<le> 4096")
      case True
      then show ?thesis by (simp add: padded_def)
    next
      case False
      then show ?thesis using assms by (simp add: padded_def dirent_ok_def)
    qed
    then have "take (length c) (?X @ padded d c k) = take (4096 * k) c @ ?B"
      using True lX by (simp add: X)
    also have "\<dots> = take (4096 * Suc k) c"
      using take_add [of "4096 * k" 4096 c] by (simp add: algebra_simps)
    finally show ?thesis unfolding split .
  next
    case False
    then show ?thesis using Suc.IH lX unfolding split by simp
  qed
qed simp

lemma regular_file:
  assumes "regular d c" and "dirent_ok d"
  shows "usable d" and "obj_size (file_of d) = length c" and "obj_num (file_of d) = ceil_div (length c) 4096"
    and "take (length c) (concat (obj_data (file_of d))) = c" and "type_of d = 2"
proof -
  obtain mode where st: "stat_of d = Some (mode, length c)" "S_ISREG mode"
    using assms(1) by (auto simp: regular_def)
  obtain ob where ob: "create_file d (length c) = Some ob"
    using create_file_loop_regular [OF assms(1)] assms(1)
    by (simp add: create_file_def regular_def Let_def del: create_file_loop.simps)
  then have f: "file_of d = ob" using st by (simp add: file_of_def)
  show "usable d" using st ob by (simp add: usable_def)
  show "obj_size (file_of d) = length c" and num: "obj_num (file_of d) = ceil_div (length c) 4096"
    using create_file_num [OF ob] f by simp_all
  have "obj_data ob = map (padded d c) [0..<obj_num ob]"
    using create_file_SomeD [OF ob] create_file_loop_regular [OF assms(1)] by simp
  moreover have "length c \<le> 4096 * obj_num ob"
    using ceil_div_bounds(1) [of 4096 "length c"] num f by simp
  ultimately show "take (length c) (concat (obj_data (file_of d))) = c"
    using concat_padded [OF assms(2), of c "obj_num ob"] f by simp
  show "type_of d = 2" using st by (simp add: type_of_def)
qed

lemma find_unique: "i \<in> set xs \<Longrightarrow> P i \<Longrightarrow> (\<And>j. j \<in> set xs \<Longrightarrow> P j \<Longrightarrow> j = i) \<Longrightarrow> find P xs = Some i"
proof (induction xs)
  case (Cons x xs)
  show ?case
  proof (cases "P x")
    case True
    have "x = i" by (rule Cons.prems(3)) (simp_all add: True)
    with True show ?thesis by simp
  next
    case False
    then have "i \<in> set xs" using Cons.prems(1,2) by auto
    have "find P xs = Some i"
      by (rule Cons.IH) (use \<open>i \<in> set xs\<close> Cons.prems(2,3) in auto)
    with False show ?thesis by simp
  qed
qed simp

lemma entry_name_name:
  assumes "0 \<notin> set (d_name d)"
  shows "takeWhile (\<lambda>b. b \<noteq> 0) (entry_name d) = take 31 (d_name d)"
proof -
  have "\<forall>b \<in> set (take 31 (d_name d)). b \<noteq> 0" using assms by (auto dest: in_set_takeD)
  moreover have "takeWhile (\<lambda>b. b \<noteq> 0) (replicate k 0 :: u8 list) = []" for k by (cases k) simp_all
  ultimately show ?thesis unfolding entry_name_def by (subst takeWhile_append2) auto
qed

lemma load_bytes_split: "load_bytes m a (i + k) = load_bytes m a i @ load_bytes m (a + i) k"
  by (rule nth_equalityI) (simp_all add: nth_append add.assoc)

lemma le32_words:
  "load_bytes m a (4 * length xs) = concat (map le32 xs) \<Longrightarrow> j < length xs \<Longrightarrow> load_bytes m (a + 4 * j) 4 = le32 (xs ! j)"
proof (induction xs arbitrary: a j)
  case (Cons x xs)
  have "load_bytes m a (4 + 4 * length xs) = le32 x @ concat (map le32 xs)"
    using Cons.prems(1) by simp
  then have sp: "load_bytes m a 4 = le32 x" "load_bytes m (a + 4) (4 * length xs) = concat (map le32 xs)"
    unfolding load_bytes_split by (simp_all add: append_eq_append_conv)
  show ?case
  proof (cases j)
    case (Suc i)
    then show ?thesis using Cons.IH [OF sp(2), of i] Cons.prems(2) by (simp add: algebra_simps)
  qed (simp add: sp)
qed simp


text \<open>The image lies at \<open>start\<close>, and the table of entries is allocated outside it.\<close>

definition placed :: "mem \<Rightarrow> nat \<Rightarrow> mem \<Rightarrow> nat \<Rightarrow> nat \<Rightarrow> bool" where
  "placed m start img sz dbase \<longleftrightarrow> (\<forall>a < sz. m (start + a) = img a) \<and> image_apart start dbase \<and>
     (start + sz \<le> dbase \<or> dbase + 64 * sizeof_dentry \<le> start)"

text \<open>The files of a directory with their contents: at most 32, with different short names.\<close>

definition directory_ok :: "(dirent \<times> u8 list) list \<Rightarrow> bool" where
  "directory_ok fl \<longleftrightarrow> length fl \<le> 32 \<and> (\<exists>f \<in> set fl. snd f \<noteq> []) \<and>
     (\<forall>(d, c) \<in> set fl. regular d c \<and> dirent_ok d \<and> 0 \<notin> set (d_name d) \<and> d_name d \<noteq> [46]) \<and>
     distinct (map (\<lambda>f. take 31 (d_name (fst f))) fl)"

lemma image_loads:
  assumes img: "image_ok img sz (map fst fl) is bls" and dir: "directory_ok fl" and pl: "placed m start img sz dbase"
  obtains kfs m1 where "load_image m start sz dbase = Some (Inr (kfs, m1))"
    "length (inodes kfs) = numInodes kfs"
    "\<And>fn. fn + 32 \<le> dbase \<or> dbase + 64 * sizeof_dentry \<le> fn \<Longrightarrow> \<exists>r. KissFS_open m1 kfs fn = Some r"
    "\<And>i fn. i < length fl \<Longrightarrow> fn + 32 \<le> dbase \<or> dbase + 64 * sizeof_dentry \<le> fn \<Longrightarrow>
      name_at m fn 32 = take 31 (d_name (fst (fl ! i))) \<Longrightarrow> KissFS_open m1 kfs fn = Some (Some (FileData 2 (is ! i)))"
    "\<And>i. i < length fl \<Longrightarrow> is ! i < numInodes kfs \<and> inode_ok kfs (inodes kfs ! (is ! i)) \<and>
      fsize (inodes kfs ! (is ! i)) = length (snd (fl ! i)) \<and> file_content m1 kfs (inodes kfs ! (is ! i)) = snd (fl ! i)"
proof -
  let ?n = "length fl" and ?ks = "map fst fl"
  define tot where "tot = (\<Sum>d\<leftarrow>?ks. obj_num (file_of d))"
  have n32: "length fl \<le> 32" using dir by (simp add: directory_ok_def)
  have fl: "regular (fst (fl ! i)) (snd (fl ! i))" "dirent_ok (fst (fl ! i))"
      "0 \<notin> set (d_name (fst (fl ! i)))" "d_name (fst (fl ! i)) \<noteq> [46]" if "i < ?n" for i
  proof -
    have "\<forall>f \<in> set fl. regular (fst f) (snd f) \<and> dirent_ok (fst f) \<and> 0 \<notin> set (d_name (fst f)) \<and> d_name (fst f) \<noteq> [46]"
      using dir by (simp add: directory_ok_def case_prod_beta)
    from bspec [OF this nth_mem [OF that]]
    show "regular (fst (fl ! i)) (snd (fl ! i))" "dirent_ok (fst (fl ! i))"
      "0 \<notin> set (d_name (fst (fl ! i)))" "d_name (fst (fl ! i)) \<noteq> [46]" by blast+
  qed
  have rf: "obj_size (file_of (fst (fl ! i))) = length (snd (fl ! i))"
      "obj_num (file_of (fst (fl ! i))) = ceil_div (length (snd (fl ! i))) 4096"
      "take (length (snd (fl ! i))) (concat (obj_data (file_of (fst (fl ! i))))) = snd (fl ! i)"
      "type_of (fst (fl ! i)) = 2" "length (obj_data (file_of (fst (fl ! i)))) = obj_num (file_of (fst (fl ! i)))"
      "obj_num (file_of (fst (fl ! i))) \<le> 1023" "length (snd (fl ! i)) < two32" if "i < ?n" for i
    using regular_file [OF fl(1,2) [OF that]] file_of_facts [of "fst (fl ! i)"] fl(1,2) [OF that]
    by (simp_all add: regular_def)
  have im: "read32 img 0 = ?n + 1" "read32 img 4 = 2 * ?n" "read32 img 8 = 2 * tot" "dot_ok img"
    "length is = ?n" "distinct is" "set is \<subseteq> {..<2 * ?n}"
    "\<And>i. i < ?n \<Longrightarrow> entry_ok img (64 * (i + 2)) (fst (fl ! i)) \<and> read32 img (64 * (i + 2) + 36) = is ! i \<and>
        length (bls ! i) = 1023 \<and>
        load_bytes img (is ! i * 4096 + 4096) 4096 = le32 (obj_size (file_of (fst (fl ! i)))) @ concat (map le32 (bls ! i))"
    "\<And>i j. i < ?n \<Longrightarrow> j < obj_num (file_of (fst (fl ! i))) \<Longrightarrow> bls ! i ! j < 2 * tot \<and> (bls ! i ! j + 2 * ?n + 1) * 4096 + 4096 \<le> sz \<and>
          load_bytes img ((bls ! i ! j + 2 * ?n + 1) * 4096) 4096 = obj_data (file_of (fst (fl ! i))) ! j"
    "\<And>v. v < 2 * ?n \<Longrightarrow> v \<notin> set is \<Longrightarrow> read32 img (v * 4096 + 4096) = 0"
    "sz \<le> (2 * ?n + 2 * tot + 1) * 4096"
    using img by (auto simp: image_ok_def Let_def tot_def comp_def)
  have us: "\<forall>d \<in> set ?ks. usable d"
    using regular_file(1) dir by (fastforce simp: directory_ok_def)
  have tot: "tot \<le> 1023 * ?n" using sum_num_bound [OF us] by (simp add: tot_def)
  obtain i0 where i0: "i0 < ?n" "snd (fl ! i0) \<noteq> []"
    using dir by (auto simp: directory_ok_def in_set_conv_nth)
  then have "0 < obj_num (file_of (fst (fl ! i0)))"
    using rf(2) [OF i0(1)] ceil_div_bounds(2) [of 4096 0 "length (snd (fl ! i0))"] by simp
  from im(9) [OF i0(1) this] have big: "(2 * ?n + 2) * 4096 \<le> sz" by simp
  have at: "load_bytes m (start + x) k = load_bytes img x k" if "x + k \<le> sz" for x k
    using pl that by (intro nth_equalityI) (auto simp: placed_def add.assoc)
  have at32: "read32 m (start + x) = read32 img x" if "x + 4 \<le> sz" for x
  proof -
    have "m (start + x + k) = img (x + k)" if "k < 4" for k
      using pl \<open>x + 4 \<le> sz\<close> that by (simp add: placed_def add.assoc)
    from this [of 0] this [of 1] this [of 2] this [of 3] show ?thesis by (simp add: read32_def)
  qed
  have cnt: "image_count m start = ?n + 1" "image_inodes m start = 2 * ?n"
    using at32 [of 0] at32 [of 4] im(1,2) n32 big by (simp_all add: image_count_def image_inodes_def)
  have nm: "image_name m start 0 = [46]" "\<And>i. i < ?n \<Longrightarrow> image_name m start (i + 1) = take 31 (d_name (fst (fl ! i)))"
  proof -
    have "load_bytes m (start + 64) 32 = 46 # replicate 31 0"
      using at [of 64 32] im(4) big by (simp add: dot_ok_def)
    then show "image_name m start 0 = [46]"
      by (simp add: image_name_def name_at_def)
    fix i assume i: "i < ?n"
    have "load_bytes m (start + 64 * (i + 2)) 32 = entry_name (fst (fl ! i))"
      using at [of "64 * (i + 2)" 32] im(8) [OF i] big i n32 by (simp add: entry_ok_def)
    then show "image_name m start (i + 1) = take 31 (d_name (fst (fl ! i)))"
      using entry_name_name [OF fl(3) [OF i]] by (simp add: image_name_def name_at_def algebra_simps)
  qed
  have ty: "image_type m start (i + 1) = 2" "image_inode m start (i + 1) = is ! i" if "i < ?n" for i
    using at32 [of "64 * (i + 2) + 32"] at32 [of "64 * (i + 2) + 36"] im(8) [OF that] rf(4) [OF that] big that n32
    by (simp_all add: image_type_def image_inode_def entry_ok_def algebra_simps)
  have isn: "is ! i < 2 * ?n" if "i < ?n" for i
    using subsetD [OF im(7) nth_mem [of i "is"]] im(5) that by simp
  have words: "load_bytes img (is ! i * 4096 + 4096 + 4 * j) 4 = le32 ((length (snd (fl ! i)) # bls ! i) ! j)"
    if "i < ?n" "j < 1024" for i j
    using im(8) [OF that(1)] rf(1) [OF that(1)] that(2)
    by (intro le32_words) simp_all
  have in_sz: "is ! i * 4096 + 8192 \<le> sz" if "i < ?n" for i
    using isn [OF that] big by simp
  have ino: "image_size m start (is ! i) = length (snd (fl ! i))" if "i < ?n" for i
  proof -
    have "image_size m start (is ! i) = read32 img (is ! i * 4096 + 4096)"
      using at32 [of "is ! i * 4096 + 4096"] in_sz [OF that]
      by (simp add: image_size_def BlockSize_def algebra_simps)
    also have "\<dots> = length (snd (fl ! i))"
      using words [OF that, of 0] rf(7) [OF that] by (intro read32_le32) simp_all
    finally show ?thesis .
  qed
  have blk: "image_block m start (is ! i) j = bls ! i ! j" if "i < ?n" "j < obj_num (file_of (fst (fl ! i)))" for i j
  proof -
    have j: "j < 1023" using that(2) rf(6) [OF that(1)] by simp
    have "image_block m start (is ! i) j = read32 img (is ! i * 4096 + 4096 + 4 * (j + 1))"
      using at32 [of "is ! i * 4096 + 4096 + 4 * (j + 1)"] in_sz [OF that(1)] j
      by (simp add: image_block_def BlockSize_def algebra_simps)
    also have "\<dots> = bls ! i ! j"
      using words [OF that(1), of "j + 1"] im(9) [OF that] tot n32 j by (intro read32_le32) simp_all
    finally show ?thesis .
  qed
  have small: "ceil_div (image_size m start v) BlockSize \<le> 1023" if "v < image_inodes m start" for v
  proof (cases "v \<in> set is")
    case True
    then obtain i where "i < ?n" "v = is ! i" using im(5) by (auto simp: in_set_conv_nth)
    then show ?thesis using ino [of i] rf(2,6) [of i] by (simp add: BlockSize_def)
  next
    case False
    have v: "v < 2 * ?n" using that cnt(2) by simp
    then have "image_size m start v = read32 img (v * 4096 + 4096)"
      using at32 [of "v * 4096 + 4096"] big by (simp add: image_size_def BlockSize_def algebra_simps)
    then show ?thesis using im(10) [OF v False] by (simp add: ceil_div_def)
  qed
  have ap: "image_apart start dbase" using pl by (simp add: placed_def)
  obtain ds m1 table where ld: "\<And>a. a < dbase \<or> dbase + 44 * image_count m start \<le> a \<Longrightarrow> m1 a = m a"
    "load_image m start sz dbase = Some
      (if \<exists>i < image_inodes m start. ceil_div (image_size m start i) BlockSize > 1023 then Inl Fault
       else Inr (\<lparr>dentryIndexOfFilename = table, dentries = ds,
         inodes = map (\<lambda>i. \<lparr>fsize = image_size m start i,
           datablocks = map (image_block m start i) [0..<ceil_div (image_size m start i) BlockSize],
           numDataBlocks = ceil_div (image_size m start i) BlockSize\<rparr>) [0..<image_inodes m start],
         numDentries = image_count m start, numInodes = image_inodes m start,
         numTotalDataBlocks = read32 m (start + 8), imageStartingAddress = start,
         numBlocks = sz div BlockSize\<rparr>, m1))"
    by (rule load_image_spec [OF ap, of m sz]) blast
  define kfs where "kfs = \<lparr>dentryIndexOfFilename = table, dentries = ds,
         inodes = map (\<lambda>i. \<lparr>fsize = image_size m start i,
           datablocks = map (image_block m start i) [0..<ceil_div (image_size m start i) BlockSize],
           numDataBlocks = ceil_div (image_size m start i) BlockSize\<rparr>) [0..<image_inodes m start],
         numDentries = image_count m start, numInodes = image_inodes m start,
         numTotalDataBlocks = read32 m (start + 8), imageStartingAddress = start,
         numBlocks = sz div BlockSize\<rparr>"
  have load: "load_image m start sz dbase = Some (Inr (kfs, m1))"
  proof -
    have "\<not> (\<exists>i < image_inodes m start. ceil_div (image_size m start i) BlockSize > 1023)"
      using small by (meson not_le)
    then show ?thesis unfolding ld(2) kfs_def by simp
  qed
  have tab: "numInodes kfs = 2 * ?n" "numTotalDataBlocks kfs = 2 * tot" "numBlocks kfs = sz div 4096"
    "imageStartingAddress kfs = start" "length (inodes kfs) = 2 * ?n"
    using cnt(2) at32 [of 8] im(3) big by (simp_all add: kfs_def BlockSize_def)
  have inode: "inodes kfs ! (is ! i) = \<lparr>fsize = length (snd (fl ! i)),
      datablocks = take (obj_num (file_of (fst (fl ! i)))) (bls ! i),
      numDataBlocks = obj_num (file_of (fst (fl ! i)))\<rparr>" if "i < ?n" for i
  proof -
    have num: "ceil_div (length (snd (fl ! i))) BlockSize = obj_num (file_of (fst (fl ! i)))"
      using rf(2) [OF that] by (simp add: BlockSize_def)
    have "map (image_block m start (is ! i)) [0..<obj_num (file_of (fst (fl ! i)))] =
        take (obj_num (file_of (fst (fl ! i)))) (bls ! i)"
      using blk [OF that] im(8) [OF that] rf(6) [OF that] by (intro nth_equalityI) simp_all
    then show ?thesis
      using ino [OF that] isn [OF that] cnt(2) num by (simp add: kfs_def)
  qed
  show ?thesis
  proof (rule that [OF load])
    show "length (inodes kfs) = numInodes kfs" using tab by simp
    fix fn :: nat assume fn: "fn + 32 \<le> dbase \<or> dbase + 64 * sizeof_dentry \<le> fn"
    show "\<exists>r. KissFS_open m1 kfs fn = Some r"
      using open_by_name [OF ap load fn] by blast
    fix i assume i: "i < ?n" and name: "name_at m fn 32 = take 31 (d_name (fst (fl ! i)))"
    have "find (\<lambda>i. image_name m start i = name_at m fn 32) (rev [0..<image_count m start]) = Some (i + 1)"
    proof (rule find_unique)
      show "i + 1 \<in> set (rev [0..<image_count m start])" unfolding cnt(1) set_rev set_upt using i by simp
      show "image_name m start (i + 1) = name_at m fn 32" using nm(2) [OF i] name by simp
      fix j assume j: "j \<in> set (rev [0..<image_count m start])" "image_name m start j = name_at m fn 32"
      have "take 31 (d_name (fst (fl ! i))) \<noteq> [46]"
        using fl(4) [OF i] by (cases "d_name (fst (fl ! i))") (auto simp: take_Cons')
      then have "j \<noteq> 0" using j(2) name nm(1) by (cases "j = 0") auto
      then obtain j' where j': "j = j' + 1" "j' < ?n" using j(1) cnt(1) by (cases j) auto
      then have "map (\<lambda>f. take 31 (d_name (fst f))) fl ! j' = map (\<lambda>f. take 31 (d_name (fst f))) fl ! i"
        using nm(2) [OF j'(2)] j(2) name i by simp
      moreover have "distinct (map (\<lambda>f. take 31 (d_name (fst f))) fl)" using dir by (simp add: directory_ok_def)
      ultimately have "j' = i" using nth_eq_iff_index_eq [of _ j' i] j'(2) i by (metis length_map)
      with j'(1) show "j = i + 1" by simp
    qed
    then show "KissFS_open m1 kfs fn = Some (Some (FileData 2 (is ! i)))"
      using open_by_name [OF ap load fn] ty [OF i] by (simp add: DIRECTORY_def)
  next
    fix i assume i: "i < ?n"
    let ?num = "obj_num (file_of (fst (fl ! i)))"
    have bb: "b < 2 * tot \<and> (b + 2 * ?n + 1) * 4096 + 4096 \<le> sz" if "b \<in> set (take ?num (bls ! i))" for b
      using that im(9) [OF i] by (auto simp: in_set_conv_nth)
    have "inode_ok kfs (inodes kfs ! (is ! i))"
    proof -
      have "sz div 4096 < two32" using im(11) tot n32 by (simp add: less_mult_imp_div_less)
      moreover have "b \<le> 2 * tot \<and> b + 2 * ?n + 1 < sz div 4096" if "b \<in> set (take ?num (bls ! i))" for b
      proof -
        have "(b + 2 * ?n + 2) * 4096 \<le> sz" using bb [OF that] by simp
        then have "b + 2 * ?n + 2 \<le> sz div 4096" by (simp add: less_eq_div_iff_mult_less_eq)
        then show ?thesis using bb [OF that] by simp
      qed
      ultimately show ?thesis
        using rf [OF i] im(8) [OF i] by (simp add: inode_ok_def inode [OF i] tab BlockSize_def)
    qed
    moreover have "file_content m1 kfs (inodes kfs ! (is ! i)) = snd (fl ! i)"
    proof -
      have "data_block m1 kfs (bls ! i ! j) = obj_data (file_of (fst (fl ! i))) ! j" if "j < ?num" for j
      proof -
        let ?o = "(bls ! i ! j + 2 * ?n + 1) * 4096"
        have o: "?o + 4096 \<le> sz" "load_bytes img ?o 4096 = obj_data (file_of (fst (fl ! i))) ! j"
          using im(9) [OF i that] by simp_all
        have "load_bytes m1 (start + ?o) 4096 = load_bytes m (start + ?o) 4096"
          using pl o(1) cnt(1) n32 by (intro load_bytes_cong ld(1)) (auto simp: placed_def sizeof_dentry_def)
        then show ?thesis
          using at [of ?o 4096] o by (simp add: data_block_def tab BlockSize_def)
      qed
      then have "map (data_block m1 kfs) (take ?num (bls ! i)) = obj_data (file_of (fst (fl ! i)))"
        using rf(5,6) [OF i] im(8) [OF i] by (intro nth_equalityI) simp_all
      then show ?thesis using rf(3) [OF i] by (simp add: file_content_def inode [OF i])
    qed
    ultimately show "is ! i < numInodes kfs \<and> inode_ok kfs (inodes kfs ! (is ! i)) \<and>
        fsize (inodes kfs ! (is ! i)) = length (snd (fl ! i)) \<and> file_content m1 kfs (inodes kfs ! (is ! i)) = snd (fl ! i)"
      using isn [OF i] tab inode [OF i] by simp
  qed
qed


text \<open>A directory with itself and one file of two bytes.\<close>

definition sample_file :: dirent where
  "sample_file = \<lparr>d_name = [97], stat_of = Some (33188, 2),
     reads = (\<lambda>i. Some (take 4096 (drop (4096 * i) [104, 105]))), buffers = (\<lambda>_. replicate 4096 7)\<rparr>"

definition sample_dir :: dirent where
  "sample_dir = sample_file\<lparr>d_name := [46], stat_of := Some (16877, 0)\<rparr>"

definition sample_env :: createfs_env where
  "sample_env = \<lparr>args = [''createfs'', ''dir''], open_excl = True, answer = 0, open_trunc = False,
     opendir = Some [sample_dir, sample_file], dir_errno = False, rand = (\<lambda>k. k), write_ok = (\<lambda>_. True)\<rparr>"

lemma sample_modes: "S_ISREG 33188" "\<not> S_ISREG 16877" "\<not> S_ISCHR 16877"
  by (simp_all add: S_ISREG_def S_ISCHR_def)


end
