(* ===== verification/UElf.thy ===== *)
theory UElf
  imports UCreatefs
begin

text \<open>
  elfconvert.c, the host program that turns an ELF executable into the flat image the kernel
  loads: it checks the header, collects the loadable program headers in the list of UList and
  copies their segments to the places they have relative to 0x8048000.

  The input file is a list of bytes. What the host decides is in \<open>elf_host\<close>: whether a seek to
  an offset succeeds, whether memory of a size can be had, whether the output file can be
  opened. A write to the output file succeeds when it could be opened. \<open>Exit n\<close> is an exit
  with that status, \<open>Overrun\<close> a store past the end of an array or of allocated memory.
\<close>

subsection \<open>The code\<close>

datatype elf_error = Exit nat | Overrun

record elf_host =
  lseek_ok :: "nat \<Rightarrow> bool"
  malloc_ok :: "nat \<Rightarrow> bool"
  out_ok :: bool

text \<open>Reading words of a buffer; a byte past the bytes read is the zero it was initialised with.\<close>

definition buf_byte :: "u8 list \<Rightarrow> nat \<Rightarrow> nat" where
  "buf_byte b i = (if i < length b then unat (b ! i) else 0)"

definition word_at :: "u8 list \<Rightarrow> nat \<Rightarrow> nat" where
  "word_at b i = buf_byte b i + 256 * buf_byte b (i + 1)"

definition dword_at :: "u8 list \<Rightarrow> nat \<Rightarrow> nat" where
  "dword_at b i = word_at b i + 65536 * word_at b (i + 2)"

definition LOWORD :: "nat \<Rightarrow> nat" where "LOWORD l = l mod 65536"

text \<open>The result is zero exactly when the first four bytes agree; \<open>strncmp\<close> would stop at a zero.\<close>

definition verify_magic :: "u8 list \<Rightarrow> int" where
  "verify_magic s2 = (if take 4 s2 = [0x7f, 0x45, 0x4c, 0x46] then 0 else 1)"

definition verify_ident :: "u8 list \<Rightarrow> int" where
  "verify_ident a1 =
     (if buf_byte a1 4 \<noteq> 1 \<or> buf_byte a1 5 \<noteq> 1 \<or> buf_byte a1 6 \<noteq> 1 \<or> word_at a1 16 \<noteq> 2 \<or>
         word_at a1 18 \<noteq> 3 \<or> dword_at a1 20 \<noteq> 1
      then -1 else 0)"

definition pread :: "u8 list \<Rightarrow> nat \<Rightarrow> nat \<Rightarrow> u8 list" where
  "pread file off n = take n (drop off file)"

definition read_program_header :: "elf_host \<Rightarrow> u8 list \<Rightarrow> u8 list \<Rightarrow> nat \<Rightarrow> elf_error + u8 list option" where
  "read_program_header h file input idx =
     (let off = add32 (dword_at input 28) (idx * word_at input 42) in
      if \<not> lseek_ok h off then Inr None
      else if length (pread file off (word_at input 42)) > 32 then Inl Overrun
      else if length (pread file off (word_at input 42)) = word_at input 42
      then Inr (Some (pread file off (word_at input 42)))
      else Inr None)"

definition parse_program_header :: "u8 list \<Rightarrow> nat" where
  "parse_program_header a1 = (if dword_at a1 0 = 1 then dword_at a1 8 else 0)"

text \<open>The loop over the program headers; the node address is the number of headers kept so far.\<close>

fun read_headers :: "elf_host \<Rightarrow> u8 list \<Rightarrow> u8 list \<Rightarrow> nat list \<Rightarrow> u8 list list_root \<Rightarrow> elf_error + u8 list list_root" where
  "read_headers h file input [] r = Inr r"
| "read_headers h file input (i # is) r =
     (case read_program_header h file input i of
        Inl e \<Rightarrow> Inl e
      | Inr None \<Rightarrow> Inl (Exit 1)
      | Inr (Some header) \<Rightarrow>
          read_headers h file input is
            (if parse_program_header header \<noteq> 0 then list_insert_at_tail (count r + 1) header r else r))"

text \<open>One round of the copying loop: the bytes of the segment, filled up with zeros.\<close>

definition copy_segment :: "elf_host \<Rightarrow> u8 list \<Rightarrow> u8 list \<Rightarrow> mem \<times> nat \<Rightarrow> elf_error + mem \<times> nat" where
  "copy_segment h file v23 f =
     (let v27 = dword_at v23 20; filesz = dword_at v23 16; off = dword_at v23 4;
          target = sub32 (dword_at v23 8) 134512640 in
      if \<not> malloc_ok h v27 then Inl (Exit 1)
      else if \<not> lseek_ok h off then Inl (Exit 1)
      else if length (pread file off filesz) > v27 then Inl Overrun
      else if filesz \<noteq> 0 \<and> length (pread file off filesz) \<noteq> filesz then Inl (Exit 1)
      else if \<not> out_ok h \<or> \<not> lseek_ok h target then Inl (Exit 1)
      else case f of (c, sz) \<Rightarrow>
        let bytes = pread file off filesz @ replicate (v27 - filesz) 0
        in Inr (store_bytes c target bytes, if v27 = 0 then sz else max sz (target + v27)))"

fun copy_segments :: "elf_host \<Rightarrow> u8 list \<Rightarrow> u8 list list \<Rightarrow> mem \<times> nat \<Rightarrow> elf_error + mem \<times> nat" where
  "copy_segments h file [] f = Inr f"
| "copy_segments h file (p # ps) f =
     (case copy_segment h file p f of Inl e \<Rightarrow> Inl e | Inr f1 \<Rightarrow> copy_segments h file ps f1)"

text \<open>\<open>main\<close> with its arguments; the outer option is the iteration over the list.\<close>

definition elfconvert_main :: "elf_host \<Rightarrow> u8 list list \<Rightarrow> u8 list option \<Rightarrow> (elf_error + mem \<times> nat) option" where
  "elfconvert_main h argv file =
     (if length argv \<noteq> 2 then Some (Inl (Exit 1))
      else case file of
        None \<Rightarrow> Some (Inl (Exit 1))
      | Some fd \<Rightarrow>
          let inputbuf = pread fd 0 52 in
          if length inputbuf \<noteq> 52 then Some (Inl (Exit 1))
          else if verify_magic inputbuf \<noteq> 0 then Some (Inl (Exit 1))
          else if verify_ident inputbuf \<noteq> 0 then Some (Inl (Exit 1))
          else
            let v17 = dword_at inputbuf (4 * (42 div 4)) in
            case read_headers h fd inputbuf [0..<LOWORD v17] (list_init []) of
              Inl e \<Rightarrow> Some (Inl e)
            | Inr pheader_list \<Rightarrow>
                if LOWORD v17 = 0 then Some (Inl (Exit 1))
                else if length (argv ! 1) + 11 > 80 then Some (Inl Overrun)
                else map_option (\<lambda>ps. copy_segments h fd ps (\<lambda>_. 0, 0))
                       (list_walk pheader_list (list_head pheader_list)))"

subsection \<open>Properties\<close>

definition phnum_read :: "u8 list \<Rightarrow> nat" where
  "phnum_read fd = LOWORD (dword_at (pread fd 0 52) 40)"

definition table_offset :: "u8 list \<Rightarrow> nat \<Rightarrow> nat" where
  "table_offset fd i = add32 (dword_at (pread fd 0 52) 28) (i * word_at (pread fd 0 52) 42)"

definition phdr :: "u8 list \<Rightarrow> nat \<Rightarrow> u8 list" where
  "phdr fd i = pread fd (table_offset fd i) (word_at (pread fd 0 52) 42)"

definition seg_target :: "u8 list \<Rightarrow> nat" where
  "seg_target p = sub32 (dword_at p 8) 134512640"

definition seg_bytes :: "u8 list \<Rightarrow> u8 list \<Rightarrow> u8 list" where
  "seg_bytes fd p = pread fd (dword_at p 4) (dword_at p 16) @ replicate (dword_at p 20 - dword_at p 16) 0"

lemma word_at_less: "word_at b i < 65536"
proof -
  have "buf_byte b j < 256" for j using unsigned_less [of "b ! j", where 'a = nat] by (simp add: buf_byte_def)
  from this [of i] this [of "i + 1"] show ?thesis by (simp add: word_at_def)
qed

lemma LOWORD_dword: "LOWORD (dword_at b i) = word_at b i"
  using word_at_less [of b i] by (simp add: LOWORD_def dword_at_def)

lemma read_program_header_cases:
  "read_program_header h fd (pread fd 0 52) i =
     (if \<not> lseek_ok h (table_offset fd i) then Inr None
      else if length (phdr fd i) > 32 then Inl Overrun
      else if length (phdr fd i) = word_at (pread fd 0 52) 42 then Inr (Some (phdr fd i)) else Inr None)"
  by (simp add: read_program_header_def table_offset_def phdr_def Let_def)

lemma read_headers_list:
  "read_headers h fd (pread fd 0 52) is r = Inr r' \<Longrightarrow> holds_list r ds \<Longrightarrow>
   holds_list r' (ds @ filter (\<lambda>p. parse_program_header p \<noteq> 0) (map (phdr fd) is))"
proof (induction "is" arbitrary: r ds)
  case (Cons i "is")
  have hd: "read_program_header h fd (pread fd 0 52) i = Inr (Some (phdr fd i))"
    using Cons.prems(1) by (auto simp: read_program_header_cases split: if_splits)
  show ?case
  proof (cases "parse_program_header (phdr fd i) = 0")
    case True
    then show ?thesis using Cons.IH [of r ds] Cons.prems hd by simp
  next
    case False
    then show ?thesis
      using Cons.IH [OF _ holds_list_tail [OF Cons.prems(2), of "phdr fd i"]] Cons.prems(1) hd by simp
  qed
qed simp

text \<open>When one of the headers lies past the end of the file, reading them stops there.\<close>

lemma read_headers_short:
  assumes "\<forall>i \<in> set is. length (phdr fd i) \<le> 32" and "j \<in> set is" and "length (phdr fd j) \<noteq> word_at (pread fd 0 52) 42"
  shows "read_headers h fd (pread fd 0 52) is r = Inl (Exit 1)"
  using assms
proof (induction "is" arbitrary: r)
  case (Cons i "is")
  then show ?case by (auto simp: read_program_header_cases)
qed simp

lemma copy_segment_Inr:
  assumes "copy_segment h fd p (c, sz) = Inr (c', sz')"
  shows "c' = store_bytes c (seg_target p) (seg_bytes fd p)" and "length (seg_bytes fd p) = dword_at p 20"
    and "sz \<le> sz'" and "dword_at p 20 \<noteq> 0 \<Longrightarrow> seg_target p + dword_at p 20 \<le> sz'"
  using assms
  by (auto simp: copy_segment_def seg_target_def seg_bytes_def Let_def pread_def split: if_splits)

lemma copy_segments_keep:
  "copy_segments h fd ps (c, sz) = Inr (c', sz') \<Longrightarrow>
   (\<forall>q \<in> set ps. a < seg_target q \<or> seg_target q + dword_at q 20 \<le> a) \<Longrightarrow> c' a = c a \<and> sz \<le> sz'"
proof (induction ps arbitrary: c sz)
  case (Cons q ps)
  then obtain c1 sz1 where st: "copy_segment h fd q (c, sz) = Inr (c1, sz1)" "copy_segments h fd ps (c1, sz1) = Inr (c', sz')"
    by (auto split: sum.splits)
  note cs = copy_segment_Inr [OF st(1)]
  have "c1 a = c a" using Cons.prems(2) cs(1,2) by (auto simp: store_bytes_out)
  then show ?case using Cons.IH [OF st(2)] Cons.prems(2) cs(3) by auto
qed simp

lemma copy_segments_size: "copy_segments h fd ps (c, sz) = Inr (c', sz') \<Longrightarrow> sz \<le> sz'"
proof (induction ps arbitrary: c sz)
  case (Cons q ps)
  then obtain c1 sz1 where "copy_segment h fd q (c, sz) = Inr (c1, sz1)" "copy_segments h fd ps (c1, sz1) = Inr (c', sz')"
    by (auto split: sum.splits)
  with Cons.IH [of c1 sz1] copy_segment_Inr(3) [of h fd q c sz c1 sz1] show ?case by simp
qed simp

lemma copy_segments_append:
  "copy_segments h fd (xs @ ys) f = (case copy_segments h fd xs f of Inl e \<Rightarrow> Inl e | Inr g \<Rightarrow> copy_segments h fd ys g)"
  by (induction xs arbitrary: f) (auto split: sum.splits)

lemma copy_segments_at:
  assumes "copy_segments h fd (xs @ p # ys) (c, sz) = Inr (c', sz')"
    and "\<forall>q \<in> set ys. disjoint_ranges (seg_target p) (dword_at p 20) (seg_target q) (dword_at q 20)"
  shows "load_bytes c' (seg_target p) (dword_at p 20) = seg_bytes fd p"
    and "dword_at p 20 \<noteq> 0 \<Longrightarrow> seg_target p + dword_at p 20 \<le> sz'"
proof -
  obtain c1 sz1 c2 sz2 where st: "copy_segment h fd p (c1, sz1) = Inr (c2, sz2)" "copy_segments h fd ys (c2, sz2) = Inr (c', sz')"
    using assms(1) by (auto simp: copy_segments_append split: sum.splits)
  note cs = copy_segment_Inr [OF st(1)]
  have "load_bytes c' (seg_target p) (dword_at p 20) = load_bytes c2 (seg_target p) (dword_at p 20)"
  proof (rule load_bytes_cong)
    fix i assume "i < dword_at p 20"
    then have "\<forall>q \<in> set ys. seg_target p + i < seg_target q \<or> seg_target q + dword_at q 20 \<le> seg_target p + i"
      using assms(2) by (auto simp: disjoint_ranges_def dest!: bspec)
    then show "c' (seg_target p + i) = c2 (seg_target p + i)"
      using copy_segments_keep [OF st(2)] by blast
  qed
  then show "load_bytes c' (seg_target p) (dword_at p 20) = seg_bytes fd p"
    using cs(1,2) by (simp add: load_store)
  show "seg_target p + dword_at p 20 \<le> sz'" if "dword_at p 20 \<noteq> 0"
    using cs(4) [OF that] copy_segments_size [OF st(2)] by simp
qed

lemma elfconvert_main_Inr:
  assumes "elfconvert_main h argv (Some fd) = Some (Inr out)"
  shows "copy_segments h fd (filter (\<lambda>p. parse_program_header p \<noteq> 0) (map (phdr fd) [0..<phnum_read fd])) (\<lambda>_. 0, 0) = Inr out"
proof -
  obtain r where r: "read_headers h fd (pread fd 0 52) [0..<phnum_read fd] (list_init []) = Inr r"
    "map_option (\<lambda>ps. copy_segments h fd ps (\<lambda>_. 0, 0)) (list_walk r (list_head r)) = Some (Inr out)"
    using assms by (auto simp: elfconvert_main_def Let_def phnum_read_def split: if_splits sum.splits)
  have "holds_list r (filter (\<lambda>p. parse_program_header p \<noteq> 0) (map (phdr fd) [0..<phnum_read fd]))"
    using read_headers_list [OF r(1) holds_list_init] by simp
  from holds_list_walk [OF this] r(2) show ?thesis by simp
qed


text \<open>
  C28: elfconvert takes the number of program headers from the field \<open>e_ehsize\<close> (always 52)
  and not from \<open>e_phnum\<close>: it gives up on every executable in which that many headers do not
  fit between the start of the table and the end of the file, however many there are.
\<close>

theorem elfconvert_reads_ehsize_headers:
  assumes "verify_magic (pread fd 0 52) = 0" and "verify_ident (pread fd 0 52) = 0" and "length argv = 2"
    and "52 \<le> length fd" and "0 < word_at fd 40" and "0 < word_at fd 42" and "word_at fd 42 \<le> 32"
    and "dword_at fd 28 + word_at fd 40 * word_at fd 42 < two32"
    and "length fd < dword_at fd 28 + word_at fd 40 * word_at fd 42"
  shows "elfconvert_main h argv (Some fd) = Some (Inl (Exit 1))"
proof -
  let ?b = "pread fd 0 52" and ?n = "word_at fd 40"
  have same: "buf_byte ?b i = buf_byte fd i" if "i < 52" for i
    using that assms(4) by (simp add: buf_byte_def pread_def)
  have w: "word_at ?b 40 = ?n" "word_at ?b 42 = word_at fd 42" "dword_at ?b 28 = dword_at fd 28" "phnum_read fd = ?n"
    using same by (simp_all add: phnum_read_def LOWORD_dword) (simp_all add: word_at_def dword_at_def)
  have "(?n - 1) * word_at fd 42 + word_at fd 42 = ?n * word_at fd 42"
    using assms(5) by (cases ?n) simp_all
  then have last: "table_offset fd (?n - 1) + word_at fd 42 = dword_at fd 28 + ?n * word_at fd 42"
    using assms(8) by (simp add: table_offset_def w add32_exact)
  have lens: "length (phdr fd i) = min (word_at fd 42) (length fd - table_offset fd i)" for i
    unfolding phdr_def w(2) by (simp add: pread_def min.commute)
  have "length (phdr fd (?n - 1)) \<noteq> word_at fd 42"
    using last assms(6,9) lens [of "?n - 1"] by simp
  then have "read_headers h fd ?b [0..<phnum_read fd] (list_init []) = Inl (Exit 1)"
    using assms(5,7) by (intro read_headers_short [where j = "?n - 1"]) (auto simp: w lens)
  then show ?thesis
    using assms(1-4) by (simp add: elfconvert_main_def Let_def pread_def phnum_read_def)
qed

text \<open>A header with the given count fields and one program header for two bytes of data.\<close>

definition sample_elf :: "u8 \<Rightarrow> u8 list" where
  "sample_elf ehsize =
    [127, 69, 76, 70, 1, 1, 1, 0, 0, 0, 0, 0, 0, 0, 0, 0, 2, 0, 3, 0, 1, 0, 0, 0, 0, 128, 4, 8, 52, 0, 0, 0,
     0, 0, 0, 0, 0, 0, 0, 0, ehsize, 0, 32, 0, 1, 0, 0, 0, 0, 0, 0, 0,
     1, 0, 0, 0, 84, 0, 0, 0, 5, 128, 4, 8, 0, 0, 0, 0, 2, 0, 0, 0, 3, 0, 0, 0, 0, 0, 0, 0, 0, 0, 0, 0, 9, 8]"

definition sample_host :: elf_host where
  "sample_host = \<lparr>lseek_ok = (\<lambda>_. True), malloc_ok = (\<lambda>_. True), out_ok = True\<rparr>"

lemmas sample_simps = sample_elf_def pread_def verify_magic_def verify_ident_def buf_byte_def word_at_def dword_at_def

theorem elfconvert_reads_ehsize_headers_witness:
  "word_at (sample_elf 52) 44 = 1 \<and> elfconvert_main sample_host [[], [97]] (Some (sample_elf 52)) = Some (Inl (Exit 1))"
proof
  show "word_at (sample_elf 52) 44 = 1" by (simp add: sample_simps)
  show "elfconvert_main sample_host [[], [97]] (Some (sample_elf 52)) = Some (Inl (Exit 1))"
    by (rule elfconvert_reads_ehsize_headers) (simp_all add: sample_simps)
qed

lemma sample_header: "table_offset (sample_elf 1) 0 = 52" "word_at (pread (sample_elf 1) 0 52) 42 = 32"
    "phnum_read (sample_elf 1) = 1"
  by (simp_all add: sample_simps table_offset_def add32_def phnum_read_def LOWORD_def)

lemma sample_phdr: "phdr (sample_elf 1) 0 =
    [1, 0, 0, 0, 84, 0, 0, 0, 5, 128, 4, 8, 0, 0, 0, 0, 2, 0, 0, 0, 3, 0, 0, 0, 0, 0, 0, 0, 0, 0, 0, 0]"
  unfolding phdr_def sample_header by (simp add: sample_simps)

lemma sample_segment: "parse_program_header (phdr (sample_elf 1) 0) \<noteq> 0" "seg_target (phdr (sample_elf 1) 0) = 5"
    "dword_at (phdr (sample_elf 1) 0) 20 = 3" "dword_at (phdr (sample_elf 1) 0) 16 = 2" "dword_at (phdr (sample_elf 1) 0) 4 = 84"
    "seg_bytes (sample_elf 1) (phdr (sample_elf 1) 0) = [9, 8, 0]"
  unfolding sample_phdr
  by (simp_all add: parse_program_header_def seg_target_def sub32_def seg_bytes_def word_at_def dword_at_def buf_byte_def)
    (simp add: sample_simps)


end
