(* ===== verification/KFiles.thy ===== *)
theory KFiles
  imports KStack KPrefixTree KKissFS
begin

text \<open>
  Open files: the array of file descriptors of a process (FileDescArr of proc/tasks.cpp), the
  device file system (fs/devfs.cpp), and the dispatcher (fs/filesystem.cpp) which looks the
  mount point of a path up in the prefix tree and hands every operation to its file system.

  The drivers are virtual classes: \<open>devops\<close> holds what their objects do, on a state
  \<open>'k\<close> of their own. A pointer to a file system is \<open>Some\<close> of its name, the null pointer
  \<open>None\<close>. The address of the buffer \<open>goodName\<close> on the stack and those of the string
  literals are part of the kernel state.
\<close>

subsection \<open>Objects\<close>

datatype fs_id = KissFs | DevFs

datatype 'd FsSpecificData = KissData KissFD | DevData 'd

record 'd File =
  f_offset :: nat
  f_fs :: fs_id
  f_data :: "'d FsSpecificData"

record ('g, 'd, 'k) devops =
  get_instance :: "'g \<Rightarrow> 'k \<Rightarrow> 'd option \<times> 'k"
  dev_read :: "'d \<Rightarrow> nat \<Rightarrow> nat \<Rightarrow> 'k \<Rightarrow> int \<times> u8 list \<times> 'k"
  dev_write :: "'d \<Rightarrow> u8 list \<Rightarrow> 'k \<Rightarrow> int \<times> 'k"
  dev_canSeek :: "'d \<Rightarrow> bool"
  dev_seekCallback :: "'d \<Rightarrow> nat \<Rightarrow> 'k \<Rightarrow> 'k"
  dev_delete :: "'d \<Rightarrow> 'k \<Rightarrow> 'k"

record ('g, 'k) kern =
  kmem :: mem
  lookup :: "fs_id option PrefixTree"
  kissFS :: KissFS
  deviceOfFilename :: "(Filename, 'g) HashEntry list"
  devices :: 'k
  goodName :: nat
  lit_rtc :: nat
  lit_dev_rtc :: nat
  lit_dev_keyb :: nat
  lit_dev_term :: nat

text \<open>Sequencing: \<open>None\<close> is a computation that does not end, \<open>Inl\<close> a fault.\<close>

definition obind :: "'a kresult option \<Rightarrow> ('a \<Rightarrow> 'b kresult option) \<Rightarrow> 'b kresult option" where
  "obind m f = (case m of None \<Rightarrow> None | Some (Inl e) \<Rightarrow> Some (Inl e) | Some (Inr x) \<Rightarrow> f x)"

lemma obind_simps [simp]: "obind None f = None" "obind (Some (Inl e)) f = Some (Inl e)" "obind (Some (Inr x)) f = f x"
  by (simp_all add: obind_def)

definition to_int32 :: "nat \<Rightarrow> int" where
  "to_int32 n = (if n < 2147483648 then int n else int n - 4294967296)"

definition to_size :: "int \<Rightarrow> nat" where
  "to_size i = nat (i mod 4294967296)"

definition SEEK_SET :: int where "SEEK_SET = 0"
definition SEEK_CUR :: int where "SEEK_CUR = 1"
definition SEEK_END :: int where "SEEK_END = 2"

subsection \<open>The array of file descriptors\<close>

definition FD_ARRAY_LENGTH :: nat where "FD_ARRAY_LENGTH = 128"
definition FD_FIXED_PART :: nat where "FD_FIXED_PART = 2"

record 'd FileDescArr =
  content :: "'d File option list"
  freeFDs :: "nat stack"
  isFDfree :: bitset

definition FileDescArr_new :: "'d FileDescArr" where
  "FileDescArr_new =
     (let b = fold (BitSet_clear FD_ARRAY_LENGTH) [0..<FD_FIXED_PART] (BitSet_new FD_ARRAY_LENGTH)
      in fold (\<lambda>i a. a\<lparr>isFDfree := BitSet_set FD_ARRAY_LENGTH i (isFDfree a),
                        freeFDs := Stack_push FD_ARRAY_LENGTH i (freeFDs a)\<rparr>)
           [FD_FIXED_PART..<FD_ARRAY_LENGTH]
           \<lparr>content = replicate FD_ARRAY_LENGTH None, freeFDs = Stack_new FD_ARRAY_LENGTH 0, isFDfree = b\<rparr>)"

definition FileDescArr_put :: "nat \<Rightarrow> 'd File option \<Rightarrow> 'd FileDescArr \<Rightarrow> 'd FileDescArr" where
  "FileDescArr_put i f a = a\<lparr>content := (content a)[i := f]\<rparr>"

definition FileDescArr_alloc :: "'d FileDescArr \<Rightarrow> nat option \<times> 'd FileDescArr" where
  "FileDescArr_alloc a =
     (if Stack_empty (freeFDs a) then (None, a)
      else case Stack_pop 0 (freeFDs a) of (ans, s) \<Rightarrow>
        (Some ans, a\<lparr>freeFDs := s, isFDfree := BitSet_clear FD_ARRAY_LENGTH ans (isFDfree a)\<rparr>))"

definition FileDescArr_isValid :: "nat \<Rightarrow> 'd FileDescArr \<Rightarrow> bool" where
  "FileDescArr_isValid i a =
     (if i \<ge> FD_ARRAY_LENGTH then False
      else if BitSet_test FD_ARRAY_LENGTH i (isFDfree a) then False
      else if content a ! i = None then False
      else True)"

definition FileDescArr_recycle :: "nat \<Rightarrow> 'd FileDescArr \<Rightarrow> 'd FileDescArr" where
  "FileDescArr_recycle i a =
     (if BitSet_test FD_ARRAY_LENGTH i (isFDfree a) then a
      else a\<lparr>isFDfree := BitSet_set FD_ARRAY_LENGTH i (isFDfree a),
             freeFDs := Stack_push FD_ARRAY_LENGTH i (freeFDs a)\<rparr>)"

subsection \<open>The device file system\<close>

definition DevFS_registerDevice :: "nat \<Rightarrow> 'g \<Rightarrow> ('g, 'k) kern \<Rightarrow> ('g, 'k) kern option" where
  "DevFS_registerDevice path getter k =
     map_option (\<lambda>t. k\<lparr>deviceOfFilename := t\<rparr>)
       (LinearProbingHashTable_put (Filename_eq (kmem k)) (HashFunc_hash (kmem k)) path getter (deviceOfFilename k))"

definition DevFS_open ::
  "('g, 'd, 'k) devops \<Rightarrow> nat \<Rightarrow> ('g, 'k) kern \<Rightarrow> ('d option \<times> ('g, 'k) kern) option" where
  "DevFS_open ops fn k =
     (case LinearProbingHashTable_get (Filename_eq (kmem k)) (HashFunc_hash (kmem k)) (deviceOfFilename k) fn of
        None \<Rightarrow> None
      | Some None \<Rightarrow> Some (None, k)
      | Some (Some getter) \<Rightarrow>
          (case get_instance ops getter (devices k) of (inst, st) \<Rightarrow> Some (inst, k\<lparr>devices := st\<rparr>)))"

definition DevFS_read ::
  "('g, 'd, 'k) devops \<Rightarrow> 'd \<Rightarrow> nat \<Rightarrow> nat \<Rightarrow> nat \<Rightarrow> ('g, 'k) kern \<Rightarrow> int \<times> ('g, 'k) kern" where
  "DevFS_read ops d off buf len k =
     (case dev_read ops d buf len (devices k) of (r, bs, st) \<Rightarrow>
        (r, k\<lparr>kmem := store_bytes (kmem k) buf bs, devices := st\<rparr>))"

definition DevFS_write ::
  "('g, 'd, 'k) devops \<Rightarrow> 'd \<Rightarrow> nat \<Rightarrow> nat \<Rightarrow> nat \<Rightarrow> ('g, 'k) kern \<Rightarrow> int \<times> ('g, 'k) kern" where
  "DevFS_write ops d off buf len k =
     (case dev_write ops d (load_bytes (kmem k) buf len) (devices k) of (r, st) \<Rightarrow> (r, k\<lparr>devices := st\<rparr>))"

definition DevFS_close :: "('g, 'd, 'k) devops \<Rightarrow> 'd \<Rightarrow> ('g, 'k) kern \<Rightarrow> bool \<times> ('g, 'k) kern" where
  "DevFS_close ops d k = (True, k\<lparr>devices := dev_delete ops d (devices k)\<rparr>)"

definition DevFS_fstat :: "nat \<times> nat option" where
  "DevFS_fstat = (S_IFCHR, None)"

definition DevFS_canSeek :: "('g, 'd, 'k) devops \<Rightarrow> 'd \<Rightarrow> bool" where
  "DevFS_canSeek ops d = dev_canSeek ops d"

definition DevFS_seekCallback :: "('g, 'd, 'k) devops \<Rightarrow> 'd \<Rightarrow> nat \<Rightarrow> ('g, 'k) kern \<Rightarrow> ('g, 'k) kern" where
  "DevFS_seekCallback ops d off k = k\<lparr>devices := dev_seekCallback ops d off (devices k)\<rparr>"

definition DevFS_getFileSize :: "nat option" where
  "DevFS_getFileSize = None"

subsection \<open>The virtual calls of a file system\<close>

text \<open>\<open>fd.fs->op(fd.fsSpecificData, ...)\<close>: the file system named in the file, on its data.\<close>

definition fs_read ::
  "('g, 'd, 'k) devops \<Rightarrow> 'd File \<Rightarrow> nat \<Rightarrow> nat \<Rightarrow> ('g, 'k) kern \<Rightarrow> (int \<times> 'd File \<times> ('g, 'k) kern) kresult option" where
  "fs_read ops f buf len k =
     (case f_data f of
        KissData fd \<Rightarrow>
          obind (KissFS_read (kmem k) (kissFS k) fd (f_offset f) buf len)
            (\<lambda>(m, fd1, r). Some (Inr (r, f\<lparr>f_data := KissData fd1\<rparr>, k\<lparr>kmem := m\<rparr>)))
      | DevData d \<Rightarrow> (case DevFS_read ops d (f_offset f) buf len k of (r, k1) \<Rightarrow> Some (Inr (r, f, k1))))"

definition fs_write ::
  "('g, 'd, 'k) devops \<Rightarrow> 'd File \<Rightarrow> nat \<Rightarrow> nat \<Rightarrow> ('g, 'k) kern \<Rightarrow> int \<times> ('g, 'k) kern" where
  "fs_write ops f buf len k =
     (case f_data f of
        KissData fd \<Rightarrow> (KissFS_write fd (f_offset f) (load_bytes (kmem k) buf len), k)
      | DevData d \<Rightarrow> DevFS_write ops d (f_offset f) buf len k)"

definition fs_open ::
  "('g, 'd, 'k) devops \<Rightarrow> fs_id \<Rightarrow> nat \<Rightarrow> ('g, 'k) kern \<Rightarrow> ('d FsSpecificData option \<times> ('g, 'k) kern) option" where
  "fs_open ops fs fn k =
     (case fs of
        KissFs \<Rightarrow> map_option (\<lambda>r. (map_option KissData r, k)) (KissFS_open (kmem k) (kissFS k) fn)
      | DevFs \<Rightarrow> map_option (\<lambda>(r, k1). (map_option DevData r, k1)) (DevFS_open ops fn k))"

definition fs_close :: "('g, 'd, 'k) devops \<Rightarrow> 'd File \<Rightarrow> ('g, 'k) kern \<Rightarrow> bool \<times> ('g, 'k) kern" where
  "fs_close ops f k = (case f_data f of KissData fd \<Rightarrow> (True, k) | DevData d \<Rightarrow> DevFS_close ops d k)"

definition fs_fstat :: "'d File \<Rightarrow> ('g, 'k) kern \<Rightarrow> (nat \<times> nat option) kresult" where
  "fs_fstat f k = (case f_data f of KissData fd \<Rightarrow> KissFS_fstat (kissFS k) fd | DevData d \<Rightarrow> Inr DevFS_fstat)"

definition fs_canSeek :: "('g, 'd, 'k) devops \<Rightarrow> 'd File \<Rightarrow> bool" where
  "fs_canSeek ops f = (case f_data f of KissData fd \<Rightarrow> KissFS_canSeek fd | DevData d \<Rightarrow> DevFS_canSeek ops d)"

definition fs_getFileSize :: "'d File \<Rightarrow> ('g, 'k) kern \<Rightarrow> nat option kresult" where
  "fs_getFileSize f k =
     (case f_data f of KissData fd \<Rightarrow> KissFS_getFileSize (kissFS k) fd | DevData d \<Rightarrow> Inr DevFS_getFileSize)"

definition fs_seekCallback :: "('g, 'd, 'k) devops \<Rightarrow> 'd File \<Rightarrow> nat \<Rightarrow> ('g, 'k) kern \<Rightarrow> ('g, 'k) kern" where
  "fs_seekCallback ops f off k = (case f_data f of KissData fd \<Rightarrow> k | DevData d \<Rightarrow> DevFS_seekCallback ops d off k)"

subsection \<open>The dispatcher\<close>

definition Dispatcher_mount :: "fs_id \<Rightarrow> u8 list \<Rightarrow> ('g, 'k) kern \<Rightarrow> ('g, 'k) kern kresult" where
  "Dispatcher_mount fs path k =
     kbind (PrefixTree_insert None path (Some fs) (lookup k)) (\<lambda>t. Inr (k\<lparr>lookup := t\<rparr>))"

text \<open>The two calls of \<open>mount\<close> in \<open>mountAll\<close>; \<open>init\<close> of the file systems comes before.\<close>

definition Dispatcher_mountAll :: "('g, 'k) kern \<Rightarrow> ('g, 'k) kern kresult" where
  "Dispatcher_mountAll k =
     kbind (Dispatcher_mount KissFs (bytes ''/'') k) (Dispatcher_mount DevFs (bytes ''/dev/''))"

definition Dispatcher_read ::
  "('g, 'd, 'k) devops \<Rightarrow> 'd File \<Rightarrow> nat \<Rightarrow> nat \<Rightarrow> ('g, 'k) kern \<Rightarrow> (int \<times> 'd File \<times> ('g, 'k) kern) kresult option" where
  "Dispatcher_read ops fd buf nbytes k =
     obind (fs_read ops fd buf nbytes k) (\<lambda>(result, fd1, k1).
       if result = -1 then Some (Inr (-1, fd1, k1))
       else Some (Inr (result, fd1\<lparr>f_offset := to_size (int (f_offset fd1) + result)\<rparr>, k1)))"

definition Dispatcher_write ::
  "('g, 'd, 'k) devops \<Rightarrow> 'd File \<Rightarrow> nat \<Rightarrow> nat \<Rightarrow> ('g, 'k) kern \<Rightarrow> int \<times> 'd File \<times> ('g, 'k) kern" where
  "Dispatcher_write ops fd buf nbytes k =
     (case fs_write ops fd buf nbytes k of (result, k1) \<Rightarrow>
        if result = -1 then (-1, fd, k1)
        else (result, fd\<lparr>f_offset := to_size (int (f_offset fd) + result)\<rparr>, k1))"

definition Dispatcher_fstat :: "'d File \<Rightarrow> ('g, 'k) kern \<Rightarrow> (nat \<times> nat option) kresult" where
  "Dispatcher_fstat fd k = fs_fstat fd k"

definition Dispatcher_lseek ::
  "('g, 'd, 'k) devops \<Rightarrow> 'd File \<Rightarrow> int \<Rightarrow> int \<Rightarrow> ('g, 'k) kern \<Rightarrow> (int \<times> 'd File \<times> ('g, 'k) kern) kresult" where
  "Dispatcher_lseek ops fd offset whence k =
     (if \<not> fs_canSeek ops fd then Inr (-1, fd, k)
      else kbind (fs_getFileSize fd k) (\<lambda>fileSize.
        let done = (\<lambda>off. Inr (to_int32 off, fd\<lparr>f_offset := off\<rparr>, fs_seekCallback ops fd off k)) in
        if whence = SEEK_SET then done (to_size offset)
        else if whence = SEEK_CUR then done (to_size (int (f_offset fd) + offset))
        else if whence = SEEK_END then
          (case fileSize of None \<Rightarrow> Inr (-1, fd, k) | Some n \<Rightarrow> done (to_size (int n + offset)))
        else Inr (-1, fd, k)))"

text \<open>The path that is looked up: \<open>rtc\<close> is an alias, and a slash is put in front of other names.\<close>

definition Dispatcher_path :: "nat \<Rightarrow> ('g, 'k) kern \<Rightarrow> nat \<times> ('g, 'k) kern" where
  "Dispatcher_path path k =
     (let fn = (if strncmp (kmem k) path (lit_rtc k) 4 = 0 then lit_dev_rtc k else path);
          k1 = k\<lparr>kmem := store_bytes (kmem k) (goodName k) (47 # replicate 69 0)\<rparr>
      in if kmem k1 fn \<noteq> 47
         then (goodName k, k1\<lparr>kmem := strncpy (kmem k1) (goodName k + 1) fn 69\<rparr>)
         else (fn, k1))"

definition Dispatcher_open ::
  "('g, 'd, 'k) devops \<Rightarrow> nat \<Rightarrow> ('g, 'k) kern \<Rightarrow> ('d File option \<times> ('g, 'k) kern) kresult option" where
  "Dispatcher_open ops path k =
     (case Dispatcher_path path k of (fn, k1) \<Rightarrow>
        case strlen (kmem k1) fn of
          None \<Rightarrow> None
        | Some n \<Rightarrow>
            (case PrefixTree_search None (load_bytes (kmem k1) fn n) (lookup k1) of
               Inl e \<Rightarrow> Some (Inl e)
             | Inr x \<Rightarrow>
                 (case val x of
                    None \<Rightarrow> Some (Inr (None, k1))
                  | Some fs \<Rightarrow>
                      map_option (\<lambda>(r, k2). Inr (map_option (\<lambda>d. \<lparr>f_offset = 0, f_fs = fs, f_data = d\<rparr>) r, k2))
                        (fs_open ops fs (fn + vlen x) k1))))"

definition Dispatcher_close :: "('g, 'd, 'k) devops \<Rightarrow> 'd File \<Rightarrow> ('g, 'k) kern \<Rightarrow> bool \<times> ('g, 'k) kern" where
  "Dispatcher_close ops fd k = (case fs_close ops fd k of (result, k1) \<Rightarrow> (if \<not> result then False else True, k1))"

definition Dispatcher_register_devfs :: "nat \<Rightarrow> 'g \<Rightarrow> ('g, 'k) kern \<Rightarrow> ('g, 'k) kern option" where
  "Dispatcher_register_devfs path getter k = DevFS_registerDevice path getter k"

subsection \<open>The array of descriptors is a free list beside a table\<close>

definition fd_isfree :: "'d FileDescArr \<Rightarrow> nat \<Rightarrow> bool" where
  "fd_isfree a i \<longleftrightarrow> BitSet_test FD_ARRAY_LENGTH i (isFDfree a)"

definition fd_count :: "'d FileDescArr \<Rightarrow> nat" where
  "fd_count a = length (Stack_list (freeFDs a))"

definition fd_ok :: "'d FileDescArr \<Rightarrow> bool" where
  "fd_ok a \<longleftrightarrow> length (content a) = FD_ARRAY_LENGTH \<and> flist.agree FD_ARRAY_LENGTH (freeFDs a) (isFDfree a) \<and>
     (\<forall>i. fd_isfree a i \<longrightarrow> FD_FIXED_PART \<le> i \<and> content a ! i = None)"

lemma fd_okD:
  assumes "fd_ok a"
  shows "length (content a) = FD_ARRAY_LENGTH" and "flist.agree FD_ARRAY_LENGTH (freeFDs a) (isFDfree a)"
    and "fd_isfree a i \<Longrightarrow> FD_FIXED_PART \<le> i" and "fd_isfree a i \<Longrightarrow> content a ! i = None"
    and "fd_isfree a i \<Longrightarrow> i < FD_ARRAY_LENGTH"
  using assms by (auto simp: fd_ok_def fd_isfree_def dest: BitSet_test_bound)

lemma fd_count_set: "fd_ok a \<Longrightarrow> fd_count a = card {i. fd_isfree a i}"
  by (simp add: fd_ok_def fd_isfree_def fd_count_def flist.agree_def distinct_card)

lemma fd_isValid_iff:
  "fd_ok a \<Longrightarrow> FileDescArr_isValid i a \<longleftrightarrow> i < FD_ARRAY_LENGTH \<and> content a ! i \<noteq> None"
  by (auto simp: FileDescArr_isValid_def fd_ok_def fd_isfree_def)

lemma FileDescArr_put_ok:
  assumes "fd_ok a" and "f = None \<or> \<not> fd_isfree a i"
  shows "fd_ok (FileDescArr_put i f a)"
    and "fd_isfree (FileDescArr_put i f a) = fd_isfree a" and "fd_count (FileDescArr_put i f a) = fd_count a"
    and "i < FD_ARRAY_LENGTH \<Longrightarrow> content (FileDescArr_put i f a) ! j = (if j = i then f else content a ! j)"
proof -
  show fr: "fd_isfree (FileDescArr_put i f a) = fd_isfree a" and "fd_count (FileDescArr_put i f a) = fd_count a"
    by (simp_all add: FileDescArr_put_def fd_isfree_def fd_count_def fun_eq_iff)
  have "(content a)[i := f] ! j = None" if "fd_isfree a j" for j
    using assms that fd_okD(1) [OF assms(1)] fd_okD(4,5) [OF assms(1), of j] by (cases "i = j") auto
  with assms fr show "fd_ok (FileDescArr_put i f a)"
    by (simp add: fd_ok_def) (simp add: FileDescArr_put_def)
  show "content (FileDescArr_put i f a) ! j = (if j = i then f else content a ! j)" if "i < FD_ARRAY_LENGTH"
    using that fd_okD(1) [OF assms(1)] by (simp add: FileDescArr_put_def nth_list_update)
qed

lemma FileDescArr_alloc_none: "fd_ok a \<Longrightarrow> fd_count a = 0 \<Longrightarrow> FileDescArr_alloc a = (None, a)"
  by (simp add: FileDescArr_alloc_def fd_count_def fd_ok_def flist.agree_def Stack_empty_iff [of FD_ARRAY_LENGTH])

lemma FileDescArr_alloc_some:
  assumes "fd_ok a" and "0 < fd_count a"
  obtains i b where "FileDescArr_alloc a = (Some i, b)" and "fd_isfree a i" and "fd_ok b"
    and "content b = content a" and "fd_isfree b = (\<lambda>j. j \<noteq> i \<and> fd_isfree a j)" and "Suc (fd_count b) = fd_count a"
proof -
  let ?i = "fst (Stack_pop 0 (freeFDs a))" and ?s = "snd (Stack_pop 0 (freeFDs a))"
  define b where "b = a\<lparr>freeFDs := ?s, isFDfree := BitSet_clear FD_ARRAY_LENGTH ?i (isFDfree a)\<rparr>"
  have ne: "Stack_list (freeFDs a) \<noteq> []" and ag: "flist.agree FD_ARRAY_LENGTH (freeFDs a) (isFDfree a)"
    using assms by (auto simp: fd_count_def dest: fd_okD(2))
  then have 1: "FileDescArr_alloc a = (Some ?i, b)"
    by (simp add: FileDescArr_alloc_def b_def flist.agree_def Stack_empty_iff [of FD_ARRAY_LENGTH] split_def)
  have 2: "fd_isfree a ?i" and ag': "flist.agree FD_ARRAY_LENGTH (freeFDs b) (isFDfree b)"
    using flist.agree_take [OF ag ne] by (simp_all add: fd_isfree_def b_def)
  have 3: "fd_isfree b = (\<lambda>j. j \<noteq> ?i \<and> fd_isfree a j)"
    using ag by (simp add: fd_isfree_def b_def fun_eq_iff flist.agree_def BitSet_test_clear)
  have 4: "fd_ok b"
    using assms(1) ag' 3 by (auto simp: fd_ok_def b_def)
  have "Suc (fd_count b) = fd_count a"
    using ag ne by (simp add: fd_count_def b_def flist.agree_def Stack_pop_list [of FD_ARRAY_LENGTH])
  with 1 2 3 4 show ?thesis
    by (intro that) (simp_all add: b_def)
qed

lemma FileDescArr_recycle_ok:
  assumes "fd_ok a" and "i < FD_ARRAY_LENGTH" and "FD_FIXED_PART \<le> i" and "content a ! i = None"
  shows "fd_ok (FileDescArr_recycle i a)"
    and "fd_isfree (FileDescArr_recycle i a) = (\<lambda>j. j = i \<or> fd_isfree a j)"
    and "content (FileDescArr_recycle i a) = content a"
    and "fd_count (FileDescArr_recycle i a) = (if fd_isfree a i then fd_count a else Suc (fd_count a))"
proof -
  let ?b = "FileDescArr_recycle i a"
  have ag: "flist.agree FD_ARRAY_LENGTH (freeFDs a) (isFDfree a)"
    using assms(1) by (rule fd_okD)
  show c: "content ?b = content a"
    by (simp add: FileDescArr_recycle_def)
  show f: "fd_isfree ?b = (\<lambda>j. j = i \<or> fd_isfree a j)"
    using ag assms(2) by (auto simp: FileDescArr_recycle_def fd_isfree_def flist.agree_def BitSet_test_set fun_eq_iff)
  have "flist.agree FD_ARRAY_LENGTH (freeFDs ?b) (isFDfree ?b)"
    using ag flist.agree_give(1) [OF ag _ assms(2)] by (simp add: FileDescArr_recycle_def)
  with assms c f show "fd_ok ?b"
    by (auto simp: fd_ok_def)
  show "fd_count ?b = (if fd_isfree a i then fd_count a else Suc (fd_count a))"
    using flist.agree_give(2) [OF ag _ assms(2)] by (simp add: FileDescArr_recycle_def fd_count_def fd_isfree_def)
qed

text \<open>The constructor fills the stack with the descriptors from 2 on.\<close>

definition fd_fill :: "nat \<Rightarrow> 'd FileDescArr \<Rightarrow> 'd FileDescArr" where
  "fd_fill i a = a\<lparr>isFDfree := BitSet_set FD_ARRAY_LENGTH i (isFDfree a),
                   freeFDs := Stack_push FD_ARRAY_LENGTH i (freeFDs a)\<rparr>"

lemma fd_fill_ok:
  assumes "fd_ok a" and "\<And>i. fd_isfree a i \<Longrightarrow> i < m" and "m + n \<le> FD_ARRAY_LENGTH" and "FD_FIXED_PART \<le> m"
    and "\<And>i. i < FD_ARRAY_LENGTH \<Longrightarrow> content a ! i = None"
  shows "fd_ok (fold fd_fill [m..<m + n] a) \<and> content (fold fd_fill [m..<m + n] a) = content a \<and>
    fd_isfree (fold fd_fill [m..<m + n] a) = (\<lambda>i. fd_isfree a i \<or> m \<le> i \<and> i < m + n) \<and>
    fd_count (fold fd_fill [m..<m + n] a) = fd_count a + n"
  using assms
proof (induction n)
  case (Suc n)
  let ?b = "fold fd_fill [m..<m + n] a"
  have ih: "fd_ok ?b" "content ?b = content a" "fd_isfree ?b = (\<lambda>i. fd_isfree a i \<or> m \<le> i \<and> i < m + n)"
    "fd_count ?b = fd_count a + n"
    using Suc by auto
  have nf: "\<not> fd_isfree ?b (m + n)"
    using ih(3) Suc.prems(2) [of "m + n"] by auto
  have c: "content ?b ! (m + n) = None"
    using ih(2) Suc.prems(4) Suc.prems(3,5) by auto
  have "fold fd_fill [m..<m + Suc n] a = FileDescArr_recycle (m + n) ?b"
    using nf by (simp add: fd_fill_def FileDescArr_recycle_def fd_isfree_def)
  with FileDescArr_recycle_ok [OF ih(1) _ _ c] ih nf Suc.prems(3,4) show ?case
    by (auto simp: fun_eq_iff)
qed (auto simp: fun_eq_iff)

lemma FileDescArr_new_ok:
  shows "fd_ok (FileDescArr_new :: 'd FileDescArr)"
    and "fd_isfree (FileDescArr_new :: 'd FileDescArr) = (\<lambda>i. FD_FIXED_PART \<le> i \<and> i < FD_ARRAY_LENGTH)"
    and "fd_count (FileDescArr_new :: 'd FileDescArr) = 126"
    and "content (FileDescArr_new :: 'd FileDescArr) = replicate FD_ARRAY_LENGTH None"
proof -
  define b where "b = fold (BitSet_clear FD_ARRAY_LENGTH) [0..<FD_FIXED_PART] (BitSet_new FD_ARRAY_LENGTH)"
  define a where "a = \<lparr>content = replicate FD_ARRAY_LENGTH (None :: 'd File option),
    freeFDs = Stack_new FD_ARRAY_LENGTH 0, isFDfree = b\<rparr>"
  have b: "BitSet_inv FD_ARRAY_LENGTH b" "\<And>i. \<not> BitSet_test FD_ARRAY_LENGTH i b"
    by (simp_all add: b_def FD_FIXED_PART_def upt_rec BitSet_test_clear)
  have "flist.agree FD_ARRAY_LENGTH (freeFDs a) (isFDfree a)"
    using b by (simp add: flist.agree_def a_def FD_ARRAY_LENGTH_def)
  then have ok: "fd_ok a" and cnt: "fd_count a = 0" and fr: "fd_isfree a = (\<lambda>i. False)"
    using b by (simp_all add: fd_ok_def fd_count_def fd_isfree_def fun_eq_iff) (simp_all add: a_def)
  have new: "(FileDescArr_new :: 'd FileDescArr) = fold fd_fill [FD_FIXED_PART..<FD_FIXED_PART + 126] a"
    by (simp add: FileDescArr_new_def Let_def a_def b_def fd_fill_def [abs_def] FD_FIXED_PART_def FD_ARRAY_LENGTH_def)
  have nth: "content a ! i = None" if "i < FD_ARRAY_LENGTH" for i
    using that by (simp add: a_def)
  have "FD_FIXED_PART + 126 = FD_ARRAY_LENGTH"
    by (simp add: FD_FIXED_PART_def FD_ARRAY_LENGTH_def)
  with fd_fill_ok [OF ok _ _ order_refl nth, of 126]
  show "fd_ok (FileDescArr_new :: 'd FileDescArr)"
    and "fd_isfree (FileDescArr_new :: 'd FileDescArr) = (\<lambda>i. FD_FIXED_PART \<le> i \<and> i < FD_ARRAY_LENGTH)"
    and "fd_count (FileDescArr_new :: 'd FileDescArr) = 126"
    and "content (FileDescArr_new :: 'd FileDescArr) = replicate FD_ARRAY_LENGTH None"
    unfolding new by (simp_all add: fr cnt) (simp add: a_def)
qed

end
