(* ===== verification/KSyscalls.thy ===== *)
theory KSyscalls
  imports KFiles KPaging
begin

text \<open>
  The system calls on files (syscalls/filesystem_wrapper.cpp), the check of user pointers
  (syscalls/syscalls.cpp), \<open>getargs\<close> (syscalls/getargs.cpp), and what \<open>do_exec\<close> does with a
  command line: splitting it (syscalls/exec.cpp), checking that the file can be executed
  (syscalls/exec_check.cpp) and loading it (syscalls/exec_loader.cpp).

  \<open>proc\<close> is the descriptor of the current process, and \<open>cr3val\<close> the address in
  \<open>global_cr3val\<close>. The result of a call is \<open>None\<close> when it does not return.
\<close>

subsection \<open>State\<close>

record 'd ProcessDesc =
  fileDescs :: "'d FileDescArr"
  fdInitialized :: bool
  arg :: nat
  isKernel :: bool

record ('g, 'd, 'k) sys =
  kern :: "('g, 'k) kern"
  proc :: "'d ProcessDesc"
  cr3val :: nat

definition get_fd :: "nat \<Rightarrow> ('g, 'd, 'k) sys \<Rightarrow> 'd File" where
  "get_fd fd s = the (content (fileDescs (proc s)) ! fd)"

definition set_fd :: "nat \<Rightarrow> 'd File option \<Rightarrow> ('g, 'd, 'k) sys \<Rightarrow> ('g, 'd, 'k) sys" where
  "set_fd fd f s = s\<lparr>proc := (proc s)\<lparr>fileDescs := FileDescArr_put fd f (fileDescs (proc s))\<rparr>\<rparr>"

subsection \<open>User pointers\<close>

definition validUserPointer :: "nat \<Rightarrow> ('g, 'd, 'k) sys \<Rightarrow> bool" where
  "validUserPointer ptr s =
     (if ptr = 0 then False
      else if isKernel (proc s) then True
      else let m = kmem (kern s);
               pde = (of_nat (read32 m (cr3val s + 4 * (ptr div 4194304))) :: u32)
           in if HAS_FLAG (PG_4MB_BASE OR PG_USER) pde then True
              else if HAS_FLAG (PT_BASE OR PT_USER) pde then
                let pte = (of_nat (read32 m (unat (pde AND ALIGN_4KB_ADDR)
                             + 4 * (unat (of_nat ptr AND EXTRACT_PTE) div 4096))) :: u32)
                in HAS_FLAG (PG_4KB_BASE OR PG_USER) pte
              else False)"

subsection \<open>Standard input and output\<close>

definition dispatch_open ::
  "('g, 'd, 'k) devops \<Rightarrow> nat \<Rightarrow> ('g, 'd, 'k) sys \<Rightarrow> ('d File option \<times> ('g, 'd, 'k) sys) kresult option" where
  "dispatch_open ops path s =
     obind (Dispatcher_open ops path (kern s)) (\<lambda>(f, k). Some (Inr (f, s\<lparr>kern := k\<rparr>)))"

definition ensureFdInitialized ::
  "('g, 'd, 'k) devops \<Rightarrow> ('g, 'd, 'k) sys \<Rightarrow> (bool \<times> ('g, 'd, 'k) sys) kresult option" where
  "ensureFdInitialized ops s =
     (if fdInitialized (proc s) then Some (Inr (True, s))
      else obind (dispatch_open ops (lit_dev_keyb (kern s)) s) (\<lambda>(f0, s1).
        if f0 = None then Some (Inr (False, s1))
        else let s2 = set_fd 0 f0 s1
        in obind (dispatch_open ops (lit_dev_term (kern s2)) s2) (\<lambda>(f1, s3).
             if f1 = None then Some (Inr (False, s3))
             else let s4 = set_fd 1 f1 s3
             in Some (Inr (True, s4\<lparr>proc := (proc s4)\<lparr>fdInitialized := True\<rparr>\<rparr>)))))"

subsection \<open>The calls\<close>

type_synonym ('g, 'd, 'k) outcome = "(int \<times> ('g, 'd, 'k) sys) kresult option"

text \<open>The two tests that every call on a descriptor starts with.\<close>

definition with_fd ::
  "('g, 'd, 'k) devops \<Rightarrow> int \<Rightarrow> ('g, 'd, 'k) sys \<Rightarrow> ('d File \<Rightarrow> ('g, 'd, 'k) sys \<Rightarrow> ('g, 'd, 'k) outcome) \<Rightarrow>
   ('g, 'd, 'k) outcome" where
  "with_fd ops fd s body =
     obind (ensureFdInitialized ops s) (\<lambda>(ok, s1).
       if \<not> ok then Some (Inr (-1, s1))
       else if \<not> FileDescArr_isValid (to_size fd) (fileDescs (proc s1)) then Some (Inr (-1, s1))
       else body (get_fd (to_size fd) s1) s1)"

definition sys_read :: "('g, 'd, 'k) devops \<Rightarrow> int \<Rightarrow> nat \<Rightarrow> int \<Rightarrow> ('g, 'd, 'k) sys \<Rightarrow> ('g, 'd, 'k) outcome" where
  "sys_read ops fd buf nbytes s =
     (if \<not> validUserPointer buf s then Some (Inr (-1, s))
      else with_fd ops fd s (\<lambda>f s1.
        obind (Dispatcher_read ops f buf (to_size nbytes) (kern s1)) (\<lambda>(r, f1, k1).
          Some (Inr (r, set_fd (to_size fd) (Some f1) (s1\<lparr>kern := k1\<rparr>))))))"

definition sys_write :: "('g, 'd, 'k) devops \<Rightarrow> int \<Rightarrow> nat \<Rightarrow> int \<Rightarrow> ('g, 'd, 'k) sys \<Rightarrow> ('g, 'd, 'k) outcome" where
  "sys_write ops fd buf nbytes s =
     (if \<not> validUserPointer buf s then Some (Inr (-1, s))
      else with_fd ops fd s (\<lambda>f s1.
        case Dispatcher_write ops f buf (to_size nbytes) (kern s1) of (r, f1, k1) \<Rightarrow>
          Some (Inr (r, set_fd (to_size fd) (Some f1) (s1\<lparr>kern := k1\<rparr>)))))"

definition sys_open :: "('g, 'd, 'k) devops \<Rightarrow> nat \<Rightarrow> ('g, 'd, 'k) sys \<Rightarrow> ('g, 'd, 'k) outcome" where
  "sys_open ops path s =
     (if \<not> validUserPointer path s then Some (Inr (-1, s))
      else obind (ensureFdInitialized ops s) (\<lambda>(ok, s1).
        if \<not> ok then Some (Inr (-1, s1))
        else case FileDescArr_alloc (fileDescs (proc s1)) of
          (None, a) \<Rightarrow> Some (Inr (-1, s1\<lparr>proc := (proc s1)\<lparr>fileDescs := a\<rparr>\<rparr>))
        | (Some slot, a) \<Rightarrow>
            obind (dispatch_open ops path (s1\<lparr>proc := (proc s1)\<lparr>fileDescs := a\<rparr>\<rparr>)) (\<lambda>(res, s2).
              if res = None then Some (Inr (-1, s2))
              else Some (Inr (to_int32 slot, set_fd slot res s2)))))"

definition sys_close :: "('g, 'd, 'k) devops \<Rightarrow> int \<Rightarrow> ('g, 'd, 'k) sys \<Rightarrow> ('g, 'd, 'k) outcome" where
  "sys_close ops fd s =
     (if fd = 0 \<or> fd = 1 then Some (Inr (-1, s))
      else with_fd ops fd s (\<lambda>f s1.
        case Dispatcher_close ops f (kern s1) of (res, k1) \<Rightarrow>
          if \<not> res then Some (Inr (-1, s1\<lparr>kern := k1\<rparr>))
          else let s2 = set_fd (to_size fd) None (s1\<lparr>kern := k1\<rparr>)
               in Some (Inr (0, s2\<lparr>proc := (proc s2)\<lparr>fileDescs := FileDescArr_recycle (to_size fd) (fileDescs (proc s2))\<rparr>\<rparr>))))"

text \<open>
  \<open>fstat\<close> does not check its pointer. The \<open>struct stat\<close> it fills has the mode at offset 4
  and the size at offset 16.
\<close>

definition put_u32 :: "nat \<Rightarrow> nat \<Rightarrow> mem \<Rightarrow> mem" where
  "put_u32 a n m = store_bytes m a (map (\<lambda>i. of_nat (n div 256 ^ i)) [0..<4])"

definition put_stat :: "nat \<Rightarrow> nat \<times> nat option \<Rightarrow> mem \<Rightarrow> mem" where
  "put_stat st x m =
     (let m1 = put_u32 (st + 4) (fst x) m
      in case snd x of None \<Rightarrow> m1 | Some n \<Rightarrow> put_u32 (st + 16) n m1)"

definition sys_fstat :: "('g, 'd, 'k) devops \<Rightarrow> int \<Rightarrow> nat \<Rightarrow> ('g, 'd, 'k) sys \<Rightarrow> ('g, 'd, 'k) outcome" where
  "sys_fstat ops fd st s =
     with_fd ops fd s (\<lambda>f s1.
       Some (kbind (Dispatcher_fstat f (kern s1)) (\<lambda>x.
         Inr (0, s1\<lparr>kern := (kern s1)\<lparr>kmem := put_stat st x (kmem (kern s1))\<rparr>\<rparr>))))"

definition sys_lseek :: "('g, 'd, 'k) devops \<Rightarrow> int \<Rightarrow> int \<Rightarrow> int \<Rightarrow> ('g, 'd, 'k) sys \<Rightarrow> ('g, 'd, 'k) outcome" where
  "sys_lseek ops fd offset whence s =
     with_fd ops fd s (\<lambda>f s1.
       Some (kbind (Dispatcher_lseek ops f offset whence (kern s1)) (\<lambda>(r, f1, k1).
         Inr (r, set_fd (to_size fd) (Some f1) (s1\<lparr>kern := k1\<rparr>)))))"

subsection \<open>The arguments of the process\<close>

definition getargs :: "nat \<Rightarrow> int \<Rightarrow> ('g, 'd, 'k) sys \<Rightarrow> ('g, 'd, 'k) outcome" where
  "getargs buf nbytes s =
     (if \<not> validUserPointer buf s then Some (Inr (-1, s))
      else let m = kmem (kern s) in
        if arg (proc s) = 0 then Some (Inr (0, s\<lparr>kern := (kern s)\<lparr>kmem := m(buf := 0)\<rparr>\<rparr>))
        else case strlen m (arg (proc s)) of
          None \<Rightarrow> None
        | Some arg_len \<Rightarrow>
            if nbytes < int arg_len + 1 then Some (Inr (-1, s))
            else Some (Inr (0, s\<lparr>kern := (kern s)\<lparr>kmem :=
              (store_bytes m buf (load_bytes m (arg (proc s)) arg_len))(buf + arg_len := 0)\<rparr>\<rparr>)))"

subsection \<open>The command line\<close>

text \<open>The name is an array on the heap, here the list of its bytes; other accesses fault.\<close>

function skip_spaces :: "u8 list \<Rightarrow> nat \<Rightarrow> nat kresult" where
  "skip_spaces file j =
     (if j < length file then if file ! j = 32 then skip_spaces file (j + 1) else Inr j else Inl Fault)"
  by pat_completeness auto
termination by (relation "measure (\<lambda>(file, j). length file - j)") auto

declare skip_spaces.simps [simp del]

fun arg_loop :: "u8 list \<Rightarrow> nat \<Rightarrow> nat list \<Rightarrow> (int \<times> u8 list) kresult" where
  "arg_loop file n [] = Inr (-1, file)"
| "arg_loop file n (i # rest) =
     kbind (rd file i) (\<lambda>c.
       if c = 32 then
         kbind (skip_spaces file i) (\<lambda>j.
           kbind (rd file j) (\<lambda>d.
             Inr (if d \<noteq> 0 then int j else -1, file[i := 0])))
       else arg_loop file n rest)"

definition get_arg_position :: "u8 list \<Rightarrow> nat \<Rightarrow> (int \<times> u8 list) kresult" where
  "get_arg_position file filename_len = arg_loop file filename_len [0..<filename_len]"

definition store_arg :: "u8 list \<Rightarrow> nat \<Rightarrow> nat \<Rightarrow> u8 list" where
  "store_arg file filename_len arg_index =
     (let arg_len = filename_len - arg_index
      in map (\<lambda>i. file ! (i + arg_index)) [0..<arg_len] @ [0])"

subsection \<open>Executables\<close>

definition K_S_ISREG :: "nat \<Rightarrow> bool" where
  "K_S_ISREG m \<longleftrightarrow> (of_nat m AND 0xf000 :: u32) = 0x8000"

text \<open>The buffer of four bytes on the stack is at the address \<open>buf\<close>.\<close>

definition is_kiss_executable ::
  "('g, 'd, 'k) devops \<Rightarrow> nat \<Rightarrow> nat \<Rightarrow> ('g, 'k) kern \<Rightarrow> (int \<times> ('g, 'k) kern) kresult option" where
  "is_kiss_executable ops file buf k =
     obind (Dispatcher_open ops file k) (\<lambda>(f, k1).
       case f of
         None \<Rightarrow> Some (Inr (0, k1))
       | Some f \<Rightarrow>
           obind (Some (Dispatcher_fstat f k1)) (\<lambda>stats.
             if \<not> K_S_ISREG (fst stats) then Some (Inr (0, snd (Dispatcher_close ops f k1)))
             else let k2 = k1\<lparr>kmem := store_bytes (kmem k1) buf [0, 0, 0, 0]\<rparr>
             in obind (Dispatcher_read ops f buf 4 k2) (\<lambda>(r, f3, k3).
               let k4 = snd (Dispatcher_close ops f3 k3) in
               if to_size r < 4 then Some (Inr (0, k4))
               else if load_bytes (kmem k4) buf 4 = [0x7f, 0x45, 0x4c, 0x46] then Some (Inr (1, k4))
               else Some (Inr (0, k4)))))"

definition code_page_vaddr_base :: nat where "code_page_vaddr_base = 0x08000000"
definition program_image_offset :: nat where "program_image_offset = 0x00048000"
definition program_image_addr :: nat where "program_image_addr = code_page_vaddr_base + program_image_offset"

text \<open>The byte \<open>test_over_flow\<close> is at the address \<open>tof\<close>. The result 0 is the null pointer.\<close>

definition kiss_loader ::
  "('g, 'd, 'k) devops \<Rightarrow> nat \<Rightarrow> nat \<Rightarrow> ('g, 'k) kern \<Rightarrow> (nat \<times> ('g, 'k) kern) kresult option" where
  "kiss_loader ops file tof k =
     obind (Dispatcher_open ops file k) (\<lambda>(f, k1).
       case f of
         None \<Rightarrow> Some (Inr (0, k1))
       | Some f \<Rightarrow>
           obind (Dispatcher_read ops f program_image_addr 0x400000 k1) (\<lambda>(r, f2, k2).
             let first_len = to_size r in
             obind (if first_len = 0x400000
                    then obind (Dispatcher_read ops f2 tof 1 k2) (\<lambda>(r3, f3, k3). Some (Inr (r3 > 0, f3, k3)))
                    else Some (Inr (first_len > 0x400000, f2, k2)))
               (\<lambda>(fail, f3, k3).
                 let k4 = snd (Dispatcher_close ops f3 k3)
                 in Some (Inr (if fail then 0 else read32 (kmem k4) (program_image_addr + 24), k4)))))"

text \<open>
  The start of \<open>do_exec\<close>: the name is copied to the array at \<open>file\<close>, split, and checked.
  The result is the error code, or the argument for the new process.
\<close>

definition do_exec_front ::
  "('g, 'd, 'k) devops \<Rightarrow> nat \<Rightarrow> nat \<Rightarrow> nat \<Rightarrow> ('g, 'k) kern \<Rightarrow> ((int + u8 list option) \<times> ('g, 'k) kern) kresult option" where
  "do_exec_front ops arg0 file buf k =
     (case strlen (kmem k) arg0 of
        None \<Rightarrow> None
      | Some n \<Rightarrow>
          obind (Some (get_arg_position (load_bytes (kmem k) arg0 n @ [0]) n)) (\<lambda>(arg_index, name).
            obind (is_kiss_executable ops file buf (k\<lparr>kmem := store_bytes (kmem k) file name\<rparr>)) (\<lambda>(ok, k1).
              if ok = 0 then Some (Inr (Inl (-1), k1))
              else Some (Inr (Inr (if arg_index \<noteq> -1 then Some (store_arg name n (nat arg_index)) else None), k1)))))"

end
