(* ===== verification/KBoot.thy ===== *)
theory KBoot
  imports KSyscalls
begin

text \<open>
  The file system, the prefix tree and the dispatcher together: what a path leads to once the
  file systems are mounted and the image is loaded.
\<close>

subsection \<open>A table found again in a later memory\<close>

lemma probe_mono:
  assumes "probe eq table k h = Some r"
  shows "(\<forall>j < length table. isSet (table ! j) \<longrightarrow> eq' (key (table ! j)) k = eq (key (table ! j)) k) \<longrightarrow>
    h < length table \<longrightarrow> probe eq' table k h = Some r"
proof (rule probe.raw_induct [OF _ assms])
  fix f :: "('a \<Rightarrow> 'a \<Rightarrow> bool) \<Rightarrow> ('a, 'b) HashEntry list \<Rightarrow> 'a \<Rightarrow> nat \<Rightarrow> nat option"
    and eq :: "'a \<Rightarrow> 'a \<Rightarrow> bool" and table :: "('a, 'b) HashEntry list" and k :: 'a and h r :: nat
  assume IH: "\<And>eq table k h r. f eq table k h = Some r \<Longrightarrow>
      (\<forall>j < length table. isSet (table ! j) \<longrightarrow> eq' (key (table ! j)) k = eq (key (table ! j)) k) \<longrightarrow>
      h < length table \<longrightarrow> probe eq' table k h = Some r"
    and eq: "(if isSet (table ! h) \<and> \<not> eq (key (table ! h)) k
        then f eq table k ((h + 1) mod length table) else Some h) = Some r"
  show "(\<forall>j < length table. isSet (table ! j) \<longrightarrow> eq' (key (table ! j)) k = eq (key (table ! j)) k) \<longrightarrow>
      h < length table \<longrightarrow> probe eq' table k h = Some r"
  proof (intro impI)
    assume same: "\<forall>j < length table. isSet (table ! j) \<longrightarrow> eq' (key (table ! j)) k = eq (key (table ! j)) k"
      and h: "h < length table"
    then have "(h + 1) mod length table < length table"
      by (intro mod_less_divisor) (rule order_le_less_trans [OF le0])
    then show "probe eq' table k h = Some r"
      using eq IH [of eq table k "(h + 1) mod length table" r] same h
      by (subst probe.simps) (auto split: if_splits)
  qed
qed

lemma probe_cong:
  assumes "\<And>j. j < length table \<Longrightarrow> isSet (table ! j) \<Longrightarrow> eq' (key (table ! j)) k = eq (key (table ! j)) k"
    and "h < length table"
  shows "probe eq' table k h = probe eq table k h"
  using probe_mono [of eq table k h _ eq'] probe_mono [of eq' table k h _ eq] assms
  by (cases "probe eq table k h"; cases "probe eq' table k h") auto

definition table_keys :: "('k, 'v) HashEntry list \<Rightarrow> 'k set" where
  "table_keys table = {key (table ! j) | j. j < length table \<and> isSet (table ! j)}"

lemma fill_cong:
  assumes "\<And>a b. a \<in> K \<Longrightarrow> b \<in> K \<Longrightarrow> eq' a b = eq a b" and "\<And>a. a \<in> K \<Longrightarrow> hash' a = hash a"
    and "table_keys table \<subseteq> K" and "fst ` set kvs \<subseteq> K" and "table \<noteq> []"
  shows "fill eq' hash' kvs table = fill eq hash kvs table"
  using assms(3-5)
proof (induction kvs arbitrary: table)
  case (Cons kv kvs)
  obtain k v where kv: "kv = (k, v)" by (cases kv)
  have k: "k \<in> K" using Cons.prems kv by simp
  have lt: "unat (hash k) mod length table < length table"
    using Cons.prems by simp
  have "probe eq' table k (unat (hash k) mod length table) = probe eq table k (unat (hash k) mod length table)"
    using lt k Cons.prems(1) by (intro probe_cong assms(1)) (auto simp: table_keys_def)
  then have put: "LinearProbingHashTable_put eq' hash' k v table = LinearProbingHashTable_put eq hash k v table"
    using assms(2) [OF k] by (simp add: LinearProbingHashTable_put_def)
  have "fill eq' hash' kvs t = fill eq hash kvs t" if p: "LinearProbingHashTable_put eq hash k v table = Some t" for t
  proof (rule Cons.IH)
    obtain h e where t: "t = table[h := HashEntry_set k v e]"
      using p by (cases "probe eq table k (unat (hash k) mod length table)")
        (auto simp: LinearProbingHashTable_put_def)
    have "key (t ! j) \<in> K" if "j < length t" "isSet (t ! j)" for j
      using that Cons.prems(1) k unfolding t by (cases "j = h") (auto simp: table_keys_def)
    then show "table_keys t \<subseteq> K"
      by (auto simp: table_keys_def)
    show "t \<noteq> []" "fst ` set kvs \<subseteq> K"
      using Cons.prems t by auto
  qed
  with put kv show ?case
    by (cases "LinearProbingHashTable_put eq hash k v table") auto
qed simp


text \<open>
  Once the image is loaded, \<open>open\<close> gives the same answer in every later memory that has
  not changed the names of the entries: the name it is asked for may lie anywhere.
\<close>

definition image_entry :: "mem \<Rightarrow> nat \<Rightarrow> u8 list \<Rightarrow> nat option" where
  "image_entry m start name = find (\<lambda>i. image_name m start i = name) (rev [0..<image_count m start])"

definition entry_data :: "mem \<Rightarrow> nat \<Rightarrow> nat \<Rightarrow> KissFD" where
  "entry_data m start i = (if image_type m start i = DIRECTORY then DirData 0 (image_count m start)
     else FileData (image_type m start i mod 256) (image_inode m start i))"

lemma image_entry_less: "image_entry m start name = Some i \<Longrightarrow> i < image_count m start"
  by (auto simp: image_entry_def find_Some_iff rev_nth)

lemma open_later:
  assumes "image_apart start dbase" and "load_image m start len dbase = Some (Inr (fs, m1))"
    and same: "\<And>a. dbase \<le> a \<Longrightarrow> a < dbase + 64 * sizeof_dentry \<Longrightarrow> m3 a = m1 a"
  shows "KissFS_open m3 fs fn = Some (map_option (entry_data m start) (image_entry m start (name_at m3 fn 32)))"
proof (rule load_image_spec [OF assms(1), of m len])
  let ?n = "image_count m start"
  fix ds m2 table2
  assume len: "length ds = ?n"
    and ds: "\<And>i. i < ?n \<Longrightarrow> ds ! i = \<lparr>filename = dbase + 44 * i, filetype = image_type m start i, inode = image_inode m start i\<rparr>"
    and nm: "\<And>i. i < ?n \<Longrightarrow> name_at m2 (dbase + 44 * i) 32 = image_name m start i"
    and ld: "load_image m start len dbase = Some
      (if \<exists>i < image_inodes m start. ceil_div (image_size m start i) BlockSize > 1023 then Inl Fault
       else Inr (\<lparr>dentryIndexOfFilename = table2, dentries = ds,
         inodes = map (\<lambda>i. \<lparr>fsize = image_size m start i,
           datablocks = map (image_block m start i) [0..<ceil_div (image_size m start i) BlockSize],
           numDataBlocks = ceil_div (image_size m start i) BlockSize\<rparr>) [0..<image_inodes m start],
         numDentries = image_count m start, numInodes = image_inodes m start,
         numTotalDataBlocks = read32 m (start + 8), imageStartingAddress = start,
         numBlocks = len div BlockSize\<rparr>, m2))"
  have fs: "m1 = m2" "dentries fs = ds" "numDentries fs = ?n"
    using ld assms(2) by (auto split: if_splits)
  have n64: "?n \<le> 64" by (simp add: image_count_def)
  let ?kvs = "map (\<lambda>i. (dbase + 44 * i, i)) [0..<?n]"
  have kvs: "zip (map filename ds) [0..<?n] = ?kvs"
    using len ds by (intro nth_equalityI) auto
  obtain ds' r5 where ld': "load_dentries dbase [0..<?n] (m, \<lparr>startingAddr = start, rread = 64\<rparr>) = (ds', m1, r5)"
    and ds': "ds' = dentries fs"
    and fill: "fill (Filename_eq m1) (HashFunc_hash m1) (zip (map filename ds') [0..<?n]) (LinearProbingHashTable_new 133 0 0)
      = Some (dentryIndexOfFilename fs)"
    using assms(2) unfolding load_image_unfold by (auto split: prod.splits sum.splits)
  have at: "name_at m3 (dbase + 44 * i) 32 = name_at m1 (dbase + 44 * i) 32" if "i < ?n" for i
    using that n64 by (intro name_at_load_bytes load_bytes_cong same) (auto simp: sizeof_dentry_def)
  have "fill (Filename_eq m3) (HashFunc_hash m3) ?kvs (LinearProbingHashTable_new 133 0 0) =
    fill (Filename_eq m1) (HashFunc_hash m1) ?kvs (LinearProbingHashTable_new 133 0 0)"
  proof (rule fill_cong [where K = "fst ` set ?kvs"])
    show "table_keys (LinearProbingHashTable_new 133 0 0 :: (nat, nat) HashEntry list) \<subseteq> fst ` set ?kvs"
      by (auto simp: table_keys_def LinearProbingHashTable_new_def HashEntry_new_def)
  qed (auto simp: at Filename_eq_name HashFunc_hash_name MaxFilenameLength_def LinearProbingHashTable_new_def)
  then have fill3: "fill (Filename_eq m3) (HashFunc_hash m3) ?kvs (LinearProbingHashTable_new 133 0 0) = Some (dentryIndexOfFilename fs)"
    using fill ds' kvs fs(2) by simp
  have "length ?kvs < 133" using n64 by simp
  from fname.fill_new [OF this, of m3 0 0]
  obtain t where t: "fill (Filename_eq m3) (HashFunc_hash m3) ?kvs (LinearProbingHashTable_new 133 0 0) = Some t"
    "\<And>k. LinearProbingHashTable_get (Filename_eq m3) (HashFunc_hash m3) t k = Some (last_match (Filename_eq m3) ?kvs k)"
    by blast
  have "\<forall>i \<in> set xs. i < ?n \<Longrightarrow> map_option snd (find (\<lambda>(a, v). Filename_eq m3 a fn) (map (\<lambda>i. (dbase + 44 * i, i)) xs)) =
      find (\<lambda>i. image_name m start i = name_at m3 fn 32) xs" for xs
    by (induction xs) (auto simp: Filename_eq_name MaxFilenameLength_def at nm fs(1))
  then have "last_match (Filename_eq m3) ?kvs fn = image_entry m start (name_at m3 fn 32)"
    unfolding last_match_find rev_map image_entry_def by simp
  then have "LinearProbingHashTable_get (Filename_eq m3) (HashFunc_hash m3) (dentryIndexOfFilename fs) fn =
      Some (image_entry m start (name_at m3 fn 32))"
    using t fill3 by simp
  then show ?thesis
    using ds by (auto simp: KissFS_open_def fs entry_data_def dest: image_entry_less split: option.splits)
qed

subsection \<open>The mount table\<close>

definition dev_prefix :: "u8 list" where "dev_prefix = [47, 100, 101, 118, 47]"

definition mounted :: "('g, 'k) kern \<Rightarrow> bool" where
  "mounted k \<longleftrightarrow> tree_inv (lookup k) \<and> entry (lookup k) = [[47] \<mapsto> Some KissFs, dev_prefix \<mapsto> Some DevFs]"

lemma bytes_slash: "bytes ''/'' = [47]" and bytes_dev: "bytes ''/dev/'' = dev_prefix"
  by (simp_all add: bytes_def dev_prefix_def)

lemma mountAll_mounted:
  assumes "PrefixTree_new None = Inr (lookup k)"
  obtains t where "Dispatcher_mountAll k = Inr (k\<lparr>lookup := t\<rparr>)" and "mounted (k\<lparr>lookup := t\<rparr>)"
proof -
  have t0: "tree_inv (lookup k)" "entry (lookup k) = Map.empty" "length (pool_free (pool (lookup k))) = 99"
  proof -
    obtain t :: "fs_id option PrefixTree" where t: "PrefixTree_new None = Inr t" "tree_inv t" "entry t = Map.empty"
      "length (pool_free (pool t)) = 99" using new_ok [of None] by blast
    with assms have "t = lookup k" by simp
    with t show "tree_inv (lookup k)" "entry (lookup k) = Map.empty" "length (pool_free (pool (lookup k))) = 99" by simp_all
  qed
  have "\<exists>t. insert_all None [([47], Some KissFs), (dev_prefix, Some DevFs)] (lookup k) = Inr t \<and> tree_inv t \<and>
    entry t = entry (lookup k) ++ map_of (rev [([47], Some KissFs), (dev_prefix, Some DevFs)])"
    by (rule insert_all_ok) (use t0 in \<open>simp_all add: dev_prefix_def\<close>)
  then obtain t where t: "insert_all None [([47], Some KissFs), (dev_prefix, Some DevFs)] (lookup k) = Inr t" "tree_inv t"
    "entry t = [[47] \<mapsto> Some KissFs, dev_prefix \<mapsto> Some DevFs]"
    using t0(2) by auto
  from t(1) obtain t1 where "PrefixTree_insert None [47] (Some KissFs) (lookup k) = Inr t1"
    "PrefixTree_insert None dev_prefix (Some DevFs) t1 = Inr t"
    by (auto simp: kbind_eq_Inr)
  then have "Dispatcher_mountAll k = Inr (k\<lparr>lookup := t\<rparr>)"
    by (simp add: Dispatcher_mountAll_def Dispatcher_mount_def bytes_slash bytes_dev)
  with t that [of t] show ?thesis by (simp add: mounted_def)
qed

definition route :: "u8 list \<Rightarrow> fs_id \<times> nat" where
  "route p = (if take 5 p = dev_prefix then (DevFs, 5) else (KissFs, 1))"

lemma set_matches: "n \<in> set (matches f k) \<longleftrightarrow> 1 \<le> n \<and> n \<le> length k \<and> f (take n k) \<noteq> None"
  by (auto simp: matches_def)

lemma sorted_matches: "sorted (matches f k)" "distinct (matches f k)"
  unfolding matches_def by (rule sorted_wrt_filter, rule sorted_upt) (rule distinct_filter, rule distinct_upt)

lemma mounted_search:
  assumes "mounted k" and "\<forall>c \<in> set p. c < 128"
  shows "PrefixTree_search None (47 # p) (lookup k) =
    Inr \<lparr>val = Some (fst (route (47 # p))), vlen = snd (route (47 # p))\<rparr>"
proof -
  let ?f = "[[47] \<mapsto> Some KissFs, dev_prefix \<mapsto> Some DevFs]" and ?k = "47 # p"
  have "PrefixTree_search None ?k (lookup k) = Inr (longest_match ?f None ?k)"
    using search_ok [of "lookup k" ?k None] assms by (simp add: mounted_def)
  have one: "?f (take n ?k) \<noteq> None \<longleftrightarrow> n = 1 \<or> (n = 5 \<and> take 5 ?k = dev_prefix)" if "1 \<le> n" "n \<le> length ?k" for n
  proof -
    have len: "length (take n ?k) = n" using that by simp
    have a: "take n ?k = [47] \<longleftrightarrow> n = 1"
      using that by (cases n) auto
    have b: "n = 5" if "take n ?k = dev_prefix"
      using len unfolding that by (simp add: dev_prefix_def)
    have c: "?f x \<noteq> None \<longleftrightarrow> x = [47] \<or> x = dev_prefix" for x
      by simp
    show ?thesis
      unfolding c a using b by blast
  qed
  have "set (matches ?f ?k) = (if take 5 ?k = dev_prefix then {1, 5} else {1})"
  proof -
    have "5 \<le> length ?k" if "take 5 ?k = dev_prefix"
      using arg_cong [OF that, of length] by (simp add: dev_prefix_def)
    then show ?thesis
      unfolding set_eq_iff set_matches using one by (metis (no_types, lifting) empty_iff insert_iff
          le_add1 length_Cons one_le_numeral order_refl plus_1_eq_Suc)
  qed
  moreover have "sorted (matches ?f ?k)" "distinct (matches ?f ?k)"
    by (rule sorted_matches)+
  ultimately have "matches ?f ?k = (if take 5 ?k = dev_prefix then [1, 5] else [1])"
    by (intro sorted_distinct_set_unique) auto
  then have "longest_match ?f None ?k = \<lparr>val = Some (fst (route ?k)), vlen = snd (route ?k)\<rparr>"
    by (auto simp: longest_match_def route_def dev_prefix_def)
  then show ?thesis
    using \<open>PrefixTree_search None ?k (lookup k) = _\<close> by simp
qed

subsection \<open>Paths\<close>

text \<open>The path that is searched for a name, and the place of the literals and of the buffer.\<close>

definition resolve :: "u8 list \<Rightarrow> u8 list" where
  "resolve xs = (let p = (if xs = bytes ''rtc'' then bytes ''/dev/rtc'' else xs)
     in if p \<noteq> [] \<and> hd p = 47 then p else 47 # p)"

definition literals_ok :: "('g, 'k) kern \<Rightarrow> bool" where
  "literals_ok k \<longleftrightarrow> cstring (kmem k) (lit_rtc k) (bytes ''rtc'') \<and> cstring (kmem k) (lit_dev_rtc k) (bytes ''/dev/rtc'') \<and>
     (lit_dev_rtc k + 69 \<le> goodName k \<or> goodName k + 70 \<le> lit_dev_rtc k)"

definition path_ok :: "('g, 'k) kern \<Rightarrow> nat \<Rightarrow> u8 list \<Rightarrow> bool" where
  "path_ok k path xs \<longleftrightarrow> cstring (kmem k) path xs \<and> (path + 69 \<le> goodName k \<or> goodName k + 70 \<le> path) \<and> length xs < 69 \<and>
     (\<forall>c \<in> set xs. c < 128)"

lemma take_rtc: "take 4 xs = bytes ''rtc'' \<longleftrightarrow> xs = bytes ''rtc''"
proof
  assume *: "take 4 xs = bytes ''rtc''"
  then have "length (take 4 xs) = 3" by (simp add: bytes_def)
  then have "length xs = 3" by simp
  with * show "xs = bytes ''rtc''" by simp
qed (simp add: bytes_def)

lemma cstring_same: "cstring m a xs \<Longrightarrow> (\<And>i. i \<le> length xs \<Longrightarrow> m' (a + i) = m (a + i)) \<Longrightarrow> cstring m' a xs"
  by (simp add: cstring_def)

lemma cstring_hd: "cstring m a xs \<Longrightarrow> m a = 47 \<longleftrightarrow> xs \<noteq> [] \<and> hd xs = 47"
  by (cases xs) (auto simp: cstring_def)

lemma path_buffer:
  assumes "cstring m fn xs" and "length xs < 69" and "fn + 69 \<le> g \<or> g + 70 \<le> fn"
  shows "cstring (strncpy (store_bytes m g (47 # replicate 69 0)) (g + 1) fn 69) g (47 # xs)"
    and "a < g \<or> g + 70 \<le> a \<Longrightarrow> strncpy (store_bytes m g (47 # replicate 69 0)) (g + 1) fn 69 a = m a"
proof -
  let ?m = "store_bytes m g (47 # replicate 69 0)"
  have out: "?m a = m a" if "a < g \<or> g + 70 \<le> a" for a
    using that by (auto simp: store_bytes_def)
  have fn: "cstring ?m fn xs"
    using assms(1) by (rule cstring_same) (use assms(2,3) in \<open>auto intro: out\<close>)
  have nm: "name_at ?m fn 69 = xs"
    using name_at_cstring [OF fn, of 69] assms(2) by simp
  have cp: "strncpy ?m (g + 1) fn 69 = store_bytes ?m (g + 1) (xs @ replicate (69 - length xs) 0)"
    using strncpy_eq [of "g + 1" 69 fn ?m] assms(3) nm by auto
  have at: "store_bytes ?m (g + 1) (xs @ replicate (69 - length xs) 0) (g + i) =
      (if i = 0 then 47 else (xs @ replicate (69 - length xs) 0) ! (i - 1))" if "i < 70" for i
    using that assms(2) by (cases i) (auto simp: store_bytes_def)
  show "cstring (strncpy ?m (g + 1) fn 69) g (47 # xs)"
    unfolding cp cstring_def
  proof (intro conjI allI impI)
    fix i assume "i < length (47 # xs)"
    then show "store_bytes ?m (g + 1) (xs @ replicate (69 - length xs) 0) (g + i) = (47 # xs) ! i"
      using assms(2) by (subst at) (auto simp: nth_append nth_Cons')
  next
    show "0 \<notin> set (47 # xs)" using fn by (simp add: cstring_def)
    show "store_bytes ?m (g + 1) (xs @ replicate (69 - length xs) 0) (g + length (47 # xs)) = 0"
      using assms(2) by (subst at) (auto simp: nth_append)
  qed
  show "strncpy ?m (g + 1) fn 69 a = m a" if "a < g \<or> g + 70 \<le> a"
    unfolding cp using that out [OF that] assms(2) by (auto simp: store_bytes_out)
qed

lemma Dispatcher_path_ok:
  assumes "path_ok k path xs" and "literals_ok k"
  obtains fn k1 where "Dispatcher_path path k = (fn, k1)" and "cstring (kmem k1) fn (resolve xs)"
    and "k1 = k\<lparr>kmem := kmem k1\<rparr>" and "\<And>a. a < goodName k \<or> goodName k + 70 \<le> a \<Longrightarrow> kmem k1 a = kmem k a"
proof -
  let ?m = "kmem k" and ?g = "goodName k"
  define fn where "fn = (if xs = bytes ''rtc'' then lit_dev_rtc k else path)"
  define p where "p = (if xs = bytes ''rtc'' then bytes ''/dev/rtc'' else xs)"
  have c: "strncmp ?m path (lit_rtc k) 4 = 0 \<longleftrightarrow> xs = bytes ''rtc''"
    using assms name_at_cstring [of ?m path xs 4] name_at_cstring [of ?m "lit_rtc k" "bytes ''rtc''" 4]
    by (simp add: strncmp_eq_0 path_ok_def literals_ok_def) (metis take_rtc)
  have fn: "cstring ?m fn p" "fn + 69 \<le> ?g \<or> ?g + 70 \<le> fn" "length p < 69"
    using assms by (auto simp: fn_def p_def path_ok_def literals_ok_def bytes_def)
  let ?m1 = "store_bytes ?m ?g (47 # replicate 69 0)"
  have out: "?m1 a = ?m a" if "a < ?g \<or> ?g + 70 \<le> a" for a
    using that by (auto simp: store_bytes_def)
  have c1: "cstring ?m1 fn p"
    using fn(1) by (rule cstring_same) (use fn(2,3) in \<open>auto intro: out\<close>)
  have D: "Dispatcher_path path k = (if ?m1 fn \<noteq> 47
      then (?g, k\<lparr>kmem := strncpy ?m1 (?g + 1) fn 69\<rparr>) else (fn, k\<lparr>kmem := ?m1\<rparr>))"
    by (simp add: Dispatcher_path_def Let_def c fn_def)
  have r: "resolve xs = (if p \<noteq> [] \<and> hd p = 47 then p else 47 # p)"
    by (simp add: resolve_def p_def Let_def)
  show ?thesis
  proof (cases "p \<noteq> [] \<and> hd p = 47")
    case True
    show ?thesis
      by (rule that [of fn "k\<lparr>kmem := ?m1\<rparr>"]) (use D r True c1 cstring_hd [OF c1] out in auto)
  next
    case False
    show ?thesis
    proof (rule that [of ?g "k\<lparr>kmem := strncpy ?m1 (?g + 1) fn 69\<rparr>"])
      show "Dispatcher_path path k = (?g, k\<lparr>kmem := strncpy ?m1 (?g + 1) fn 69\<rparr>)"
        using D False cstring_hd [OF c1] by simp
      show "cstring (kmem (k\<lparr>kmem := strncpy ?m1 (?g + 1) fn 69\<rparr>)) ?g (resolve xs)"
        using path_buffer(1) [OF fn(1,3,2)] r False by simp
      show "kmem (k\<lparr>kmem := strncpy ?m1 (?g + 1) fn 69\<rparr>) a = kmem k a" if "a < ?g \<or> ?g + 70 \<le> a" for a
        using path_buffer(2) [OF fn(1,3,2)] that by simp
    qed simp
  qed
qed

lemma resolve_slash: "\<exists>p. resolve xs = 47 # p \<and> (\<forall>c \<in> set p. c \<in> set xs \<or> c < 128)"
proof (cases "xs = bytes ''rtc''")
  case True
  then show ?thesis by (auto simp: resolve_def bytes_def)
next
  case False
  then show ?thesis by (cases xs) (auto simp: resolve_def Let_def)
qed

text \<open>Which file system a path belongs to, and the name it gets there.\<close>

lemma Dispatcher_open_mounted:
  assumes "mounted k" and "path_ok k path xs" and "literals_ok k"
  obtains fn k1 where "cstring (kmem k1) (fn + snd (route (resolve xs))) (drop (snd (route (resolve xs))) (resolve xs))"
    and "k1 = k\<lparr>kmem := kmem k1\<rparr>" and "\<And>a. a < goodName k \<or> goodName k + 70 \<le> a \<Longrightarrow> kmem k1 a = kmem k a"
    and "Dispatcher_open ops path k =
      map_option (\<lambda>(r, k2). Inr (map_option (\<lambda>d. \<lparr>f_offset = 0, f_fs = fst (route (resolve xs)), f_data = d\<rparr>) r, k2))
        (fs_open ops (fst (route (resolve xs))) (fn + snd (route (resolve xs))) k1)"
proof (rule Dispatcher_path_ok [OF assms(2,3)])
  fix fn k1
  assume d: "Dispatcher_path path k = (fn, k1)" and c: "cstring (kmem k1) fn (resolve xs)"
    and k1: "k1 = k\<lparr>kmem := kmem k1\<rparr>" and out: "\<And>a. a < goodName k \<or> goodName k + 70 \<le> a \<Longrightarrow> kmem k1 a = kmem k a"
  let ?r = "route (resolve xs)"
  have "lookup k1 = lookup k"
    by (subst k1) simp
  then have "mounted k1"
    using assms(1) by (simp add: mounted_def)
  moreover obtain p where p: "resolve xs = 47 # p" "\<forall>c \<in> set p. c < 128"
    using resolve_slash [of xs] assms(2) by (auto simp: path_ok_def)
  ultimately have s: "PrefixTree_search None (resolve xs) (lookup k1) = Inr \<lparr>val = Some (fst ?r), vlen = snd ?r\<rparr>"
    using mounted_search [of k1 p] by simp
  have le: "snd ?r \<le> length (resolve xs)"
  proof (cases "take 5 (resolve xs) = dev_prefix")
    case True
    then have "length (take 5 (resolve xs)) = 5" by (simp add: dev_prefix_def)
    then have "5 \<le> length (resolve xs)" by simp
    with True show ?thesis by (simp add: route_def)
  next
    case False
    then show ?thesis using p by (simp add: route_def)
  qed
  have "cstring (kmem k1) (fn + snd ?r) (drop (snd ?r) (resolve xs))"
    using c le by (auto simp: cstring_def add.assoc dest: in_set_dropD)
  moreover have "Dispatcher_open ops path k =
      map_option (\<lambda>(r, k2). Inr (map_option (\<lambda>d. \<lparr>f_offset = 0, f_fs = fst ?r, f_data = d\<rparr>) r, k2))
        (fs_open ops (fst ?r) (fn + snd ?r) k1)"
    by (simp add: Dispatcher_open_def d strlen_cstring [OF c] cstring_load [OF c] s)
  ultimately show ?thesis
    using that k1 out by blast
qed

subsection \<open>A kernel that has booted\<close>

text \<open>The addresses that must not change: the names of the entries, the image, the literals.\<close>

definition boot_area :: "nat \<Rightarrow> nat \<Rightarrow> nat \<Rightarrow> ('g, 'k) kern \<Rightarrow> nat \<Rightarrow> bool" where
  "boot_area start len dbase k a \<longleftrightarrow> (dbase \<le> a \<and> a < dbase + 64 * sizeof_dentry) \<or> (start \<le> a \<and> a < start + len) \<or>
     (lit_rtc k \<le> a \<and> a \<le> lit_rtc k + 3) \<or> (lit_dev_rtc k \<le> a \<and> a \<le> lit_dev_rtc k + 8)"

definition booted :: "mem \<Rightarrow> nat \<Rightarrow> nat \<Rightarrow> nat \<Rightarrow> ('g, 'k) kern \<Rightarrow> bool" where
  "booted m start len dbase k \<longleftrightarrow> image_apart start dbase \<and> mounted k \<and> literals_ok k \<and>
     (\<exists>m1. load_image m start len dbase = Some (Inr (kissFS k, m1)) \<and>
       (\<forall>a. dbase \<le> a \<and> a < dbase + 64 * sizeof_dentry \<longrightarrow> kmem k a = m1 a)) \<and>
     (\<forall>a. start \<le> a \<and> a < start + len \<longrightarrow> kmem k a = m a) \<and>
     (\<forall>a. goodName k \<le> a \<and> a < goodName k + 70 \<longrightarrow> \<not> boot_area start len dbase k a)"

lemma booted_mem:
  assumes "booted m start len dbase k" and "\<And>a. boot_area start len dbase k a \<Longrightarrow> m' a = kmem k a"
  shows "booted m start len dbase (k\<lparr>kmem := m'\<rparr>)"
proof -
  have "cstring m' (lit_rtc k) (bytes ''rtc'')" "cstring m' (lit_dev_rtc k) (bytes ''/dev/rtc'')"
    using assms by (auto simp: booted_def literals_ok_def bytes_def boot_area_def intro: cstring_same)
  moreover have "\<And>a. dbase \<le> a \<and> a < dbase + 64 * sizeof_dentry \<Longrightarrow> m' a = kmem k a"
    "\<And>a. start \<le> a \<and> a < start + len \<Longrightarrow> m' a = kmem k a"
    using assms(2) by (simp_all add: boot_area_def)
  ultimately show ?thesis
    using assms(1) by (simp add: booted_def literals_ok_def mounted_def boot_area_def)
qed

lemma booted_inodes:
  assumes "booted m start len dbase k"
  shows "numInodes (kissFS k) = image_inodes m start" and "length (inodes (kissFS k)) = image_inodes m start"
    and "imageStartingAddress (kissFS k) = start" and "numBlocks (kissFS k) = len div BlockSize"
    and "n < image_inodes m start \<Longrightarrow> numDataBlocks (inodes (kissFS k) ! n) \<le> 1023"
proof -
  obtain m1 where ap: "image_apart start dbase" and ld: "load_image m start len dbase = Some (Inr (kissFS k, m1))"
    using assms by (auto simp: booted_def)
  show "numInodes (kissFS k) = image_inodes m start" "length (inodes (kissFS k)) = image_inodes m start"
    "imageStartingAddress (kissFS k) = start" "numBlocks (kissFS k) = len div BlockSize"
    by (rule load_image_spec [OF ap, of m len]; use ld in \<open>auto split: if_splits\<close>)+
  show "numDataBlocks (inodes (kissFS k) ! n) \<le> 1023" if "n < image_inodes m start"
  proof (rule load_image_spec [OF ap, of m len])
    fix ds m1 table
    let ?c = "\<lambda>i. ceil_div (image_size m start i) BlockSize"
    assume "load_image m start len dbase = Some (if \<exists>i < image_inodes m start. ?c i > 1023 then Inl Fault
       else Inr (\<lparr>dentryIndexOfFilename = table, dentries = ds,
         inodes = map (\<lambda>i. \<lparr>fsize = image_size m start i, datablocks = map (image_block m start i) [0..<?c i],
           numDataBlocks = ?c i\<rparr>) [0..<image_inodes m start],
         numDentries = image_count m start, numInodes = image_inodes m start,
         numTotalDataBlocks = read32 m (start + 8), imageStartingAddress = start,
         numBlocks = len div BlockSize\<rparr>, m1))"
    then have all: "\<not> (\<exists>i < image_inodes m start. ?c i > 1023)" and "numDataBlocks (inodes (kissFS k) ! n) = ?c n"
      using that unfolding ld by (auto split: if_splits)
    with that show ?thesis by (metis not_less)
  qed
qed

lemma booted_open:
  assumes "booted m start len dbase k" and "path_ok k path xs" and "fst (route (resolve xs)) = KissFs"
  obtains k1 where "Dispatcher_open ops path k = Some (Inr (map_option
      (\<lambda>i. \<lparr>f_offset = 0, f_fs = KissFs, f_data = KissData (entry_data m start i)\<rparr>)
      (image_entry m start (take 32 (tl (resolve xs)))), k1))"
    and "k1 = k\<lparr>kmem := kmem k1\<rparr>" and "\<And>a. a < goodName k \<or> goodName k + 70 \<le> a \<Longrightarrow> kmem k1 a = kmem k a"
    and "booted m start len dbase k1"
proof -
  have mt: "mounted k" "literals_ok k" using assms(1) by (simp_all add: booted_def)
  have one: "snd (route (resolve xs)) = 1"
    using assms(3) by (auto simp: route_def split: if_splits)
  show ?thesis
  proof (rule Dispatcher_open_mounted [OF mt(1) assms(2) mt(2), of ops])
    fix fn k1
    assume c: "cstring (kmem k1) (fn + snd (route (resolve xs))) (drop (snd (route (resolve xs))) (resolve xs))"
      and k1: "k1 = k\<lparr>kmem := kmem k1\<rparr>" and out: "\<And>a. a < goodName k \<or> goodName k + 70 \<le> a \<Longrightarrow> kmem k1 a = kmem k a"
      and op: "Dispatcher_open ops path k =
        map_option (\<lambda>(r, k2). Inr (map_option (\<lambda>d. \<lparr>f_offset = 0, f_fs = fst (route (resolve xs)), f_data = d\<rparr>) r, k2))
          (fs_open ops (fst (route (resolve xs))) (fn + snd (route (resolve xs))) k1)"
    have area: "kmem k1 a = kmem k a" if "boot_area start len dbase k a" for a
    proof (rule out)
      have "\<not> (goodName k \<le> a \<and> a < goodName k + 70)"
        using assms(1) that unfolding booted_def by blast
      then show "a < goodName k \<or> goodName k + 70 \<le> a" by linarith
    qed
    have bk: "booted m start len dbase k1"
      by (subst k1) (rule booted_mem [OF assms(1) area])
    then obtain m1 where m1: "load_image m start len dbase = Some (Inr (kissFS k1, m1))" "image_apart start dbase"
      "\<And>a. dbase \<le> a \<Longrightarrow> a < dbase + 64 * sizeof_dentry \<Longrightarrow> kmem k1 a = m1 a"
      by (auto simp: booted_def)
    have nm: "name_at (kmem k1) (fn + 1) 32 = take 32 (tl (resolve xs))"
      using name_at_cstring [OF c, of 32] by (simp add: one drop_Suc)
    have "KissFS_open (kmem k1) (kissFS k1) (fn + 1) =
        Some (map_option (entry_data m start) (image_entry m start (take 32 (tl (resolve xs)))))"
      using open_later [OF m1(2,1,3), of "fn + 1"] nm by simp
    then have "Dispatcher_open ops path k = Some (Inr (map_option
        (\<lambda>i. \<lparr>f_offset = 0, f_fs = KissFs, f_data = KissData (entry_data m start i)\<rparr>)
        (image_entry m start (take 32 (tl (resolve xs)))), k1))"
      using op assms(3) one by (simp add: fs_open_def option.map_comp comp_def)
    with k1 out bk that show ?thesis by blast
  qed
qed

text \<open>The bytes of a file of the image, and reading them through the dispatcher from the start.\<close>

lemma booted_content:
  assumes "booted m start len dbase k" and "inode_ok (kissFS k) ino"
  shows "file_content (kmem k) (kissFS k) ino = file_content m (kissFS k) ino"
proof -
  have "data_block (kmem k) (kissFS k) b = data_block m (kissFS k) b" if "b \<in> set (datablocks ino)" for b
    unfolding data_block_def
  proof (rule load_bytes_cong)
    fix i assume "i < BlockSize"
    let ?q = "b + numInodes (kissFS k) + 1"
    have "?q < len div BlockSize"
      using assms(2) that booted_inodes(4) [OF assms(1)] by (auto simp: inode_ok_def)
    then have "Suc ?q * BlockSize \<le> (len div BlockSize) * BlockSize"
      by (intro mult_le_mono1) simp
    also have "\<dots> \<le> len" by (rule div_times_less_eq_dividend)
    finally have "?q * BlockSize + i < len" using \<open>i < BlockSize\<close> by simp
    then show "kmem k (imageStartingAddress (kissFS k) + ?q * BlockSize + i) = m (imageStartingAddress (kissFS k) + ?q * BlockSize + i)"
      using assms(1) booted_inodes(3) [OF assms(1)] by (simp add: booted_def)
  qed
  then show ?thesis
    by (simp add: file_content_def cong: map_cong)
qed

lemma Dispatcher_read_start:
  assumes "booted m start len dbase k" and "n < image_inodes m start" and "inode_ok (kissFS k) (inodes (kissFS k) ! n)"
    and "bs = take cnt (file_content m (kissFS k) (inodes (kissFS k) ! n))"
  shows "Dispatcher_read ops \<lparr>f_offset = 0, f_fs = KissFs, f_data = KissData (FileData ty n)\<rparr> buf cnt k =
    Some (Inr (int (length bs), \<lparr>f_offset = to_size (int (length bs)), f_fs = KissFs, f_data = KissData (FileData ty n)\<rparr>,
      k\<lparr>kmem := store_bytes (kmem k) buf bs\<rparr>))"
proof -
  have "readData (kmem k) (kissFS k) n 0 cnt = Inr (int (length bs), bs)"
    using readData_ok [of n "kissFS k" 0 cnt "kmem k"] booted_inodes(1,2) [OF assms(1)] assms booted_content [OF assms(1,3)]
    by simp
  then show ?thesis
    by (simp add: Dispatcher_read_def fs_read_def KissFS_read_def)
qed

lemma content_length: "inode_ok fs ino \<Longrightarrow> length (file_content m fs ino) = fsize ino"
proof -
  assume ok: "inode_ok fs ino"
  then have "length (concat (map (data_block m fs) (datablocks ino))) = BlockSize * ceil_div (fsize ino) BlockSize"
    by (simp add: length_concat comp_def sum_list_triv inode_ok_def)
  moreover have "fsize ino \<le> BlockSize * ceil_div (fsize ino) BlockSize"
    using ceil_div_bounds(1) [of BlockSize "fsize ino"] by (simp add: BlockSize_def)
  ultimately show ?thesis by (simp add: file_content_def)
qed

definition elf_magic :: "u8 list" where "elf_magic = [0x7f, 0x45, 0x4c, 0x46]"

text \<open>A program: an ordinary file of the image, with its bytes.\<close>

definition program :: "mem \<Rightarrow> nat \<Rightarrow> ('g, 'k) kern \<Rightarrow> u8 list \<Rightarrow> u8 list \<Rightarrow> bool" where
  "program m start k name c \<longleftrightarrow> (\<exists>i n. image_entry m start (take 32 name) = Some i \<and> image_type m start i = NORMAL_FILE \<and>
     image_inode m start i = n \<and> n < image_inodes m start \<and> inode_ok (kissFS k) (inodes (kissFS k) ! n) \<and>
     file_content m (kissFS k) (inodes (kissFS k) ! n) = c)"

lemma booted_program:
  assumes "booted m start len dbase k" and "path_ok k path xs" and "fst (route (resolve xs)) = KissFs"
    and "program m start k (tl (resolve xs)) c"
  obtains k1 n where "Dispatcher_open ops path k =
      Some (Inr (Some \<lparr>f_offset = 0, f_fs = KissFs, f_data = KissData (FileData NORMAL_FILE n)\<rparr>, k1))"
    and "booted m start len dbase k1" and "kissFS k1 = kissFS k" and "k1 = k\<lparr>kmem := kmem k1\<rparr>"
    and "\<And>a. a < goodName k \<or> goodName k + 70 \<le> a \<Longrightarrow> kmem k1 a = kmem k a"
    and "n < image_inodes m start" and "inode_ok (kissFS k1) (inodes (kissFS k1) ! n)"
    and "c = file_content m (kissFS k1) (inodes (kissFS k1) ! n)" and "length c < 0x400000"
proof -
  obtain i n where i: "image_entry m start (take 32 (tl (resolve xs))) = Some i" "image_type m start i = NORMAL_FILE"
    "image_inode m start i = n" "n < image_inodes m start" "inode_ok (kissFS k) (inodes (kissFS k) ! n)"
    "file_content m (kissFS k) (inodes (kissFS k) ! n) = c"
    using assms(4) by (auto simp: program_def)
  obtain k1 where k1: "Dispatcher_open ops path k = Some (Inr (map_option
      (\<lambda>i. \<lparr>f_offset = 0, f_fs = KissFs, f_data = KissData (entry_data m start i)\<rparr>)
      (image_entry m start (take 32 (tl (resolve xs)))), k1))"
    "k1 = k\<lparr>kmem := kmem k1\<rparr>" "\<And>a. a < goodName k \<or> goodName k + 70 \<le> a \<Longrightarrow> kmem k1 a = kmem k a"
    "booted m start len dbase k1"
    using booted_open [OF assms(1-3), of ops] by blast
  have fs: "kissFS k1 = kissFS k" by (subst k1(2)) simp
  have ed: "entry_data m start i = FileData NORMAL_FILE n"
    using i by (simp add: entry_data_def DIRECTORY_def NORMAL_FILE_def)
  have nb: "numDataBlocks (inodes (kissFS k) ! n) \<le> 1023"
    using booted_inodes(5) [OF assms(1) i(4)] .
  have "fsize (inodes (kissFS k) ! n) \<le> BlockSize * numDataBlocks (inodes (kissFS k) ! n)"
    using i(5) ceil_div_bounds(1) [of BlockSize "fsize (inodes (kissFS k) ! n)"] by (simp add: inode_ok_def BlockSize_def)
  also have "\<dots> \<le> BlockSize * 1023"
    using nb by (rule mult_le_mono2)
  finally have "length c < 0x400000"
    using i(6) content_length [OF i(5), of m] by (simp add: BlockSize_def)
  then show ?thesis
    using that [of n k1] k1 fs i ed by simp
qed

lemma kiss_file_ops:
  assumes "booted m start len dbase k" and "n < image_inodes m start"
  shows "Dispatcher_fstat \<lparr>f_offset = off, f_fs = KissFs, f_data = KissData (FileData NORMAL_FILE n)\<rparr> k =
      Inr (S_IFREG, Some (fsize (inodes (kissFS k) ! n)))"
    and "Dispatcher_close ops \<lparr>f_offset = off, f_fs = KissFs, f_data = KissData fd\<rparr> k' = (True, k')"
  using assms(2) booted_inodes(2) [OF assms(1)]
  by (simp_all add: Dispatcher_fstat_def fs_fstat_def KissFS_fstat_def kiss_consts Dispatcher_close_def fs_close_def)

lemma executable_check:
  assumes "booted m start len dbase k" and "path_ok k path xs" and "fst (route (resolve xs)) = KissFs"
    and "program m start k (tl (resolve xs)) c"
    and buf: "\<And>i. i < 4 \<Longrightarrow> \<not> boot_area start len dbase k (buf + i)"
  shows "\<exists>k1. is_kiss_executable ops path buf k = Some (Inr (if take 4 c = elf_magic then 1 else 0, k1))"
proof (rule booted_program [OF assms(1-4), of ops])
  fix k1 n
  let ?f = "\<lparr>f_offset = 0, f_fs = KissFs, f_data = KissData (FileData NORMAL_FILE n)\<rparr>"
  assume op: "Dispatcher_open ops path k = Some (Inr (Some ?f, k1))" and bk: "booted m start len dbase k1"
    and kk: "k1 = k\<lparr>kmem := kmem k1\<rparr>" and n: "n < image_inodes m start"
    and ok: "inode_ok (kissFS k1) (inodes (kissFS k1) ! n)"
    and c: "c = file_content m (kissFS k1) (inodes (kissFS k1) ! n)"
  let ?k2 = "k1\<lparr>kmem := store_bytes (kmem k1) buf [0, 0, 0, 0]\<rparr>"
  have reg: "K_S_ISREG S_IFREG" by (simp add: K_S_ISREG_def S_IFREG_def)
  have ba: "boot_area start len dbase k1 = boot_area start len dbase k"
    by (rule ext, subst kk) (simp add: boot_area_def)
  have bk2: "booted m start len dbase ?k2"
  proof (rule booted_mem [OF bk])
    fix a assume a: "boot_area start len dbase k1 a"
    have "\<not> boot_area start len dbase k (buf + (a - buf))" if "buf \<le> a \<and> a < buf + 4"
      using that by (intro buf) linarith
    with a ba have "\<not> (buf \<le> a \<and> a < buf + 4)" by auto
    then show "store_bytes (kmem k1) buf [0, 0, 0, 0] a = kmem k1 a"
      by (auto simp: store_bytes_def)
  qed
  have rd: "Dispatcher_read ops ?f buf 4 ?k2 = Some (Inr (int (length (take 4 c)),
      \<lparr>f_offset = to_size (int (length (take 4 c))), f_fs = KissFs, f_data = KissData (FileData NORMAL_FILE n)\<rparr>,
      ?k2\<lparr>kmem := store_bytes (kmem ?k2) buf (take 4 c)\<rparr>))"
    using Dispatcher_read_start [OF bk2 n, where bs = "take 4 c" and cnt = 4 and buf = buf] ok c by simp
  note ops = is_kiss_executable_def op kiss_file_ops [OF bk n] reg rd to_size_def Let_def
  have "load_bytes (store_bytes (store_bytes (kmem k1) buf [0, 0, 0, 0]) buf (take 4 c)) buf 4 = take 4 c" if "\<not> length c < 4"
    using that by (intro load_store) simp
  moreover have "take 4 c \<noteq> elf_magic" if "length c < 4"
    using that by (auto simp: elf_magic_def)
  ultimately show ?thesis
    by (cases "length c < 4") (simp_all add: ops elf_magic_def)
qed

lemma loader_copies:
  assumes "booted m start len dbase k" and "path_ok k path xs" and "fst (route (resolve xs)) = KissFs"
    and "program m start k (tl (resolve xs)) c" and "28 \<le> length c"
  shows "\<exists>k2. kiss_loader ops path tof k = Some (Inr (read32 (\<lambda>i. c ! i) 24, k2)) \<and>
      load_bytes (kmem k2) program_image_addr (length c) = c"
proof (rule booted_program [OF assms(1-4), of ops])
  fix k1 n
  let ?f = "\<lparr>f_offset = 0, f_fs = KissFs, f_data = KissData (FileData NORMAL_FILE n)\<rparr>"
  assume op: "Dispatcher_open ops path k = Some (Inr (Some ?f, k1))" and bk: "booted m start len dbase k1"
    and n: "n < image_inodes m start" and ok: "inode_ok (kissFS k1) (inodes (kissFS k1) ! n)"
    and c: "c = file_content m (kissFS k1) (inodes (kissFS k1) ! n)" and small: "length c < 0x400000"
  let ?k2 = "k1\<lparr>kmem := store_bytes (kmem k1) program_image_addr c\<rparr>"
  have "Dispatcher_read ops ?f program_image_addr 0x400000 k1 = Some (Inr (int (length c),
      \<lparr>f_offset = to_size (int (length c)), f_fs = KissFs, f_data = KissData (FileData NORMAL_FILE n)\<rparr>, ?k2))"
    using Dispatcher_read_start [OF bk n ok, where bs = c and cnt = "0x400000" and buf = program_image_addr] small c by simp
  moreover have "to_size (int (length c)) = length c"
    using small by (simp add: to_size_def)
  moreover have "read32 (kmem ?k2) (program_image_addr + 24) = read32 (\<lambda>i. c ! i) 24"
    using assms(5) by (simp add: read32_def store_bytes_def)
  ultimately have "kiss_loader ops path tof k = Some (Inr (read32 (\<lambda>i. c ! i) 24, ?k2))"
    using small by (simp add: kiss_loader_def op kiss_file_ops [OF bk n] Let_def)
  moreover have "load_bytes (kmem ?k2) program_image_addr (length c) = c"
    by (simp add: load_store)
  ultimately show ?thesis by blast
qed

text \<open>
  C37: what \<open>exec\<close> does with a program of the image. Once the kernel has booted, a path is
  taken for an executable exactly if the file it names starts with the four bytes of an ELF
  file; and loading it puts every byte of the file at the program's address and returns the
  entry point stored 24 bytes into the file.
\<close>

theorem exec_loads_program:
  assumes "booted m start len dbase k" and "path_ok k path xs" and "fst (route (resolve xs)) = KissFs"
    and "program m start k (tl (resolve xs)) c"
    and "\<And>i. i < 4 \<Longrightarrow> \<not> boot_area start len dbase k (buf + i)"
  shows "(\<exists>k1. is_kiss_executable ops path buf k = Some (Inr (if take 4 c = elf_magic then 1 else 0, k1))) \<and>
    (28 \<le> length c \<longrightarrow> (\<exists>k2. kiss_loader ops path tof k = Some (Inr (read32 (\<lambda>i. c ! i) 24, k2)) \<and>
      load_bytes (kmem k2) program_image_addr (length c) = c))"
  using executable_check [OF assms] loader_copies [OF assms(1-4)] by blast

text \<open>An image of one program of 28 bytes named \<open>a\<close>, and a kernel that has booted with it.\<close>

definition sample_ops :: "(unit, unit, unit) devops" where
  "sample_ops = \<lparr>get_instance = \<lambda>_ k. (None, k), dev_read = \<lambda>_ _ _ k. (0, [], k), dev_write = \<lambda>_ _ k. (0, k),
     dev_canSeek = \<lambda>_. False, dev_seekCallback = \<lambda>_ _ k. k, dev_delete = \<lambda>_ k. k\<rparr>"

definition sample_program :: "u8 list" where
  "sample_program = [0x7f, 0x45, 0x4c, 0x46, 0, 0, 0, 0, 0, 0, 0, 0, 0, 0, 0, 0, 0, 0, 0, 0, 0, 0, 0, 0, 7, 0, 0, 0]"

definition sample_image :: mem where
  "sample_image a = (if a = 0 \<or> a = 4 \<or> a = 8 then 1 else if a = 64 \<or> a = 500000 then 97 else if a = 96 then 2
     else if a = 4096 then 28 else if 8192 \<le> a \<and> a < 8220 then sample_program ! (a - 8192)
     else if 400000 \<le> a \<and> a < 400003 then bytes ''rtc'' ! (a - 400000)
     else if 400100 \<le> a \<and> a < 400108 then bytes ''/dev/rtc'' ! (a - 400100)
     else if a = 900000 then 0x85 else 0)"

lemma sample_image_facts:
  shows "image_count sample_image 0 = 1" and "image_inodes sample_image 0 = 1" and "image_name sample_image 0 0 = [97]"
    and "image_type sample_image 0 0 = 2" and "image_inode sample_image 0 0 = 0" and "image_size sample_image 0 0 = 28"
    and "image_block sample_image 0 0 0 = 0" and "read32 sample_image 8 = 1"
proof -
  have "cstring sample_image 64 [97]"
    by (simp add: cstring_def sample_image_def)
  then show "image_name sample_image 0 0 = [97]"
    using name_at_cstring [of sample_image 64 "[97]" 32] by (simp add: image_name_def)
qed (simp_all add: image_count_def image_inodes_def image_type_def image_inode_def image_size_def image_block_def
    read32_def sample_image_def BlockSize_def)

text \<open>A kernel that has booted from an image below its table of entries.\<close>

lemma boot_image:
  fixes dv :: 'k
  assumes fit: "\<And>i. i < image_inodes m 0 \<Longrightarrow> ceil_div (image_size m 0 i) BlockSize \<le> 1023" and "len \<le> 300000"
    and lits: "cstring m 400000 (bytes ''rtc'')" "cstring m 400100 (bytes ''/dev/rtc'')"
  obtains k :: "('g, 'k) kern" where "booted m 0 len 300000 k" and "devices k = dv" and "goodName k = 600000"
    and "\<And>a. 450000 \<le> a \<Longrightarrow> \<not> boot_area 0 len 300000 k a" and "\<And>a. 310000 \<le> a \<Longrightarrow> kmem k a = m a"
    and "inodes (kissFS k) = map (\<lambda>i. \<lparr>fsize = image_size m 0 i,
           datablocks = map (image_block m 0 i) [0..<ceil_div (image_size m 0 i) BlockSize],
           numDataBlocks = ceil_div (image_size m 0 i) BlockSize\<rparr>) [0..<image_inodes m 0]"
    and "numTotalDataBlocks (kissFS k) = read32 m 8"
proof -
  have ap: "image_apart 0 300000" by (simp add: image_apart_def kiss_consts)
  show ?thesis
  proof (rule load_image_spec [OF ap, of m len])
    fix ds m1 table
    let ?c = "\<lambda>i. ceil_div (image_size m 0 i) BlockSize"
    let ?fs = "\<lparr>dentryIndexOfFilename = table, dentries = ds,
         inodes = map (\<lambda>i. \<lparr>fsize = image_size m 0 i, datablocks = map (image_block m 0 i) [0..<?c i], numDataBlocks = ?c i\<rparr>)
           [0..<image_inodes m 0],
         numDentries = image_count m 0, numInodes = image_inodes m 0, numTotalDataBlocks = read32 m (0 + 8), imageStartingAddress = 0,
         numBlocks = len div BlockSize\<rparr>"
    assume out: "\<And>a. a < 300000 \<or> 300000 + 44 * image_count m 0 \<le> a \<Longrightarrow> m1 a = m a"
      and "load_image m 0 len 300000 = Some (if \<exists>i < image_inodes m 0. ?c i > 1023 then Inl Fault else Inr (?fs, m1))"
    moreover have "\<not> (\<exists>i < image_inodes m 0. ?c i > 1023)" using fit leD by blast
    ultimately have l: "load_image m 0 len 300000 = Some (Inr (?fs, m1))" by (simp only: if_False)
    obtain t0 :: "fs_id option PrefixTree" where "PrefixTree_new None = Inr t0"
      using new_ok [of None] by blast
    define k0 :: "('g, 'k) kern" where "k0 = \<lparr>kmem = m1, lookup = t0, kissFS = ?fs, deviceOfFilename = [],
       devices = dv, goodName = 600000, lit_rtc = 400000, lit_dev_rtc = 400100, lit_dev_keyb = 0, lit_dev_term = 0\<rparr>"
    obtain t where t: "mounted (k0\<lparr>lookup := t\<rparr>)"
      using mountAll_mounted [of k0] \<open>PrefixTree_new None = Inr t0\<close> by (auto simp: k0_def)
    have at: "m1 a = m a" if "a < 300000 \<or> 302816 \<le> a" for a
      using that by (intro out) (auto simp: image_count_def)
    have "cstring m1 400000 (bytes ''rtc'')" "cstring m1 400100 (bytes ''/dev/rtc'')"
      using lits at by (auto intro: cstring_same)
    then have "booted m 0 len 300000 (k0\<lparr>lookup := t\<rparr>)"
      using ap t l at assms(2) by (auto simp: booted_def literals_ok_def k0_def boot_area_def sizeof_dentry_def)
    then show ?thesis
      using that [of "k0\<lparr>lookup := t\<rparr>"] at assms(2) by (simp add: k0_def boot_area_def sizeof_dentry_def)
  qed
qed

lemma sample_booted:
  fixes dv :: 'k
  obtains k :: "('g, 'k) kern" where "booted sample_image 0 12288 300000 k" and "path_ok k 500000 [97]"
    and "program sample_image 0 k [97] sample_program" and "\<And>i. i < 4 \<Longrightarrow> \<not> boot_area 0 12288 300000 k (700000 + i)"
    and "devices k = dv" and "goodName k = 600000" and "\<And>a. 450000 \<le> a \<Longrightarrow> \<not> boot_area 0 12288 300000 k a"
    and "\<And>a. 310000 \<le> a \<Longrightarrow> kmem k a = sample_image a"
proof -
  have c1: "ceil_div 28 BlockSize = 1" by (simp add: ceil_div_def BlockSize_def)
  have lits: "cstring sample_image 400000 (bytes ''rtc'')" "cstring sample_image 400100 (bytes ''/dev/rtc'')"
    by (auto simp: cstring_def sample_image_def bytes_def)
  show ?thesis
  proof (rule boot_image [where m = sample_image and len = 12288 and dv = dv])
    fix k :: "('g, 'k) kern"
    assume b: "booted sample_image 0 12288 300000 k" and k: "devices k = dv" "goodName k = 600000"
      and ar: "\<And>a. 450000 \<le> a \<Longrightarrow> \<not> boot_area 0 12288 300000 k a" and at: "\<And>a. 310000 \<le> a \<Longrightarrow> kmem k a = sample_image a"
      and ino: "inodes (kissFS k) = map (\<lambda>i. \<lparr>fsize = image_size sample_image 0 i,
           datablocks = map (image_block sample_image 0 i) [0..<ceil_div (image_size sample_image 0 i) BlockSize],
           numDataBlocks = ceil_div (image_size sample_image 0 i) BlockSize\<rparr>) [0..<image_inodes sample_image 0]"
      and nd: "numTotalDataBlocks (kissFS k) = read32 sample_image 8"
    have 0: "inodes (kissFS k) ! 0 = \<lparr>fsize = 28, datablocks = [0], numDataBlocks = 1\<rparr>"
      by (simp add: ino sample_image_facts c1)
    have st: "imageStartingAddress (kissFS k) = 0" "numInodes (kissFS k) = 1" "numBlocks (kissFS k) = 3" "numTotalDataBlocks (kissFS k) = 1"
      using booted_inodes [OF b] nd by (simp_all add: sample_image_facts BlockSize_def)
    have "path_ok k 500000 [97]"
      by (simp add: path_ok_def k cstring_def at) (simp add: sample_image_def)
    moreover have "program sample_image 0 k [97] sample_program"
    proof -
      have "image_entry sample_image 0 (take 32 [97]) = Some 0"
        by (simp add: image_entry_def sample_image_facts)
      moreover have "inode_ok (kissFS k) (inodes (kissFS k) ! 0)"
        by (simp add: inode_ok_def 0 st c1)
      moreover have "take 28 (data_block sample_image (kissFS k) 0) = sample_program"
        by (rule nth_equalityI) (simp_all add: data_block_def st BlockSize_def sample_program_def sample_image_def)
      then have "file_content sample_image (kissFS k) (inodes (kissFS k) ! 0) = sample_program"
        by (simp add: file_content_def 0)
      ultimately show ?thesis
        by (simp add: program_def sample_image_facts NORMAL_FILE_def)
    qed
    ultimately show ?thesis
      using that b k ar at by simp
  qed (use lits in \<open>simp_all add: sample_image_facts c1\<close>)
qed

theorem exec_loads_program_witness:
  "\<exists>(k :: (unit, unit) kern) k1 k2. is_kiss_executable sample_ops 500000 700000 k = Some (Inr (1, k1)) \<and>
    kiss_loader sample_ops 500000 800000 k = Some (Inr (7, k2)) \<and>
    load_bytes (kmem k2) program_image_addr 28 = sample_program"
proof (rule sample_booted [of "()"])
  fix k :: "(unit, unit) kern"
  assume b: "booted sample_image 0 12288 300000 k" and p: "path_ok k 500000 [97]"
    and pr: "program sample_image 0 k [97] sample_program" and ar: "\<And>i. i < 4 \<Longrightarrow> \<not> boot_area 0 12288 300000 k (700000 + i)"
  have r: "resolve [97] = [47, 97]" by (simp add: resolve_def bytes_def)
  have rt: "fst (route (resolve [97])) = KissFs" by (simp add: r route_def dev_prefix_def)
  have "program sample_image 0 k (tl (resolve [97])) sample_program" using pr r by simp
  note * = exec_loads_program [OF b p rt this ar, of sample_ops 800000]
  have "take 4 sample_program = elf_magic" "length sample_program = 28" "read32 (\<lambda>i. sample_program ! i) 24 = 7"
    by (simp_all add: sample_program_def elf_magic_def read32_def)
  with * show ?thesis by auto
qed

text \<open>
  C38: a relative path of 69 or more characters overflows the array of 70 characters in
  \<open>open\<close>. All 70 characters of the array are then different from the terminator, so the search
  for the mount point reads on behind the array: the string it sees is longer than 69
  characters, or has no end.
\<close>

theorem long_path_unterminated:
  assumes "\<And>i. i < 69 \<Longrightarrow> kmem k (path + i) \<noteq> 0" and "kmem k path \<noteq> 47"
    and "path + 69 \<le> goodName k \<or> goodName k + 70 \<le> path" and "strncmp (kmem k) path (lit_rtc k) 4 \<noteq> 0"
  shows "\<exists>k1. Dispatcher_path path k = (goodName k, k1) \<and> (\<forall>i < 70. kmem k1 (goodName k + i) \<noteq> 0) \<and>
    (\<forall>n. strlen (kmem k1) (goodName k) = Some n \<longrightarrow> 70 \<le> n)"
proof -
  let ?g = "goodName k"
  let ?m = "store_bytes (kmem k) ?g (47 # replicate 69 0)"
  have out: "?m (path + i) = kmem k (path + i)" if "i < 69" for i
    using assms(3) that by (intro store_bytes_out) auto
  have nm: "name_at ?m path 69 = load_bytes ?m path 69"
    unfolding name_at_def using assms(1) out by (auto simp: takeWhile_eq_all_conv in_set_conv_nth)
  have cp: "strncpy ?m (?g + 1) path 69 = store_bytes ?m (?g + 1) (load_bytes ?m path 69)"
    using strncpy_eq [of "?g + 1" 69 path ?m] assms(3) nm by auto
  let ?k1 = "k\<lparr>kmem := strncpy ?m (?g + 1) path 69\<rparr>"
  have "?m path = kmem k path"
    using out [of 0] by simp
  then have d: "Dispatcher_path path k = (?g, ?k1)"
    using assms(2,4) by (simp add: Dispatcher_path_def Let_def)
  have km: "kmem ?k1 = store_bytes ?m (?g + 1) (load_bytes ?m path 69)"
    using cp by simp
  have nz: "kmem ?k1 (?g + i) \<noteq> 0" if "i < 70" for i
  proof (cases i)
    case 0
    then show ?thesis unfolding km by (simp add: store_bytes_def)
  next
    case (Suc j)
    then have "kmem ?k1 (?g + i) = ?m (path + j)"
      unfolding km using that by (simp add: store_bytes_in [of j "load_bytes ?m path 69" ?m "?g + 1", simplified])
    with Suc that assms(1) [of j] out [of j] show ?thesis by simp
  qed
  have "70 \<le> n" if "strlen (kmem ?k1) ?g = Some n" for n
  proof (rule ccontr)
    assume "\<not> 70 \<le> n"
    then have "kmem ?k1 (?g + n) \<noteq> 0" by (intro nz) simp
    with cstring_ex [OF that] show False by (simp add: cstring_def)
  qed
  with d nz show ?thesis by blast
qed

theorem long_path_unterminated_witness:
  "\<exists>k1. Dispatcher_path 100 \<lparr>kmem = (\<lambda>a. if a < 200 then 97 else 0), lookup = projr (PrefixTree_new None),
      kissFS = sample_fs, deviceOfFilename = [] :: (nat, unit) HashEntry list, devices = (), goodName = 1000, lit_rtc = 2000,
      lit_dev_rtc = 2010, lit_dev_keyb = 2020, lit_dev_term = 2030\<rparr> = (1000, k1) \<and> (\<forall>i < 70. kmem k1 (1000 + i) \<noteq> 0)"
proof -
  let ?k = "\<lparr>kmem = (\<lambda>a. if a < 200 then 97 else 0), lookup = projr (PrefixTree_new None),
      kissFS = sample_fs, deviceOfFilename = [] :: (nat, unit) HashEntry list, devices = (), goodName = 1000, lit_rtc = 2000,
      lit_dev_rtc = 2010, lit_dev_keyb = 2020, lit_dev_term = 2030\<rparr>"
  have "strncmp (kmem ?k) 100 (lit_rtc ?k) 4 \<noteq> 0"
    by (simp add: strncmp_eq_0 name_at_Suc [of _ _ 3, simplified])
  then show ?thesis
    using long_path_unterminated [of ?k 100] by auto
qed

end
