(* ===== verification/KDescriptors.thy ===== *)
theory KDescriptors
  imports KBoot
begin

text \<open>
  What the system calls do to the descriptors of a process: the array of descriptors is a free
  list beside a table of open files after every sequence of calls, and the outcomes of
  \<open>open\<close> and \<open>close\<close>.
\<close>

subsection \<open>Standard input and output\<close>

abbreviation fds :: "('g, 'd, 'k) sys \<Rightarrow> 'd FileDescArr" where
  "fds s \<equiv> fileDescs (proc s)"

text \<open>Two states whose descriptors from 2 on are the same.\<close>

definition same_fds :: "('g, 'd, 'k) sys \<Rightarrow> ('g, 'd, 'k) sys \<Rightarrow> bool" where
  "same_fds s t \<longleftrightarrow> fd_ok (fds t) \<and> fd_isfree (fds t) = fd_isfree (fds s) \<and> fd_count (fds t) = fd_count (fds s) \<and>
     (\<forall>i. FD_FIXED_PART \<le> i \<longrightarrow> content (fds t) ! i = content (fds s) ! i)"

lemma same_fds_refl: "fd_ok (fds s) \<Longrightarrow> same_fds s s"
  by (simp add: same_fds_def)

lemma same_fds_trans: "same_fds s t \<Longrightarrow> same_fds t u \<Longrightarrow> same_fds s u"
  by (simp add: same_fds_def)

lemma obind_eq_Inr: "obind m f = Some (Inr y) \<longleftrightarrow> (\<exists>x. m = Some (Inr x) \<and> f x = Some (Inr y))"
  by (auto simp: obind_def split: option.splits sum.splits)

lemma dispatch_open_proc: "dispatch_open ops p s = Some (Inr (f, t)) \<Longrightarrow> proc t = proc s \<and> cr3val t = cr3val s"
  by (auto simp: dispatch_open_def obind_eq_Inr)

lemma fds_set_fd [simp]: "fds (set_fd i f s) = FileDescArr_put i f (fds s)"
  by (simp add: set_fd_def)

lemma fixed_not_free: "fd_ok a \<Longrightarrow> i < FD_FIXED_PART \<Longrightarrow> \<not> fd_isfree a i"
  using fd_okD(3) [of a i] by auto

lemma set_fd_fixed:
  assumes "fd_ok (fds s)" and "i < FD_FIXED_PART"
  shows "same_fds s (set_fd i f s)"
proof -
  have i: "i < FD_ARRAY_LENGTH" "\<not> fd_isfree (fds s) i"
    using assms fixed_not_free by (auto simp: FD_ARRAY_LENGTH_def FD_FIXED_PART_def)
  with assms FileDescArr_put_ok [OF assms(1), of f i] show ?thesis
    by (simp add: same_fds_def)
qed

lemma ensureFdInitialized_same:
  assumes "ensureFdInitialized ops s = Some (Inr (ok, t))" and "fd_ok (fds s)"
  shows "same_fds s t"
proof (cases "fdInitialized (proc s)")
  case True
  with assms show ?thesis by (auto simp: ensureFdInitialized_def same_fds_refl)
next
  case False
  with assms(1) obtain f0 s1 where s1: "dispatch_open ops (lit_dev_keyb (kern s)) s = Some (Inr (f0, s1))"
    and r: "(if f0 = None then Some (Inr (False, s1))
        else obind (dispatch_open ops (lit_dev_term (kern (set_fd 0 f0 s1))) (set_fd 0 f0 s1)) (\<lambda>(f1, s3).
             if f1 = None then Some (Inr (False, s3))
             else Some (Inr (True, (set_fd 1 f1 s3)\<lparr>proc := (proc (set_fd 1 f1 s3))\<lparr>fdInitialized := True\<rparr>\<rparr>)))) = Some (Inr (ok, t))"
    unfolding ensureFdInitialized_def Let_def by (auto simp: obind_eq_Inr)
  have p1: "same_fds s s1"
    using dispatch_open_proc [OF s1] assms(2) by (simp add: same_fds_def)
  show ?thesis
  proof (cases "f0 = None")
    case True
    with r p1 show ?thesis by simp
  next
    case False
    with r obtain f1 s3 where s3: "dispatch_open ops (lit_dev_term (kern (set_fd 0 f0 s1))) (set_fd 0 f0 s1) = Some (Inr (f1, s3))"
      and t: "(if f1 = None then (False, s3) else (True, (set_fd 1 f1 s3)\<lparr>proc := (proc (set_fd 1 f1 s3))\<lparr>fdInitialized := True\<rparr>\<rparr>))
        = (ok, t)"
      by (auto simp: obind_eq_Inr split: if_splits)
    have ok1: "fd_ok (fds s1)" using p1 by (simp add: same_fds_def)
    have p2: "same_fds s1 (set_fd 0 f0 s1)"
      using ok1 by (rule set_fd_fixed) (simp add: FD_FIXED_PART_def)
    have p3: "same_fds (set_fd 0 f0 s1) s3"
      using dispatch_open_proc [OF s3] p2 by (simp add: same_fds_def)
    have p4: "same_fds s3 (set_fd 1 f1 s3)"
      using p3 by (intro set_fd_fixed) (simp_all add: same_fds_def FD_FIXED_PART_def)
    have s3: "same_fds s s3"
      using p1 p2 p3 same_fds_trans by blast
    then have s4: "same_fds s (set_fd 1 f1 s3)"
      using p4 by (rule same_fds_trans)
    have "fds t = fds s3 \<or> fds t = fds (set_fd 1 f1 s3)"
      using t by (auto split: if_splits)
    with s3 s4 show ?thesis by (auto simp: same_fds_def)
  qed
qed

lemma with_fd_cases:
  assumes "with_fd ops fd s body = Some (Inr (r, t))" and "fd_ok (fds s)"
  obtains s1 where "same_fds s s1" and "r = -1" and "t = s1"
  | s1 where "same_fds s s1" and "to_size fd < FD_ARRAY_LENGTH" and "content (fds s1) ! to_size fd \<noteq> None"
      and "body (get_fd (to_size fd) s1) s1 = Some (Inr (r, t))"
proof -
  obtain ok s1 where s1: "ensureFdInitialized ops s = Some (Inr (ok, s1))"
    and r: "(if \<not> ok then Some (Inr (-1, s1))
       else if \<not> FileDescArr_isValid (to_size fd) (fds s1) then Some (Inr (-1, s1))
       else body (get_fd (to_size fd) s1) s1) = Some (Inr (r, t))"
    using assms(1) by (auto simp: with_fd_def obind_eq_Inr)
  have same: "same_fds s s1"
    using s1 assms(2) by (rule ensureFdInitialized_same)
  then have "fd_ok (fds s1)" by (simp add: same_fds_def)
  with r same that show ?thesis
    by (auto simp: fd_isValid_iff split: if_splits)
qed

subsection \<open>The outcomes of the calls\<close>

text \<open>Assigning a file to a descriptor that is in use.\<close>

lemma set_fd_used:
  assumes "fd_ok (fds s)" and "i < FD_ARRAY_LENGTH" and "content (fds s) ! i \<noteq> None"
  shows "fd_ok (fds (set_fd i f s))" and "fd_isfree (fds (set_fd i f s)) = fd_isfree (fds s)"
    and "fd_count (fds (set_fd i f s)) = fd_count (fds s)"
    and "content (fds (set_fd i f s)) ! j = (if j = i then f else content (fds s) ! j)"
proof -
  have "\<not> fd_isfree (fds s) i"
    using assms(3) fd_okD(4) [OF assms(1), of i] by auto
  with FileDescArr_put_ok [OF assms(1), of f i] assms(2)
  show "fd_ok (fds (set_fd i f s))" and "fd_isfree (fds (set_fd i f s)) = fd_isfree (fds s)"
    and "fd_count (fds (set_fd i f s)) = fd_count (fds s)"
    and "content (fds (set_fd i f s)) ! j = (if j = i then f else content (fds s) ! j)"
    by simp_all
qed

text \<open>\<open>read\<close>, \<open>write\<close>, \<open>fstat\<close> and \<open>lseek\<close> change at most the file of their descriptor.\<close>

definition fds_but :: "nat \<Rightarrow> ('g, 'd, 'k) sys \<Rightarrow> ('g, 'd, 'k) sys \<Rightarrow> bool" where
  "fds_but fd s t \<longleftrightarrow> fd_ok (fds t) \<and> fd_isfree (fds t) = fd_isfree (fds s) \<and> fd_count (fds t) = fd_count (fds s) \<and>
     (\<forall>i. FD_FIXED_PART \<le> i \<longrightarrow> i \<noteq> fd \<longrightarrow> content (fds t) ! i = content (fds s) ! i) \<and>
     (FD_FIXED_PART \<le> fd \<longrightarrow> (content (fds t) ! fd = None \<longleftrightarrow> content (fds s) ! fd = None))"

lemma same_fds_but: "same_fds s t \<Longrightarrow> fds_but fd s t"
  by (simp add: same_fds_def fds_but_def)

lemma with_fd_but:
  assumes "with_fd ops fd s body = Some (Inr (r, t))" and "fd_ok (fds s)"
    and "\<And>f s1. body f s1 = Some (Inr (r, t)) \<Longrightarrow> fds t = fds s1 \<or> (\<exists>g. fds t = fds (set_fd (to_size fd) (Some g) s1))"
  shows "fds_but (to_size fd) s t"
  using assms(1,2)
proof (cases rule: with_fd_cases)
  case (1 s1)
  then show ?thesis by (simp add: same_fds_but)
next
  case (2 s1)
  have ok: "fd_ok (fds s1)" using 2(1) by (simp add: same_fds_def)
  from assms(3) [OF 2(4)] show ?thesis
  proof (elim disjE exE)
    assume "fds t = fds s1"
    with 2(1) show ?thesis by (auto simp: same_fds_def fds_but_def)
  next
    fix g assume "fds t = fds (set_fd (to_size fd) (Some g) s1)"
    with 2(1,3) set_fd_used [OF ok 2(2,3), of "Some g"] show ?thesis
      by (auto simp del: fds_set_fd simp: same_fds_def fds_but_def)
  qed
qed

lemma sys_read_but:
  assumes "sys_read ops fd buf n s = Some (Inr (r, t))" and "fd_ok (fds s)"
  shows "fds_but (to_size fd) s t"
proof (cases "validUserPointer buf s")
  case True
  with assms(1) have "with_fd ops fd s (\<lambda>f s1. obind (Dispatcher_read ops f buf (to_size n) (kern s1)) (\<lambda>(r, f1, k1).
    Some (Inr (r, set_fd (to_size fd) (Some f1) (s1\<lparr>kern := k1\<rparr>))))) = Some (Inr (r, t))"
    by (simp add: sys_read_def)
  then show ?thesis
    using assms(2) by (rule with_fd_but) (fastforce simp: obind_eq_Inr)
qed (use assms in \<open>auto simp: sys_read_def intro: same_fds_but same_fds_refl\<close>)

lemma sys_write_but:
  assumes "sys_write ops fd buf n s = Some (Inr (r, t))" and "fd_ok (fds s)"
  shows "fds_but (to_size fd) s t"
proof (cases "validUserPointer buf s")
  case True
  with assms(1) have "with_fd ops fd s (\<lambda>f s1. case Dispatcher_write ops f buf (to_size n) (kern s1) of (r, f1, k1) \<Rightarrow>
    Some (Inr (r, set_fd (to_size fd) (Some f1) (s1\<lparr>kern := k1\<rparr>)))) = Some (Inr (r, t))"
    by (simp add: sys_write_def)
  then show ?thesis
    using assms(2) by (rule with_fd_but) (fastforce split: prod.splits)
qed (use assms in \<open>auto simp: sys_write_def intro: same_fds_but same_fds_refl\<close>)

lemma sys_fstat_but:
  "sys_fstat ops fd st s = Some (Inr (r, t)) \<Longrightarrow> fd_ok (fds s) \<Longrightarrow> fds_but (to_size fd) s t"
  unfolding sys_fstat_def by (rule with_fd_but) (auto simp: kbind_eq_Inr)

lemma sys_lseek_but:
  "sys_lseek ops fd off wh s = Some (Inr (r, t)) \<Longrightarrow> fd_ok (fds s) \<Longrightarrow> fds_but (to_size fd) s t"
  unfolding sys_lseek_def by (erule with_fd_but, assumption) (clarsimp simp: kbind_eq_Inr, blast)

lemma sys_close_cases:
  assumes "sys_close ops fd s = Some (Inr (r, t))" and "fd_ok (fds s)" and "- 2147483648 \<le> fd" and "fd < 2147483648"
  obtains "r = -1" and "same_fds s t"
  | "r = 0" and "2 \<le> fd" and "fd < 128" and "content (fds s) ! nat fd \<noteq> None" and "fd_ok (fds t)"
      and "fd_isfree (fds t) = (\<lambda>i. i = nat fd \<or> fd_isfree (fds s) i)"
      and "fd_count (fds t) = Suc (fd_count (fds s))"
      and "\<And>i. FD_FIXED_PART \<le> i \<Longrightarrow> content (fds t) ! i = (if i = nat fd then None else content (fds s) ! i)"
proof (cases "fd = 0 \<or> fd = 1")
  case True
  with assms that(1) show ?thesis by (auto simp: sys_close_def same_fds_refl)
next
  case False
  from False assms(1) have w: "with_fd ops fd s (\<lambda>f s1.
        case Dispatcher_close ops f (kern s1) of (res, k1) \<Rightarrow>
          if \<not> res then Some (Inr (-1, s1\<lparr>kern := k1\<rparr>))
          else let s2 = set_fd (to_size fd) None (s1\<lparr>kern := k1\<rparr>)
               in Some (Inr (0, s2\<lparr>proc := (proc s2)\<lparr>fileDescs := FileDescArr_recycle (to_size fd) (fileDescs (proc s2))\<rparr>\<rparr>)))
     = Some (Inr (r, t))"
    by (simp add: sys_close_def)
  from w assms(2) show ?thesis
  proof (cases rule: with_fd_cases)
    case (1 s1)
    with that(1) show ?thesis by simp
  next
    case (2 s1)
    have ok: "fd_ok (fds s1)" using 2(1) by (simp add: same_fds_def)
    have pos: "0 \<le> fd"
    proof (rule ccontr)
      assume "\<not> 0 \<le> fd"
      then have "fd mod 4294967296 = fd + 4294967296"
        using assms(3) by (intro mod_pos_pos_trivial [THEN trans [OF mod_add_self2 [symmetric]]]) auto
      with 2(2) assms(3) show False by (simp add: to_size_def FD_ARRAY_LENGTH_def)
    qed
    with assms(4) have sz: "to_size fd = nat fd"
      by (simp add: to_size_def)
    obtain res k1 where d: "Dispatcher_close ops (get_fd (to_size fd) s1) (kern s1) = (res, k1)"
      by fastforce
    show ?thesis
    proof (cases res)
      case False
      with 2(4) d have "r = -1" "t = s1\<lparr>kern := k1\<rparr>" by auto
      with 2(1) that(1) show ?thesis by (simp add: same_fds_def)
    next
      case True
      let ?s2 = "set_fd (nat fd) None (s1\<lparr>kern := k1\<rparr>)"
      have t: "r = 0" "fds t = FileDescArr_recycle (nat fd) (fds ?s2)"
        using 2(4) d True by (auto simp: sz Let_def)
      have n: "nat fd < FD_ARRAY_LENGTH" "FD_FIXED_PART \<le> nat fd"
        using 2(2) \<open>\<not> (fd = 0 \<or> fd = 1)\<close> pos by (auto simp: sz FD_FIXED_PART_def)
      have fr: "\<not> fd_isfree (fds s) (nat fd)"
        using 2(1,3) fd_okD(4) [OF ok, of "nat fd"] by (auto simp: sz same_fds_def)
      have u: "fd_ok (fds ?s2)" "fd_isfree (fds ?s2) = fd_isfree (fds s1)" "fd_count (fds ?s2) = fd_count (fds s1)"
        "\<And>j. content (fds ?s2) ! j = (if j = nat fd then None else content (fds s1) ! j)"
        using set_fd_used [of "s1\<lparr>kern := k1\<rparr>" "nat fd" None] ok n(1) 2(3) by (simp_all add: sz)
      then have "content (fds ?s2) ! nat fd = None" by simp
      note rec = FileDescArr_recycle_ok [OF u(1) n this]
      show ?thesis
      proof (rule that(2))
        show "content (fds t) ! i = (if i = nat fd then None else content (fds s) ! i)" if "FD_FIXED_PART \<le> i" for i
          using t(2) rec(3) u(4) [of i] 2(1) that by (simp add: same_fds_def)
        show "fd_count (fds t) = Suc (fd_count (fds s))"
          using t(2) rec(4) u(2,3) fr 2(1) by (simp add: same_fds_def)
        show "fd_isfree (fds t) = (\<lambda>i. i = nat fd \<or> fd_isfree (fds s) i)"
          using t(2) rec(2) u(2) 2(1) by (simp add: same_fds_def)
        show "content (fds s) ! nat fd \<noteq> None"
          using 2(1,3) n(2) by (simp add: sz same_fds_def)
      qed (use t rec(1) n in \<open>simp_all add: FD_FIXED_PART_def FD_ARRAY_LENGTH_def\<close>)
    qed
  qed
qed

lemma sys_open_cases:
  assumes "sys_open ops path s = Some (Inr (r, t))" and "fd_ok (fds s)"
  obtains "r = -1" and "same_fds s t"
  | i s1 where "r = -1" and "same_fds s s1" and "fd_isfree (fds s) i" and "fd_ok (fds t)" and "content (fds t) = content (fds s1)"
      and "fd_isfree (fds t) = (\<lambda>j. j \<noteq> i \<and> fd_isfree (fds s) j)" and "Suc (fd_count (fds t)) = fd_count (fds s)"
  | i f s1 where "r = int i" and "same_fds s s1" and "fd_isfree (fds s) i" and "fd_ok (fds t)"
      and "\<And>j. content (fds t) ! j = (if j = i then Some f else content (fds s1) ! j)"
      and "fd_isfree (fds t) = (\<lambda>j. j \<noteq> i \<and> fd_isfree (fds s) j)" and "Suc (fd_count (fds t)) = fd_count (fds s)"
proof (cases "validUserPointer path s")
  case False
  with assms that(1) show ?thesis by (auto simp: sys_open_def same_fds_refl)
next
  case True
  with assms(1) obtain ok s1 where s1: "ensureFdInitialized ops s = Some (Inr (ok, s1))"
    and r: "(if \<not> ok then Some (Inr (-1, s1))
        else case FileDescArr_alloc (fds s1) of
          (None, a) \<Rightarrow> Some (Inr (-1, s1\<lparr>proc := (proc s1)\<lparr>fileDescs := a\<rparr>\<rparr>))
        | (Some slot, a) \<Rightarrow>
            obind (dispatch_open ops path (s1\<lparr>proc := (proc s1)\<lparr>fileDescs := a\<rparr>\<rparr>)) (\<lambda>(res, s2).
              if res = None then Some (Inr (-1, s2)) else Some (Inr (to_int32 slot, set_fd slot res s2)))) = Some (Inr (r, t))"
    by (auto simp: sys_open_def obind_eq_Inr)
  have same: "same_fds s s1" using s1 assms(2) by (rule ensureFdInitialized_same)
  then have ok1: "fd_ok (fds s1)" by (simp add: same_fds_def)
  show ?thesis
  proof (cases "ok \<and> 0 < fd_count (fds s1)")
    case False
    then have "r = -1 \<and> fds t = fds s1"
      using r FileDescArr_alloc_none [OF ok1] by (auto split: if_splits)
    with same that(1) show ?thesis by (simp add: same_fds_def)
  next
    case True
    then obtain i b where al: "FileDescArr_alloc (fds s1) = (Some i, b)" "fd_isfree (fds s1) i" "fd_ok b"
      "content b = content (fds s1)" "fd_isfree b = (\<lambda>j. j \<noteq> i \<and> fd_isfree (fds s1) j)" "Suc (fd_count b) = fd_count (fds s1)"
      by (auto elim: FileDescArr_alloc_some [OF ok1])
    have i: "i < FD_ARRAY_LENGTH" "to_int32 i = int i" "\<not> fd_isfree b i"
      using fd_okD(5) [OF ok1 al(2)] al(5) by (simp_all add: to_int32_def FD_ARRAY_LENGTH_def)
    have fs: "fd_isfree (fds s) i" "fd_isfree b = (\<lambda>j. j \<noteq> i \<and> fd_isfree (fds s) j)" "Suc (fd_count b) = fd_count (fds s)"
      using al same by (simp_all add: same_fds_def)
    obtain res s2 where s2: "dispatch_open ops path (s1\<lparr>proc := (proc s1)\<lparr>fileDescs := b\<rparr>\<rparr>) = Some (Inr (res, s2))"
      and t: "(if res = None then (-1, s2) else (int i, set_fd i res s2)) = (r, t)"
      using r True al(1) i(2) by (auto simp: obind_eq_Inr split: if_splits)
    have b: "fds s2 = b"
      using dispatch_open_proc [OF s2] by simp
    show ?thesis
    proof (cases res)
      case None
      then show ?thesis
        using that(2) [of s1 i] t b al fs same by auto
    next
      case (Some f)
      then have "r = int i" "fds t = FileDescArr_put i (Some f) b"
        using t b by auto
      moreover note FileDescArr_put_ok [OF al(3), of "Some f" i]
      ultimately show ?thesis
        using that(3) [of i s1 f] i fs same al(4) by simp
    qed
  qed
qed

subsection \<open>Sequences of calls\<close>

text \<open>One system call of the process that returns, with any arguments.\<close>

inductive call :: "('g, 'd, 'k) devops \<Rightarrow> ('g, 'd, 'k) sys \<Rightarrow> int \<Rightarrow> ('g, 'd, 'k) sys \<Rightarrow> bool"
  for ops :: "('g, 'd, 'k) devops" where
  call_read: "sys_read ops fd buf n s = Some (Inr (r, t)) \<Longrightarrow> call ops s r t"
| call_write: "sys_write ops fd buf n s = Some (Inr (r, t)) \<Longrightarrow> call ops s r t"
| call_open: "sys_open ops path s = Some (Inr (r, t)) \<Longrightarrow> call ops s r t"
| call_close: "- 2147483648 \<le> fd \<Longrightarrow> fd < 2147483648 \<Longrightarrow> sys_close ops fd s = Some (Inr (r, t)) \<Longrightarrow> call ops s r t"
| call_fstat: "sys_fstat ops fd st s = Some (Inr (r, t)) \<Longrightarrow> call ops s r t"
| call_lseek: "sys_lseek ops fd off wh s = Some (Inr (r, t)) \<Longrightarrow> call ops s r t"
| call_getargs: "getargs buf n s = Some (Inr (r, t)) \<Longrightarrow> call ops s r t"

inductive calls :: "('g, 'd, 'k) devops \<Rightarrow> ('g, 'd, 'k) sys \<Rightarrow> ('g, 'd, 'k) sys \<Rightarrow> bool"
  for ops :: "('g, 'd, 'k) devops" where
  calls_none: "calls ops s s"
| calls_more: "calls ops s t \<Longrightarrow> call ops t r u \<Longrightarrow> calls ops s u"

lemma getargs_proc: "getargs buf n s = Some (Inr (r, t)) \<Longrightarrow> proc t = proc s"
  by (auto simp: getargs_def Let_def split: if_splits option.splits)

lemma call_fd_ok: "call ops s r t \<Longrightarrow> fd_ok (fds s) \<Longrightarrow> fd_ok (fds t)"
proof (induction rule: call.induct)
  case (call_open path s r t)
  then show ?case by (auto elim!: sys_open_cases simp: same_fds_def)
next
  case (call_close fd s r t)
  then show ?case by (auto elim!: sys_close_cases simp: same_fds_def)
qed (auto dest: sys_read_but sys_write_but sys_fstat_but sys_lseek_but getargs_proc simp: fds_but_def)

lemma calls_fd_ok: "calls ops s t \<Longrightarrow> fd_ok (fds s) \<Longrightarrow> fd_ok (fds t)"
  by (induction rule: calls.induct) (auto intro: call_fd_ok)

text \<open>A process before its first call, and a sample one whose mount table is empty.\<close>

definition sample_proc :: "('g, 'k) kern \<Rightarrow> ('g, 'd, 'k) sys" where
  "sample_proc k = \<lparr>kern = k, proc = \<lparr>fileDescs = FileDescArr_new, fdInitialized = True, arg = 0, isKernel = True\<rparr>, cr3val = 4096\<rparr>"

lemma sample_proc_facts [simp]:
  "ensureFdInitialized ops (sample_proc k) = Some (Inr (True, sample_proc k))"
  "p \<noteq> 0 \<Longrightarrow> validUserPointer p (sample_proc k)" "kern (sample_proc k) = k" "fds (sample_proc k) = FileDescArr_new"
  "fdInitialized (proc (sample_proc k))"
  by (simp_all add: sample_proc_def ensureFdInitialized_def validUserPointer_def)

definition sample_sys :: "(unit, unit, unit) sys" where
  "sample_sys = sample_proc \<lparr>kmem = \<lambda>_. 0, lookup = projr (PrefixTree_new None), kissFS = sample_fs, deviceOfFilename = [],
     devices = (), goodName = 1000, lit_rtc = 2000, lit_dev_rtc = 2010, lit_dev_keyb = 2020, lit_dev_term = 2030\<rparr>"

text \<open>
  C29: after any sequence of system calls of a process, with any arguments and whatever they
  return, the stack of free descriptors and the bit set agree: a descriptor is marked as free
  exactly if it is on the stack, it is there once, it is one of 2 to 127, and no file is open
  under it. So \<open>open\<close> never hands out standard input or output, or a descriptor in use.
\<close>

theorem descriptors_invariant:
  assumes "fds s = FileDescArr_new" and "calls ops s t"
  shows "distinct (Stack_list (freeFDs (fds t))) \<and>
    (\<forall>i. BitSet_test FD_ARRAY_LENGTH i (isFDfree (fds t)) \<longleftrightarrow> i \<in> set (Stack_list (freeFDs (fds t)))) \<and>
    (\<forall>i \<in> set (Stack_list (freeFDs (fds t))). 2 \<le> i \<and> i < 128 \<and> content (fds t) ! i = None \<and>
      \<not> FileDescArr_isValid i (fds t))"
proof -
  have ok: "fd_ok (fds t)"
    using calls_fd_ok [OF assms(2)] assms(1) by (simp add: FileDescArr_new_ok(1))
  then have ag: "flist.agree FD_ARRAY_LENGTH (freeFDs (fds t)) (isFDfree (fds t))"
    by (rule fd_okD)
  have free: "fd_isfree (fds t) i" if "i \<in> set (Stack_list (freeFDs (fds t)))" for i
    using ag that by (simp add: flist.agree_def fd_isfree_def)
  with ag fd_okD(3-5) [OF ok free] show ?thesis
    by (auto simp: flist.agree_def FileDescArr_isValid_def FD_FIXED_PART_def FD_ARRAY_LENGTH_def)
qed

theorem descriptors_invariant_witness:
  "\<exists>t. calls sample_ops sample_sys t \<and> distinct (Stack_list (freeFDs (fds t)))"
proof -
  have "fds sample_sys = FileDescArr_new" by (simp add: sample_sys_def)
  moreover have "sys_close sample_ops 1 sample_sys = Some (Inr (-1, sample_sys))"
    by (simp add: sys_close_def)
  then have "call sample_ops sample_sys (-1) sample_sys"
    by (rule call_close [rotated 2]) simp_all
  then have "calls sample_ops sample_sys sample_sys"
    by (rule calls_more [OF calls_none])
  ultimately show ?thesis
    using descriptors_invariant [of sample_sys sample_ops sample_sys] by blast
qed

text \<open>
  C30: a descriptor that \<open>open\<close> returns is between 2 and 127, was free before and has the
  file now; the other descriptors from 2 on are as before. Closing it later succeeds at most
  by giving back exactly the free descriptors there were before.
\<close>

theorem open_then_close:
  assumes "fd_ok (fds s)" and "sys_open ops path s = Some (Inr (r, t))" and "r \<noteq> -1"
  shows "2 \<le> r \<and> r < 128 \<and> fd_isfree (fds s) (nat r) \<and> FileDescArr_isValid (nat r) (fds t) \<and>
    (\<forall>j. 2 \<le> j \<and> j \<noteq> nat r \<longrightarrow> content (fds t) ! j = content (fds s) ! j) \<and>
    (\<forall>u. sys_close ops r t = Some (Inr (0, u)) \<longrightarrow>
      fd_isfree (fds u) = fd_isfree (fds s) \<and> (\<forall>j \<ge> 2. content (fds u) ! j = content (fds s) ! j))"
  using assms(2,1)
proof (cases rule: sys_open_cases)
  case (3 i f s1)
  have i: "2 \<le> i" "i < 128"
    using fd_okD(3,5) [OF assms(1) 3(3)] by (simp_all add: FD_FIXED_PART_def FD_ARRAY_LENGTH_def)
  have r: "nat r = i" using 3(1) by simp
  have old: "content (fds s) ! i = None"
    using fd_okD(4) [OF assms(1) 3(3)] .
  have tab: "content (fds t) ! j = (if j = i then Some f else content (fds s) ! j)" if "2 \<le> j" for j
    using 3(2) 3(5) [of j] that by (simp add: same_fds_def FD_FIXED_PART_def)
  have cl: "fd_isfree (fds u) = fd_isfree (fds s) \<and> (\<forall>j \<ge> 2. content (fds u) ! j = content (fds s) ! j)"
    if "sys_close ops r t = Some (Inr (0, u))" for u
  proof -
    have "- 2147483648 \<le> r" "r < 2147483648" using 3(1) i by simp_all
    with that 3(4) show ?thesis
    proof (cases rule: sys_close_cases)
      case 2
      then show ?thesis
        using 3(3,6) r tab old by (auto simp: fun_eq_iff FD_FIXED_PART_def)
    qed simp
  qed
  have "FileDescArr_isValid i (fds t)"
    using fd_isValid_iff [OF 3(4), of i] i tab [OF i(1)] by (simp add: FD_ARRAY_LENGTH_def)
  with i r tab cl 3(1,3) show ?thesis by simp
qed (use assms(3) in simp_all)

theorem open_then_close_witness:
  "\<exists>(k :: (unit, unit) kern) r t. sys_open sample_ops 500000 (sample_proc k) = Some (Inr (r, t)) \<and>
    2 \<le> r \<and> r < 128 \<and> FileDescArr_isValid (nat r) (fds t)"
proof (rule sample_booted [of "()"])
  fix k :: "(unit, unit) kern"
  let ?s = "sample_proc k :: (unit, unit, unit) sys"
  assume b: "booted sample_image 0 12288 300000 k" and p: "path_ok k 500000 [97]"
    and pr: "program sample_image 0 k [97] sample_program"
  have r: "resolve [97] = [47, 97]" by (simp add: resolve_def bytes_def)
  have rt: "fst (route (resolve [97])) = KissFs" by (simp add: r route_def dev_prefix_def)
  have ok: "fd_ok (fds ?s)" "0 < fd_count (fds ?s)"
    by (simp_all add: FileDescArr_new_ok)
  have "program sample_image 0 k (tl (resolve [97])) sample_program" using pr r by simp
  then obtain f k1 where op: "Dispatcher_open sample_ops 500000 k = Some (Inr (Some f, k1))"
    using booted_program [OF b p rt, of sample_program sample_ops] by metis
  obtain i a where al: "FileDescArr_alloc (fds ?s) = (Some i, a)" "fd_isfree (fds ?s) i"
    using FileDescArr_alloc_some [OF ok] by metis
  have "i < 128" using fd_okD(5) [OF ok(1) al(2)] by (simp add: FD_ARRAY_LENGTH_def)
  moreover obtain t where t: "sys_open sample_ops 500000 ?s = Some (Inr (to_int32 i, t))"
    using al op by (simp add: sys_open_def dispatch_open_def)
  moreover have "to_int32 i \<noteq> -1"
    using calculation(1) by (simp add: to_int32_def)
  ultimately show ?thesis
    using open_then_close [OF ok(1)] by meson
qed

subsection \<open>Failing calls of open\<close>

lemma failed_open:
  assumes "fd_ok (fds s)" and "fdInitialized (proc s)" and "validUserPointer path s"
    and "sys_open ops path s = Some (Inr (-1, t))"
  shows "fd_count (fds t) = fd_count (fds s) - 1" and "fdInitialized (proc t)" and "fd_ok (fds t)"
    and "content (fds t) = content (fds s)"
proof -
  have e: "ensureFdInitialized ops s = Some (Inr (True, s))"
    using assms(2) by (simp add: ensureFdInitialized_def)
  have "fd_count (fds t) = fd_count (fds s) - 1 \<and> fdInitialized (proc t) \<and> fd_ok (fds t) \<and> content (fds t) = content (fds s)"
  proof (cases "0 < fd_count (fds s)")
    case False
    then show ?thesis
      using assms e FileDescArr_alloc_none [OF assms(1)] by (auto simp: sys_open_def)
  next
    case True
    then obtain i b where al: "FileDescArr_alloc (fds s) = (Some i, b)" "fd_isfree (fds s) i" "fd_ok b"
      "content b = content (fds s)" "Suc (fd_count b) = fd_count (fds s)"
      by (auto elim: FileDescArr_alloc_some [OF assms(1)])
    have i: "to_int32 i \<noteq> -1"
      using fd_okD(5) [OF assms(1) al(2)] by (simp add: to_int32_def FD_ARRAY_LENGTH_def)
    have "dispatch_open ops path (s\<lparr>proc := (proc s)\<lparr>fileDescs := b\<rparr>\<rparr>) = Some (Inr (None, t))"
      using assms(3,4) e al(1) i by (auto simp: sys_open_def obind_eq_Inr split: if_splits)
    then show ?thesis
      using dispatch_open_proc al assms(2) by fastforce
  qed
  then show "fd_count (fds t) = fd_count (fds s) - 1" and "fdInitialized (proc t)" and "fd_ok (fds t)"
    and "content (fds t) = content (fds s)" by simp_all
qed

text \<open>A sequence of calls of \<open>open\<close> on valid pointers that all fail.\<close>

primrec opens_fail :: "('g, 'd, 'k) devops \<Rightarrow> nat list \<Rightarrow> ('g, 'd, 'k) sys \<Rightarrow> ('g, 'd, 'k) sys \<Rightarrow> bool" where
  "opens_fail ops [] s t \<longleftrightarrow> t = s"
| "opens_fail ops (p # ps) s t \<longleftrightarrow>
     (\<exists>u. validUserPointer p s \<and> sys_open ops p s = Some (Inr (-1, u)) \<and> opens_fail ops ps u t)"

lemma opens_fail_count:
  "opens_fail ops ps s t \<Longrightarrow> fd_ok (fds s) \<Longrightarrow> fdInitialized (proc s) \<Longrightarrow>
   fd_ok (fds t) \<and> fdInitialized (proc t) \<and> fd_count (fds t) = fd_count (fds s) - length ps \<and> content (fds t) = content (fds s)"
proof (induction ps arbitrary: s)
  case (Cons p ps)
  then obtain u where u: "validUserPointer p s" "sys_open ops p s = Some (Inr (-1, u))" "opens_fail ops ps u t" by auto
  from failed_open [OF Cons.prems(2,3) u(1,2)] Cons.IH [OF u(3)] show ?case by simp
qed simp

text \<open>
  C31: a call of \<open>open\<close> that fails loses a descriptor for good. Each one, on a valid pointer
  in a process that has its standard files, takes one descriptor off the free list and opens
  nothing; when as many calls have failed as there were free descriptors, every further
  \<open>open\<close> fails, whatever it is asked for, although no file is open.
\<close>

theorem failing_opens_exhaust:
  assumes "fds s = FileDescArr_new" and "fdInitialized (proc s)" and "opens_fail ops ps s t"
  shows "fd_count (fds t) = 126 - length ps \<and> content (fds t) = content (fds s) \<and>
    (126 \<le> length ps \<longrightarrow> (\<forall>path r u. sys_open ops path t = Some (Inr (r, u)) \<longrightarrow> r = -1))"
proof -
  have ok: "fd_ok (fds s)" "fd_count (fds s) = 126"
    using assms(1) by (simp_all add: FileDescArr_new_ok)
  from opens_fail_count [OF assms(3) ok(1) assms(2)] ok(2)
  have t: "fd_ok (fds t)" "fd_count (fds t) = 126 - length ps" "content (fds t) = content (fds s)"
    by simp_all
  have "r = -1" if "126 \<le> length ps" "sys_open ops path t = Some (Inr (r, u))" for path r u
    using that(2) t(1)
  proof (cases rule: sys_open_cases)
    case (3 i f s1)
    then show ?thesis using that(1) t(2) by simp
  qed simp_all
  with t show ?thesis by blast
qed

lemma sample_open_fails:
  "\<exists>u. sys_open sample_ops 1 sample_sys = Some (Inr (-1, u))"
proof -
  let ?k = "kern sample_sys"
  have ok: "fd_ok (fds sample_sys)" "0 < fd_count (fds sample_sys)"
    by (simp_all add: sample_sys_def FileDescArr_new_ok)
  obtain i a where al: "FileDescArr_alloc (fds sample_sys) = (Some i, a)"
    using FileDescArr_alloc_some [OF ok] by metis
  obtain t0 :: "fs_id option PrefixTree" where t0: "PrefixTree_new None = Inr t0" "tree_inv t0" "entry t0 = Map.empty"
    using new_ok [of None] by blast
  obtain fn k1 where d: "Dispatcher_path 1 ?k = (fn, k1)" by fastforce
  have km: "fn = 1000 \<and> cstring (kmem k1) 1000 [47] \<and> lookup k1 = t0"
  proof -
    have z: "store_bytes (\<lambda>_. 0) 1000 (47 # replicate 69 0) = (\<lambda>a. if a = 1000 then 47 else 0 :: u8)"
      by (auto simp: store_bytes_def fun_eq_iff nth_Cons')
    have "cstring (strncpy (store_bytes (\<lambda>_. 0) 1000 (47 # replicate 69 0)) (1000 + 1) fn' 69) 1000 (47 # [])" if "fn' = 2010 \<or> fn' = 1" for fn'
      by (rule path_buffer(1)) (use that in \<open>auto simp: cstring_def\<close>)
    then show ?thesis
      using d t0(1) z by (auto simp: Dispatcher_path_def Let_def sample_sys_def split: if_splits)
  qed
  have "PrefixTree_search None [47] t0 = Inr \<lparr>val = None, vlen = 1\<rparr>"
    using search_ok [OF t0(2), of "[47]" None] t0(3) by (simp add: longest_match_def matches_def)
  then have "Dispatcher_open sample_ops 1 ?k = Some (Inr (None, k1))"
    using d km strlen_cstring [of "kmem k1" 1000 "[47]"] cstring_load [of "kmem k1" 1000 "[47]"]
    by (simp add: Dispatcher_open_def)
  then show ?thesis
    using al by (simp add: sys_open_def dispatch_open_def sample_sys_def)
qed

theorem failing_opens_exhaust_witness:
  "\<exists>t. opens_fail sample_ops [1] sample_sys t \<and> fd_count (fds t) = 125"
proof -
  obtain u where u: "sys_open sample_ops 1 sample_sys = Some (Inr (-1, u))"
    using sample_open_fails by blast
  have "validUserPointer 1 sample_sys"
    by (simp add: sample_sys_def)
  with u have "opens_fail sample_ops [1] sample_sys u" by simp
  with failing_opens_exhaust [OF _ _ this] show ?thesis
    by (auto simp: sample_sys_def)
qed

end
