(* ===== verification/UProg.thy ===== *)
theory UProg
  imports ULib KFiles
begin

text \<open>
  User programs of src/syscalls: cat, ls, the shell, hello, counter, testprint, pingpong and
  testfault. A program runs on a state \<open>'s\<close> that contains its memory; the system calls are the
  record \<open>os\<close>, with the arguments and results they have in ece391syscall.h, and the address the
  compiler gives a string literal is \<open>lit\<close>. The addresses of local arrays are arguments.

  The result is \<open>None\<close> for a run that does not end and \<open>Inl\<close> for a fault. A program that
  returns from \<open>main\<close> returns its exit status.
\<close>

subsection \<open>System calls and sequencing\<close>

type_synonym ('a, 's) prog = "'s \<Rightarrow> ('a \<times> 's) kresult option"

record 's os =
  umem :: "'s \<Rightarrow> mem"
  set_umem :: "mem \<Rightarrow> 's \<Rightarrow> 's"
  lit :: "u8 list \<Rightarrow> nat"
  ece391_halt :: "int \<Rightarrow> (int, 's) prog"
  ece391_execute :: "nat \<Rightarrow> (int, 's) prog"
  ece391_read :: "int \<Rightarrow> nat \<Rightarrow> int \<Rightarrow> (int, 's) prog"
  ece391_write :: "int \<Rightarrow> nat \<Rightarrow> int \<Rightarrow> (int, 's) prog"
  ece391_open :: "nat \<Rightarrow> (int, 's) prog"
  ece391_close :: "int \<Rightarrow> (int, 's) prog"
  ece391_getargs :: "nat \<Rightarrow> int \<Rightarrow> (int, 's) prog"
  ece391_vidmap :: "nat \<Rightarrow> (int, 's) prog"
  ece391_call :: "int \<Rightarrow> (int, 's) prog"

definition ret :: "'a \<Rightarrow> ('a, 's) prog" where
  "ret x s = Some (Inr (x, s))"

definition bnd :: "('a, 's) prog \<Rightarrow> ('a \<Rightarrow> ('b, 's) prog) \<Rightarrow> ('b, 's) prog" where
  "bnd p f s = (case p s of None \<Rightarrow> None | Some (Inl e) \<Rightarrow> Some (Inl e) | Some (Inr (x, s1)) \<Rightarrow> f x s1)"

lemma bnd_ret [simp]: "bnd (ret x) f s = f x s"
  by (simp add: bnd_def ret_def)

lemma bnd_mono [partial_function_mono]:
  assumes "\<And>x s1. mono_option (\<lambda>f. C f x s1)"
  shows "mono_option (\<lambda>f. bnd p (\<lambda>x s1. C f x s1) s)"
proof (cases "p s")
  case (Some r)
  then show ?thesis
    using assms by (cases r) (auto simp: bnd_def monotone_def flat_ord_def)
qed (simp add: bnd_def monotone_def flat_ord_def)

text \<open>Memory accesses of the program, and the library functions on its memory.\<close>

definition peek :: "'s os \<Rightarrow> nat \<Rightarrow> (u8, 's) prog" where
  "peek os a s = ret (umem os s a) s"

definition poke :: "'s os \<Rightarrow> nat \<Rightarrow> u8 \<Rightarrow> (unit, 's) prog" where
  "poke os a v s = ret () (set_umem os ((umem os s)(a := v)) s)"

definition addr :: "nat \<Rightarrow> int \<Rightarrow> nat" where
  "addr buf i = nat (int buf + i)"

definition ustrlen :: "'s os \<Rightarrow> nat \<Rightarrow> (nat, 's) prog" where
  "ustrlen os p s = (case ece391_strlen (umem os s) p of None \<Rightarrow> None | Some n \<Rightarrow> ret n s)"

definition ustrcmp :: "'s os \<Rightarrow> nat \<Rightarrow> nat \<Rightarrow> (int, 's) prog" where
  "ustrcmp os p q s = (case ece391_strcmp (umem os s) p q of None \<Rightarrow> None | Some r \<Rightarrow> ret r s)"

definition ustrcpy :: "'s os \<Rightarrow> nat \<Rightarrow> nat \<Rightarrow> (unit, 's) prog" where
  "ustrcpy os p q s = (case ece391_strcpy (umem os s) p q of None \<Rightarrow> None | Some m \<Rightarrow> ret () (set_umem os m s))"

definition uitoa :: "'s os \<Rightarrow> nat \<Rightarrow> nat \<Rightarrow> nat \<Rightarrow> (unit, 's) prog" where
  "uitoa os n buf radix s =
     (case ece391_itoa n (umem os s) buf radix of
        None \<Rightarrow> None | Some (Inl e) \<Rightarrow> Some (Inl e) | Some (Inr m) \<Rightarrow> ret () (set_umem os m s))"

definition ece391_fdputs :: "'s os \<Rightarrow> int \<Rightarrow> nat \<Rightarrow> (unit, 's) prog" where
  "ece391_fdputs os fd p = bnd (ustrlen os p) (\<lambda>n. bnd (ece391_write os fd p (to_int32 n)) (\<lambda>_. ret ()))"

text \<open>Printing a literal.\<close>

definition say :: "'s os \<Rightarrow> u8 list \<Rightarrow> (unit, 's) prog" where
  "say os msg = ece391_fdputs os 1 (lit os msg)"

definition line :: "string \<Rightarrow> u8 list" where
  "line msg = bytes msg @ [10]"

subsection \<open>cat\<close>

partial_function (option) cat_loop :: "'s os \<Rightarrow> int \<Rightarrow> nat \<Rightarrow> 's \<Rightarrow> (int \<times> 's) kresult option" where
  [code]: "cat_loop os fd buf s =
     bnd (ece391_read os fd buf 1024) (\<lambda>cnt s1.
       if cnt = 0 then ret 0 s1
       else if cnt = -1 then bnd (say os (line ''file read failed'')) (\<lambda>_. ret 3) s1
       else bnd (ece391_write os 1 buf cnt) (\<lambda>r s2.
         if r = -1 then ret 3 s2 else cat_loop os fd buf s2) s1) s"

definition cat_main :: "'s os \<Rightarrow> nat \<Rightarrow> (int, 's) prog" where
  "cat_main os buf =
     bnd (ece391_getargs os buf 1024) (\<lambda>r.
       if r \<noteq> 0 then bnd (say os (line ''could not read arguments'')) (\<lambda>_. ret 3)
       else bnd (ece391_open os buf) (\<lambda>fd.
         if fd = -1 then bnd (say os (line ''file not found'')) (\<lambda>_. ret 2)
         else cat_loop os fd buf))"

subsection \<open>ls\<close>

definition ls_SBUFSIZE :: int where "ls_SBUFSIZE = 33"

partial_function (option) ls_loop :: "'s os \<Rightarrow> int \<Rightarrow> nat \<Rightarrow> 's \<Rightarrow> (int \<times> 's) kresult option" where
  [code]: "ls_loop os fd buf s =
     bnd (ece391_read os fd buf (ls_SBUFSIZE - 1)) (\<lambda>cnt s1.
       if cnt = 0 then ret 0 s1
       else if cnt = -1 then bnd (say os (line ''directory entry read failed'')) (\<lambda>_. ret 3) s1
       else bnd (poke os (addr buf cnt) 10) (\<lambda>_ s2.
         bnd (ece391_write os 1 buf (cnt + 1)) (\<lambda>r s3.
           if r = -1 then ret 3 s3 else ls_loop os fd buf s3) s2) s1) s"

definition ls_main :: "'s os \<Rightarrow> nat \<Rightarrow> (int, 's) prog" where
  "ls_main os buf =
     bnd (ece391_open os (lit os (bytes ''.''))) (\<lambda>fd.
       if fd = -1 then bnd (say os (line ''directory open failed'')) (\<lambda>_. ret 2)
       else ls_loop os fd buf)"

subsection \<open>The shell\<close>

partial_function (option) shell_loop :: "'s os \<Rightarrow> nat \<Rightarrow> 's \<Rightarrow> (int \<times> 's) kresult option" where
  [code]: "shell_loop os buf s =
     bnd (say os (bytes ''391OS> '')) (\<lambda>_ s0.
       bnd (ece391_read os 0 buf 1023) (\<lambda>cnt s1.
         if cnt = -1 then bnd (say os (line ''read from keyboard failed'')) (\<lambda>_. ret 3) s1
         else bnd (peek os (addr buf (cnt - 1))) (\<lambda>c s2.
           bnd (poke os (addr buf (if cnt > 0 \<and> c = 10 then cnt - 1 else cnt)) 0) (\<lambda>_ s3.
             bnd (ustrcmp os buf (lit os (bytes ''exit''))) (\<lambda>d s4.
               if d = 0 then ret 0 s4
               else bnd (peek os buf) (\<lambda>b s5.
                 if b = 0 then shell_loop os buf s5
                 else bnd (ece391_execute os buf) (\<lambda>rval s6.
                   bnd (if rval = -1 then say os (line ''no such command'')
                        else if rval = 256 then say os (line ''program terminated by exception'')
                        else if rval \<noteq> 0 then say os (line ''program terminated abnormally'')
                        else ret ()) (\<lambda>_ s7. shell_loop os buf s7) s6) s5) s4) s3) s2) s1) s0) s"

definition shell_main :: "'s os \<Rightarrow> nat \<Rightarrow> (int, 's) prog" where
  "shell_main os buf = bnd (say os (line ''Starting 391 Shell'')) (\<lambda>_. shell_loop os buf)"

subsection \<open>hello, testprint, counter and testfault\<close>

definition hello_main :: "'s os \<Rightarrow> nat \<Rightarrow> (int, 's) prog" where
  "hello_main os buf =
     bnd (say os (bytes ''Hi, what'' @ [39] @ bytes ''s your name? '')) (\<lambda>_.
     bnd (ece391_read os 0 buf 1023) (\<lambda>cnt.
       if cnt = -1 then bnd (say os (bytes ''Can'' @ [39] @ line ''t read name from keyboard.'')) (\<lambda>_. ret 3)
       else bnd (poke os (addr buf cnt) 0) (\<lambda>_.
         bnd (say os (bytes ''Hello, '')) (\<lambda>_.
         bnd (ece391_fdputs os 1 buf) (\<lambda>_. ret 0)))))"

definition testprint_main :: "'s os \<Rightarrow> (int, 's) prog" where
  "testprint_main os = bnd (say os (line ''Hello, if this ran, the program was correct. Yay!'')) (\<lambda>_. ret 0)"

text \<open>The loop of counter over the numbers that are left.\<close>

fun count_loop :: "'s os \<Rightarrow> nat \<Rightarrow> nat list \<Rightarrow> (int, 's) prog" where
  "count_loop os buf [] = ret 0"
| "count_loop os buf (i # is) =
     bnd (uitoa os (i + 1) buf 10) (\<lambda>_.
     bnd (ece391_fdputs os 1 buf) (\<lambda>_.
     bnd (say os [10]) (\<lambda>_. count_loop os buf is)))"

text \<open>The test of the number that is typed in, as in counter and testfault.\<close>

definition wrong_choice :: "'s os \<Rightarrow> nat \<Rightarrow> (bool, 's) prog" where
  "wrong_choice os buf =
     bnd (ustrlen os buf) (\<lambda>n. bnd (peek os buf) (\<lambda>c. ret (n > 2 \<or> n = 2 \<and> (c < 48 \<or> c > 50))))"

definition counter_max :: "u8 \<Rightarrow> nat" where
  "counter_max c = (if c = 48 then 100 else if c = 49 then 10000 else if c = 50 then 100000 else 0)"

definition counter_main :: "'s os \<Rightarrow> nat \<Rightarrow> (int, 's) prog" where
  "counter_main os buf =
     bnd (say os (line ''Enter the Test Number: (0): 100, (1): 10000, (2): 100000'')) (\<lambda>_.
     bnd (ece391_read os 0 buf 1023) (\<lambda>cnt.
       if cnt = -1 then bnd (say os (bytes ''Can'' @ [39] @ line ''t read the number from keyboard.'')) (\<lambda>_. ret 3)
       else bnd (poke os (addr buf cnt) 0) (\<lambda>_.
         bnd (wrong_choice os buf) (\<lambda>wrong.
           if wrong then bnd (say os (line ''Wrong Choice!'')) (\<lambda>_. ret 0)
           else bnd (peek os buf) (\<lambda>c. count_loop os buf [0..<counter_max c])))))"

text \<open>The two tests divide by zero (exception 0) and write through the null pointer (exception 14).\<close>

definition testfault_main :: "'s os \<Rightarrow> nat \<Rightarrow> (int, 's) prog" where
  "testfault_main os buf =
     bnd (say os (line ''Enter the Test Number: (0): Div by 0, (1): Deref NULL, (2): ???'')) (\<lambda>_.
     bnd (ece391_read os 0 buf 999) (\<lambda>cnt.
       if cnt = -1 then bnd (say os (bytes ''Can'' @ [39] @ line ''t read the number from keyboard.'')) (\<lambda>_. ret 3)
       else bnd (poke os (addr buf cnt) 0) (\<lambda>_.
         bnd (wrong_choice os buf) (\<lambda>wrong.
           if wrong then bnd (say os (line ''Wrong Choice!'')) (\<lambda>_. ret 0)
           else bnd (peek os buf) (\<lambda>c s.
             if c = 48 then Some (Inl (Trap 0))
             else if c = 49 then Some (Inl (Trap 14))
             else ret 0 s)))))"

end
