(* ===== verification/UTests.thy ===== *)
theory UTests
  imports UProg
begin

text \<open>
  The test programs of src/syscalls and src/userland: syserr, pingpong and testrtc. The
  functions of syserr return 0 for a pass and 2 for a failure, like the source.
\<close>

subsection \<open>syserr\<close>

definition NEG_FD :: int where "NEG_FD = -1073741823"
definition BIG_FD :: int where "BIG_FD = 1073741823"
definition BIG_NUM :: int where "BIG_NUM = 1073741823"
definition NEG_NUM :: int where "NEG_NUM = -1073741823"

definition call_sys :: "'s os \<Rightarrow> int \<Rightarrow> (int, 's) prog" where
  "call_sys os num = ece391_call os num"

text \<open>One test: the call must return -1, otherwise a message is printed and \<open>fail\<close> is 2.\<close>

definition expect :: "'s os \<Rightarrow> (int, 's) prog \<Rightarrow> u8 list \<Rightarrow> int \<Rightarrow> (int, 's) prog" where
  "expect os p msg fail = bnd p (\<lambda>r. if r \<noteq> -1 then bnd (say os msg) (\<lambda>_. ret 2) else ret fail)"

text \<open>The verdict of a test function.\<close>

definition verdict :: "'s os \<Rightarrow> string \<Rightarrow> int \<Rightarrow> (int, 's) prog" where
  "verdict os name fail =
     bnd (say os (bytes name @ (if fail \<noteq> 0 then line '': FAIL'' else line '': PASS''))) (\<lambda>_. ret fail)"

definition err_neg_fd :: "'s os \<Rightarrow> nat \<Rightarrow> (int, 's) prog" where
  "err_neg_fd os buf =
     bnd (expect os (ece391_read os NEG_FD buf 31) (line ''read fail'') 0) (\<lambda>fail.
     bnd (expect os (ece391_write os NEG_FD buf 31) (line ''write fail'') fail) (\<lambda>fail.
     bnd (expect os (ece391_close os NEG_FD) (line ''close fail'') fail) (\<lambda>fail.
     verdict os ''err_neg_fd'' fail)))"

definition err_big_fd :: "'s os \<Rightarrow> nat \<Rightarrow> (int, 's) prog" where
  "err_big_fd os buf =
     bnd (expect os (ece391_read os BIG_FD buf 31) (line ''read fail'') 0) (\<lambda>fail.
     bnd (expect os (ece391_write os BIG_FD buf 31) (line ''write fail'') fail) (\<lambda>fail.
     bnd (expect os (ece391_close os BIG_FD) (line ''close fail'') fail) (\<lambda>fail.
     verdict os ''err_big_fd'' fail)))"

primrec open_lots :: "'s os \<Rightarrow> nat \<Rightarrow> int \<Rightarrow> (int, 's) prog" where
  "open_lots os 0 cnt = ret cnt"
| "open_lots os (Suc n) cnt =
     bnd (ece391_open os (lit os (bytes ''.''))) (\<lambda>r. open_lots os n (if r = -1 then cnt + 1 else cnt))"

fun close_all :: "'s os \<Rightarrow> nat list \<Rightarrow> (unit, 's) prog" where
  "close_all os [] = ret ()"
| "close_all os (i # is) = bnd (ece391_close os (int i)) (\<lambda>_. close_all os is)"

definition err_open_lots :: "'s os \<Rightarrow> (int, 's) prog" where
  "err_open_lots os =
     bnd (open_lots os 7 0) (\<lambda>cnt.
     bnd (close_all os [2..<8]) (\<lambda>_.
       if cnt = 1 then bnd (say os (line ''err_open_lots: PASS'')) (\<lambda>_. ret 0)
       else bnd (say os (line ''err_open_lots: FAIL'')) (\<lambda>_. ret 2)))"

definition err_open :: "'s os \<Rightarrow> (int, 's) prog" where
  "err_open os =
     bnd (expect os (ece391_open os (lit os (bytes ''helloo''))) ([39] @ bytes ''helloo'' @ [39] @ line '' fail'') 0) (\<lambda>fail.
     bnd (expect os (ece391_open os (lit os (bytes ''shel''))) ([39] @ bytes ''shel'' @ [39] @ line '' fail'') fail) (\<lambda>fail.
     bnd (expect os (ece391_open os (lit os [])) (line ''empty string fail'') fail) (\<lambda>fail.
     verdict os ''err_open'' fail)))"

fun expect_all :: "'s os \<Rightarrow> (nat \<Rightarrow> (int, 's) prog) \<Rightarrow> u8 list \<Rightarrow> nat list \<Rightarrow> int \<Rightarrow> (int, 's) prog" where
  "expect_all os p msg [] fail = ret fail"
| "expect_all os p msg (i # is) fail = bnd (expect os (p i) msg fail) (\<lambda>fail. expect_all os p msg is fail)"

definition err_unopened :: "'s os \<Rightarrow> nat \<Rightarrow> (int, 's) prog" where
  "err_unopened os buf =
     bnd (expect_all os (\<lambda>i. ece391_close os (int i)) (line ''close unopened or invalid fd fail'') [0..<8] 0) (\<lambda>fail.
     bnd (expect_all os (\<lambda>i. ece391_read os (int i) buf 31) (line ''read from unopened fd fail'') [2..<8] fail) (\<lambda>fail.
     bnd (expect_all os (\<lambda>i. ece391_write os (int i) buf 31) (line ''write to unopened fd fail'') [2..<8] fail) (\<lambda>fail.
     verdict os ''err_unopened'' fail)))"

definition err_vidmap :: "'s os \<Rightarrow> (int, 's) prog" where
  "err_vidmap os =
     bnd (expect os (ece391_vidmap os 0) (line ''Null pointer fail'') 0) (\<lambda>fail.
     bnd (expect os (ece391_vidmap os 0x400000) (line ''Kernel pointer fail fail'') fail) (\<lambda>fail.
     verdict os ''err_vidmap'' fail))"

definition err_stdin_out :: "'s os \<Rightarrow> nat \<Rightarrow> (int, 's) prog" where
  "err_stdin_out os buf =
     bnd (expect os (ece391_write os 0 buf 31) (line ''write to stdin fail'') 0) (\<lambda>fail.
     bnd (expect os (ece391_read os 1 buf 31) (line ''read from stdout fail'') fail) (\<lambda>fail.
     verdict os ''err_stdin_out'' fail))"

definition err_syscall_num :: "'s os \<Rightarrow> (int, 's) prog" where
  "err_syscall_num os =
     bnd (expect os (call_sys os BIG_NUM) (line ''syscall 0 fail'') 0) (\<lambda>fail.
     bnd (expect os (call_sys os NEG_NUM) (line ''big num syscall fail'') fail) (\<lambda>fail.
     bnd (expect os (call_sys os 0) (line ''neg num syscall fail'') fail) (\<lambda>fail.
     verdict os ''err_syscall_num'' fail)))"

text \<open>\<open>main\<close>: \<open>buf\<close> and \<open>tbuf\<close> are the arrays of \<open>main\<close> and of the test functions.\<close>

definition run_all :: "'s os \<Rightarrow> nat \<Rightarrow> (int, 's) prog" where
  "run_all os tbuf =
     bnd (err_neg_fd os tbuf) (\<lambda>f1. bnd (err_big_fd os tbuf) (\<lambda>f2. bnd (err_open_lots os) (\<lambda>f3.
     bnd (err_open os) (\<lambda>f4. bnd (err_unopened os tbuf) (\<lambda>f5. bnd (err_vidmap os) (\<lambda>f6.
     bnd (err_stdin_out os tbuf) (\<lambda>f7. bnd (err_syscall_num os) (\<lambda>f8.
       let fail = f1 + f2 + f3 + f4 + f5 + f6 + f7 + f8
       in bnd (say os ([10] @ (if fail \<noteq> 0 then line ''Overall Tests: FAIL'' else line ''Overall Tests: PASS'')))
            (\<lambda>_. ret fail)))))))))"

definition syserr_main :: "'s os \<Rightarrow> nat \<Rightarrow> nat \<Rightarrow> (int, 's) prog" where
  "syserr_main os buf tbuf =
     bnd (say os (bytes ''Choose from tests 1-8. 0 to run all: '')) (\<lambda>_.
     bnd (ece391_read os 0 buf 127) (\<lambda>cnt.
       if cnt = -1 then bnd (say os (bytes ''Can'' @ [39] @ line ''t read test #'')) (\<lambda>_. ret 2)
       else bnd (peek os buf) (\<lambda>c.
         let select = int (unat c) - 48 in
         if select = 0 then run_all os tbuf
         else if select = 1 then err_neg_fd os tbuf
         else if select = 2 then err_big_fd os tbuf
         else if select = 3 then err_open_lots os
         else if select = 4 then err_open os
         else if select = 5 then err_unopened os tbuf
         else if select = 6 then err_vidmap os
         else if select = 7 then err_stdin_out os tbuf
         else if select = 8 then err_syscall_num os
         else bnd (say os (bytes ''Invalid test number. Choose from tests 1-8 or 0'')) (\<lambda>_. ret 0))))"

subsection \<open>pingpong\<close>

definition SCREENWIDTH :: nat where "SCREENWIDTH = 79"
definition ENDING :: nat where "ENDING = 2"
definition BUFMAX :: nat where "BUFMAX = SCREENWIDTH + ENDING"
definition START :: nat where "START = 1"
definition STARTLOOP :: nat where "STARTLOOP = START + 1"
definition LOOPMAX :: nat where "LOOPMAX = SCREENWIDTH + ENDING - ENDING - 1"
definition STARTCHAR :: u8 where "STARTCHAR = 65"
definition ENDCHAR :: u8 where "ENDCHAR = 90"

fun fill_buf :: "'s os \<Rightarrow> nat \<Rightarrow> u8 \<Rightarrow> nat list \<Rightarrow> (unit, 's) prog" where
  "fill_buf os buf c [] = ret ()"
| "fill_buf os buf c (i # is) = bnd (poke os (buf + i) c) (\<lambda>_. fill_buf os buf c is)"

definition draw_walls :: "'s os \<Rightarrow> nat \<Rightarrow> (unit, 's) prog" where
  "draw_walls os buf =
     bnd (fill_buf os buf 32 [0..<BUFMAX]) (\<lambda>_.
     bnd (poke os (buf + BUFMAX - 1) 0) (\<lambda>_.
     bnd (poke os (buf + BUFMAX - 2) 10) (\<lambda>_.
     bnd (poke os (buf + BUFMAX - 3) 124) (\<lambda>_.
     poke os (buf + START) 124))))"

text \<open>A four byte variable on the stack, and setting the frequency of the clock.\<close>

definition poke32 :: "'s os \<Rightarrow> nat \<Rightarrow> int \<Rightarrow> (unit, 's) prog" where
  "poke32 os a n s = ret () (set_umem os (store_bytes (umem os s) a (map (\<lambda>i. of_nat (to_size n div 256 ^ i)) [0..<4])) s)"

definition set_rate :: "'s os \<Rightarrow> nat \<Rightarrow> int \<Rightarrow> int \<Rightarrow> (unit, 's) prog" where
  "set_rate os var fd n =
     bnd (poke32 os var n) (\<lambda>_. bnd (ece391_write os fd var 4) (\<lambda>_. ret ()))"

text \<open>One picture: the inside of the line is cleared, the character drawn, and a tick awaited.\<close>

definition picture :: "'s os \<Rightarrow> nat \<Rightarrow> nat \<Rightarrow> int \<Rightarrow> u8 \<Rightarrow> nat \<Rightarrow> (unit, 's) prog" where
  "picture os buf garbage rtc curchar j =
     bnd (fill_buf os buf 32 [STARTLOOP..<LOOPMAX]) (\<lambda>_.
     bnd (poke os (buf + j) curchar) (\<lambda>_.
     bnd (ece391_fdputs os 1 buf) (\<lambda>_.
     bnd (ece391_read os rtc garbage 4) (\<lambda>_. ret ()))))"

fun pictures :: "'s os \<Rightarrow> nat \<Rightarrow> nat \<Rightarrow> int \<Rightarrow> u8 \<Rightarrow> nat list \<Rightarrow> (unit, 's) prog" where
  "pictures os buf garbage rtc c [] = ret ()"
| "pictures os buf garbage rtc c (j # js) =
     bnd (picture os buf garbage rtc c j) (\<lambda>_. pictures os buf garbage rtc c js)"

definition next_char :: "u8 \<Rightarrow> u8" where
  "next_char c = (if c = ENDCHAR then STARTCHAR else c + 1)"

partial_function (option) pingpong_loop ::
  "'s os \<Rightarrow> nat \<Rightarrow> nat \<Rightarrow> int \<Rightarrow> u8 \<Rightarrow> 's \<Rightarrow> (int \<times> 's) kresult option" where
  [code]: "pingpong_loop os buf garbage rtc c s =
     bnd (pictures os buf garbage rtc c [STARTLOOP..<LOOPMAX]) (\<lambda>_ s1.
       bnd (pictures os buf garbage rtc c (rev [STARTLOOP..<LOOPMAX])) (\<lambda>_ s2.
         pingpong_loop os buf garbage rtc (next_char c) s2) s1) s"

definition pingpong_main :: "'s os \<Rightarrow> nat \<Rightarrow> nat \<Rightarrow> nat \<Rightarrow> (int, 's) prog" where
  "pingpong_main os buf ret_val garbage =
     bnd (draw_walls os buf) (\<lambda>_.
     bnd (ece391_open os (lit os (bytes ''rtc''))) (\<lambda>rtc.
     bnd (set_rate os ret_val rtc 32) (\<lambda>_.
     pingpong_loop os buf garbage rtc STARTCHAR)))"

subsection \<open>testrtc\<close>

text \<open>
  The variables of \<open>main\<close> that \<open>can_change_speed\<close> changes; \<open>speed\<close> itself is also in memory, at
  the address that \<open>write\<close> gets. The other definitions are those of pingpong.
\<close>

record rtc_vars =
  rcounter :: nat
  rspeed :: int
  empty_char :: u8

definition can_change_speed :: "'s os \<Rightarrow> nat \<Rightarrow> int \<Rightarrow> rtc_vars \<Rightarrow> (rtc_vars, 's) prog" where
  "can_change_speed os speed rtc v =
     (let v1 = v\<lparr>rcounter := rcounter v + 1\<rparr> in
      if rcounter v1 mod 20 = 0 then
        let v2 = (if rspeed v1 = 8 then v1\<lparr>rspeed := 32, empty_char := 32\<rparr> else v1\<lparr>rspeed := 8, empty_char := 45\<rparr>)
        in bnd (set_rate os speed rtc (rspeed v2)) (\<lambda>_. ret v2)
      else ret v1)"

definition rtc_picture :: "'s os \<Rightarrow> nat \<Rightarrow> nat \<Rightarrow> nat \<Rightarrow> int \<Rightarrow> u8 \<Rightarrow> rtc_vars \<Rightarrow> nat \<Rightarrow> (rtc_vars, 's) prog" where
  "rtc_picture os buf speed garbage rtc curchar v j =
     bnd (fill_buf os buf (empty_char v) [STARTLOOP..<LOOPMAX]) (\<lambda>_.
     bnd (can_change_speed os speed rtc v) (\<lambda>v1.
     bnd (poke os (buf + j) curchar) (\<lambda>_.
     bnd (ece391_fdputs os 1 buf) (\<lambda>_.
     bnd (ece391_read os rtc garbage 4) (\<lambda>_. ret v1)))))"

fun rtc_pictures :: "'s os \<Rightarrow> nat \<Rightarrow> nat \<Rightarrow> nat \<Rightarrow> int \<Rightarrow> u8 \<Rightarrow> rtc_vars \<Rightarrow> nat list \<Rightarrow> (rtc_vars, 's) prog" where
  "rtc_pictures os buf speed garbage rtc c v [] = ret v"
| "rtc_pictures os buf speed garbage rtc c v (j # js) =
     bnd (rtc_picture os buf speed garbage rtc c v j) (\<lambda>v1. rtc_pictures os buf speed garbage rtc c v1 js)"

partial_function (option) testrtc_loop ::
  "'s os \<Rightarrow> nat \<Rightarrow> nat \<Rightarrow> nat \<Rightarrow> int \<Rightarrow> u8 \<Rightarrow> rtc_vars \<Rightarrow> 's \<Rightarrow> (int \<times> 's) kresult option" where
  [code]: "testrtc_loop os buf speed garbage rtc c v s =
     bnd (rtc_pictures os buf speed garbage rtc c v [STARTLOOP..<LOOPMAX]) (\<lambda>v1 s1.
       bnd (rtc_pictures os buf speed garbage rtc c v1 (rev [STARTLOOP..<LOOPMAX])) (\<lambda>v2 s2.
         testrtc_loop os buf speed garbage rtc (next_char c) v2 s2) s1) s"

definition testrtc_main :: "'s os \<Rightarrow> nat \<Rightarrow> nat \<Rightarrow> nat \<Rightarrow> nat \<Rightarrow> (int, 's) prog" where
  "testrtc_main os buf ret_val speed garbage =
     bnd (draw_walls os buf) (\<lambda>_.
     bnd (ece391_open os (lit os (bytes ''rtc''))) (\<lambda>rtc.
     bnd (set_rate os ret_val rtc 32) (\<lambda>_.
     testrtc_loop os buf speed garbage rtc STARTCHAR \<lparr>rcounter = 0, rspeed = 8, empty_char = 32\<rparr>)))"

end
