(* ===== verification/UGrep.thy ===== *)
theory UGrep
  imports UProg
begin

text \<open>
  The program grep of src/syscalls, and fish of src/fish. Numbers of the source that can be
  negative are integers; \<open>addr a i\<close> is the address of \<open>a[i]\<close>.
\<close>

subsection \<open>grep\<close>

definition BUFSIZE :: int where "BUFSIZE = 1024"
definition grep_SBUFSIZE :: int where "grep_SBUFSIZE = 33"

text \<open>The end of the line: the next newline, or the end of the data.\<close>

function find_eol :: "mem \<Rightarrow> nat \<Rightarrow> int \<Rightarrow> int \<Rightarrow> int" where
  "find_eol m buf line_end last_i =
     (if line_end < last_i \<and> m (addr buf line_end) \<noteq> 10 then find_eol m buf (line_end + 1) last_i else line_end)"
  by pat_completeness auto
termination by (relation "measure (\<lambda>(m, buf, line_end, last_i). nat (last_i - line_end))") auto

declare find_eol.simps [simp del]

text \<open>The search of one line, which prints it at the first match.\<close>

function grep_match :: "'s os \<Rightarrow> nat \<Rightarrow> nat \<Rightarrow> nat \<Rightarrow> nat \<Rightarrow> int \<Rightarrow> int \<Rightarrow> int \<Rightarrow> 's \<Rightarrow> (unit \<times> 's) kresult option" where
  "grep_match os str s_len fname buf line_start check line_end s =
     (if check < line_end then
        if umem os s str = umem os s (addr buf check) \<and> ece391_strncmp (umem os s) (addr buf check) str s_len = 0
        then bnd (ece391_fdputs os 1 fname) (\<lambda>_.
             bnd (say os (bytes '':'')) (\<lambda>_.
             bnd (ece391_fdputs os 1 (addr buf line_start)) (\<lambda>_.
             say os [10]))) s
        else grep_match os str s_len fname buf line_start (check + 1) line_end s
      else ret () s)"
  by pat_completeness auto
termination by (relation "measure (\<lambda>(os, str, s_len, fname, buf, line_start, check, line_end, s). nat (line_end - check))") auto

declare grep_match.simps [simp del]

text \<open>The loop over the lines in the buffer; it returns the new value of \<open>last\<close>.\<close>

partial_function (option) grep_lines ::
  "'s os \<Rightarrow> nat \<Rightarrow> nat \<Rightarrow> nat \<Rightarrow> nat \<Rightarrow> int \<Rightarrow> int \<Rightarrow> int \<Rightarrow> 's \<Rightarrow> (int \<times> 's) kresult option" where
  [code]: "grep_lines os str s_len fname buf cnt last_i line_start s =
     (let line_end = find_eol (umem os s) buf line_start last_i in
      bnd (peek os (addr buf line_end)) (\<lambda>c s1.
        if c \<noteq> 10 \<and> cnt \<noteq> 0 \<and> line_start \<noteq> 0 then
          bnd (poke os (addr buf line_end) 0) (\<lambda>_.
          bnd (ustrcpy os buf (addr buf line_start)) (\<lambda>_. ret (last_i - line_start))) s1
        else
          bnd (poke os (addr buf line_end) 0) (\<lambda>_ s2.
          bnd (grep_match os str s_len fname buf line_start line_start line_end) (\<lambda>_ s3.
            if line_end + 1 \<ge> last_i then ret 0 s3
            else grep_lines os str s_len fname buf cnt last_i (line_end + 1) s3) s2) s1) s)"

partial_function (option) grep_read ::
  "'s os \<Rightarrow> nat \<Rightarrow> nat \<Rightarrow> nat \<Rightarrow> nat \<Rightarrow> int \<Rightarrow> int \<Rightarrow> 's \<Rightarrow> (int \<times> 's) kresult option" where
  [code]: "grep_read os str s_len fname buf fd last_i s =
     bnd (ece391_read os fd (addr buf last_i) (BUFSIZE - last_i)) (\<lambda>cnt s1.
       if cnt = -1 then bnd (say os (line ''file read failed'')) (\<lambda>_. ret (-1)) s1
       else bnd (grep_lines os str s_len fname buf cnt (last_i + cnt) 0) (\<lambda>last1 s2.
         if cnt = 0 then ret 0 s2 else grep_read os str s_len fname buf fd last1 s2) s1) s"

definition do_one_file :: "'s os \<Rightarrow> nat \<Rightarrow> nat \<Rightarrow> nat \<Rightarrow> (int, 's) prog" where
  "do_one_file os buf str fname =
     bnd (ustrlen os str) (\<lambda>s_len.
     bnd (ece391_open os fname) (\<lambda>fd.
       if fd = -1 then bnd (say os (line ''file open failed'')) (\<lambda>_. ret (-1))
       else bnd (grep_read os str s_len fname buf fd 0) (\<lambda>r.
         if r = -1 then ret (-1)
         else bnd (ece391_close os fd) (\<lambda>c.
           if c = -1 then bnd (say os (line ''file close failed'')) (\<lambda>_. ret (-1)) else ret 0))))"

partial_function (option) grep_loop :: "'s os \<Rightarrow> nat \<Rightarrow> nat \<Rightarrow> nat \<Rightarrow> int \<Rightarrow> 's \<Rightarrow> (int \<times> 's) kresult option" where
  [code]: "grep_loop os buf search dat fd s =
     bnd (ece391_read os fd buf (grep_SBUFSIZE - 1)) (\<lambda>cnt s1.
       if cnt = 0 then ret 0 s1
       else if cnt = -1 then bnd (say os (line ''directory entry read failed'')) (\<lambda>_. ret 3) s1
       else bnd (peek os buf) (\<lambda>c s2.
         if c = 46 then grep_loop os buf search dat fd s2
         else bnd (poke os (addr buf cnt) 0) (\<lambda>_ s3.
           bnd (do_one_file os dat search buf) (\<lambda>r s4.
             if r \<noteq> 0 then ret 3 s4 else grep_loop os buf search dat fd s4) s3) s2) s1) s"

definition grep_main :: "'s os \<Rightarrow> nat \<Rightarrow> nat \<Rightarrow> nat \<Rightarrow> (int, 's) prog" where
  "grep_main os buf search dat =
     bnd (ece391_getargs os search BUFSIZE) (\<lambda>r.
       if r \<noteq> 0 then bnd (say os (line ''could not read argument'')) (\<lambda>_. ret 3)
       else bnd (ece391_open os (lit os (bytes ''.''))) (\<lambda>fd.
         if fd = -1 then bnd (say os (line ''directory open failed'')) (\<lambda>_. ret 2)
         else grep_loop os buf search dat fd))"

subsection \<open>fish\<close>

text \<open>
  The functions of blink.S are assembly: adding a blinking character, the other commands of
  \<open>mp1_ioctl\<close>, and the tasklet that a tick of the clock runs.
\<close>

record mp1_blink_struct =
  on_char :: u8
  off_char :: u8
  on_length :: nat
  off_length :: nat
  location :: nat

record 's mp1 =
  rtc_add :: "mp1_blink_struct \<Rightarrow> (int, 's) prog"
  rtc_remove :: "nat \<Rightarrow> (int, 's) prog"
  rtc_sync :: "nat \<Rightarrow> (int, 's) prog"
  mp1_rtc_tasklet :: "nat \<Rightarrow> (unit, 's) prog"

definition WAIT :: nat where "WAIT = 200"

fun fish_memset_loop :: "'s os \<Rightarrow> nat \<Rightarrow> u8 \<Rightarrow> nat list \<Rightarrow> (unit, 's) prog" where
  "fish_memset_loop os dst c [] = ret ()"
| "fish_memset_loop os dst c (i # is) = bnd (poke os (dst + i) c) (\<lambda>_. fish_memset_loop os dst c is)"

definition fish_memset :: "'s os \<Rightarrow> nat \<Rightarrow> u8 \<Rightarrow> int \<Rightarrow> (unit, 's) prog" where
  "fish_memset os dst c n = fish_memset_loop os dst c [0..<nat n]"

fun fish_memcpy_loop :: "'s os \<Rightarrow> nat \<Rightarrow> nat \<Rightarrow> nat list \<Rightarrow> (int, 's) prog" where
  "fish_memcpy_loop os dst src [] = ret 0"
| "fish_memcpy_loop os dst src (i # is) =
     bnd (peek os (src + i)) (\<lambda>c. bnd (poke os (dst + i) c) (\<lambda>_. fish_memcpy_loop os dst src is))"

definition fish_memcpy :: "'s os \<Rightarrow> nat \<Rightarrow> nat \<Rightarrow> int \<Rightarrow> (int, 's) prog" where
  "fish_memcpy os dst src n = fish_memcpy_loop os dst src [0..<nat n]"

text \<open>A blink structure has 16 bytes, the location in the first two; in a free one it is 0.\<close>

definition sizeof_blink :: nat where "sizeof_blink = 16"

fun mp1_malloc_loop :: "'s os \<Rightarrow> nat \<Rightarrow> nat list \<Rightarrow> (nat, 's) prog" where
  "mp1_malloc_loop os blink_array [] = ret 0"
| "mp1_malloc_loop os blink_array (i # is) =
     bnd (peek os (blink_array + i * sizeof_blink)) (\<lambda>lo.
     bnd (peek os (blink_array + i * sizeof_blink + 1)) (\<lambda>hi.
       if lo = 0 \<and> hi = 0 then ret (blink_array + i * sizeof_blink) else mp1_malloc_loop os blink_array is))"

definition mp1_malloc :: "'s os \<Rightarrow> nat \<Rightarrow> (nat, 's) prog" where
  "mp1_malloc os blink_array = mp1_malloc_loop os blink_array [0..<80 * 25]"

definition mp1_free :: "'s os \<Rightarrow> nat \<Rightarrow> (unit, 's) prog" where
  "mp1_free os p = fish_memset os p 0 (int sizeof_blink)"

text \<open>\<open>mp1_set_video_mode\<close>: the result 0 is the null pointer; \<open>vmem\<close> is the address of the variable.\<close>

definition mp1_set_video_mode :: "'s os \<Rightarrow> nat \<Rightarrow> (nat, 's) prog" where
  "mp1_set_video_mode os vmem =
     bnd (ece391_vidmap os vmem) (\<lambda>r s.
       if r = -1 then ret 0 s
       else ret (unat (umem os s vmem) + 256 * unat (umem os s (vmem + 1)) + 65536 * unat (umem os s (vmem + 2))
                   + 16777216 * unat (umem os s (vmem + 3))) s)"

text \<open>Reading the next character of a frame into the variable at \<open>c\<close>; the result is the new \<open>eof\<close>.\<close>

definition frame_char :: "'s os \<Rightarrow> int \<Rightarrow> nat \<Rightarrow> bool \<Rightarrow> (bool, 's) prog" where
  "frame_char os fd c eof =
     bnd (peek os c) (\<lambda>x.
       if x \<noteq> 10 then
         bnd (ece391_read os fd c 1) (\<lambda>num_bytes.
           if num_bytes = 0 then bnd (poke os c 10) (\<lambda>_. ret True) else ret eof)
       else ret eof)"

definition blink_at :: "u8 \<Rightarrow> u8 \<Rightarrow> int \<Rightarrow> int \<Rightarrow> mp1_blink_struct" where
  "blink_at a b row col =
     \<lparr>on_char = (if a = 10 then 32 else a), off_char = (if b = 10 then 32 else b), on_length = 15, off_length = 15,
      location = nat ((row * 80 + col + 40) mod 65536)\<rparr>"

partial_function (option) frame_cols ::
  "'s os \<Rightarrow> 's mp1 \<Rightarrow> int \<Rightarrow> int \<Rightarrow> nat \<Rightarrow> nat \<Rightarrow> bool \<Rightarrow> bool \<Rightarrow> int \<Rightarrow> int \<Rightarrow> 's \<Rightarrow> ((bool \<times> bool) \<times> 's) kresult option" where
  [code]: "frame_cols os mp fd0 fd1 c0 c1 eof0 eof1 row col s =
     bnd (frame_char os fd0 c0 eof0) (\<lambda>e0 s1.
     bnd (frame_char os fd1 c1 eof1) (\<lambda>e1 s2.
     bnd (peek os c0) (\<lambda>a s3.
     bnd (peek os c1) (\<lambda>b s4.
       if a = 10 \<and> b = 10 then ret (e0, e1) s4
       else bnd (if a \<noteq> 32 \<and> a \<noteq> 10 \<or> b \<noteq> 32 \<and> b \<noteq> 10 then rtc_add mp (blink_at a b row col) else ret 0) (\<lambda>_ s5.
         frame_cols os mp fd0 fd1 c0 c1 e0 e1 row (col + 1) s5) s4) s3) s2) s1) s"

definition frame_end :: "'s os \<Rightarrow> int \<Rightarrow> nat \<Rightarrow> bool \<Rightarrow> (unit, 's) prog" where
  "frame_end os fd c eof =
     (if eof then bnd (poke os c 10) (\<lambda>_. bnd (ece391_close os fd) (\<lambda>_. ret ())) else poke os c 48)"

partial_function (option) frame_rows ::
  "'s os \<Rightarrow> 's mp1 \<Rightarrow> int \<Rightarrow> int \<Rightarrow> nat \<Rightarrow> nat \<Rightarrow> bool \<Rightarrow> bool \<Rightarrow> int \<Rightarrow> 's \<Rightarrow> (unit \<times> 's) kresult option" where
  [code]: "frame_rows os mp fd0 fd1 c0 c1 eof0 eof1 row s =
     (if \<not> eof0 \<or> \<not> eof1 then
        bnd (frame_cols os mp fd0 fd1 c0 c1 eof0 eof1 row 0) (\<lambda>e s1.
        bnd (frame_end os fd0 c0 (fst e)) (\<lambda>_ s2.
        bnd (frame_end os fd1 c1 (snd e)) (\<lambda>_ s3.
          frame_rows os mp fd0 fd1 c0 c1 (fst e) (snd e) (row + 1) s3) s2) s1) s
      else ret () s)"

text \<open>\<open>ece391_halt\<close> is called when a frame cannot be opened; \<open>c0\<close> and \<open>c1\<close> are variables on the stack.\<close>

definition add_frames :: "'s os \<Rightarrow> 's mp1 \<Rightarrow> nat \<Rightarrow> nat \<Rightarrow> nat \<Rightarrow> nat \<Rightarrow> (unit, 's) prog" where
  "add_frames os mp c0 c1 f0 f1 =
     bnd (poke os c0 48) (\<lambda>_. bnd (poke os c1 48) (\<lambda>_.
     bnd (ece391_open os f0) (\<lambda>fd0.
     bnd (if fd0 < 0 then bnd (ece391_halt os (-1)) (\<lambda>_. ret ()) else ret ()) (\<lambda>_.
     bnd (ece391_open os f1) (\<lambda>fd1.
     bnd (if fd1 < 0 then bnd (ece391_halt os (-1)) (\<lambda>_. ret ()) else ret ()) (\<lambda>_.
     frame_rows os mp fd0 fd1 c0 c1 False False 0))))))"

fun ticks :: "'s os \<Rightarrow> 's mp1 \<Rightarrow> int \<Rightarrow> nat \<Rightarrow> nat list \<Rightarrow> (unit, 's) prog" where
  "ticks os mp rtc garbage [] = ret ()"
| "ticks os mp rtc garbage (i # is) =
     bnd (ece391_read os rtc garbage 4) (\<lambda>_.
     bnd (\<lambda>s. mp1_rtc_tasklet mp (unat (umem os s garbage) + 256 * unat (umem os s (garbage + 1))
            + 65536 * unat (umem os s (garbage + 2)) + 16777216 * unat (umem os s (garbage + 3))) s) (\<lambda>_.
     ticks os mp rtc garbage is))"

definition fish_main :: "'s os \<Rightarrow> 's mp1 \<Rightarrow> nat \<Rightarrow> nat \<Rightarrow> nat \<Rightarrow> nat \<Rightarrow> nat \<Rightarrow> nat \<Rightarrow> nat \<Rightarrow> nat \<Rightarrow> (int, 's) prog" where
  "fish_main os mp blink_array vmem file0 file1 ret_val garbage c0 c1 =
     bnd (fish_memset os blink_array 0 (int (sizeof_blink * 80 * 25))) (\<lambda>_.
     bnd (mp1_set_video_mode os vmem) (\<lambda>v.
       if v = 0 then ret (-1)
       else bnd (ece391_open os (lit os (bytes ''rtc''))) (\<lambda>rtc.
         bnd (add_frames os mp c0 c1 file0 file1) (\<lambda>_.
         bnd (poke os ret_val 32) (\<lambda>_. bnd (fish_memset os (ret_val + 1) 0 3) (\<lambda>_.
         bnd (ece391_write os rtc ret_val 4) (\<lambda>_.
         bnd (ticks os mp rtc garbage [0..<WAIT]) (\<lambda>_.
         bnd (rtc_add mp \<lparr>on_char = 73, off_char = 77, on_length = 7, off_length = 6, location = 6 * 80 + 60\<rparr>) (\<lambda>_.
         bnd (ticks os mp rtc garbage [0..<WAIT]) (\<lambda>_.
         bnd (rtc_sync mp (40 * 65536 + (6 * 80 + 60))) (\<lambda>_.
         bnd (ticks os mp rtc garbage [0..<WAIT]) (\<lambda>_.
         bnd (rtc_remove mp WAIT) (\<lambda>_.
         bnd (ticks os mp rtc garbage [0..<80 * 25]) (\<lambda>_.
         bnd (ece391_close os rtc) (\<lambda>_. ret 0)))))))))))))))"

end
