(* ===== verification/UEmulate.thy ===== *)
theory UEmulate
  imports ULib KFiles
begin

text \<open>
  The emulation of the system calls on Linux, src/syscalls/ece391emulate.c, with which the
  programs can be tried on the host. The host's own calls are the record \<open>linux\<close>; they work on
  the memory of the program and on a state \<open>'w\<close> of their own. The stack at the start of the
  program holds the number of arguments and the pointers to them.
\<close>

subsection \<open>State\<close>

record 'w linux =
  host_read :: "int \<Rightarrow> nat \<Rightarrow> int \<Rightarrow> mem \<Rightarrow> 'w \<Rightarrow> int \<times> mem \<times> 'w"
  host_write :: "int \<Rightarrow> nat \<Rightarrow> int \<Rightarrow> mem \<Rightarrow> 'w \<Rightarrow> int \<times> 'w"
  host_close :: "int \<Rightarrow> 'w \<Rightarrow> int \<times> 'w"
  host_open :: "nat \<Rightarrow> mem \<Rightarrow> 'w \<Rightarrow> nat \<times> 'w"
  host_open_null :: "'w \<Rightarrow> int \<times> 'w"
  opendir :: "'w \<Rightarrow> bool \<times> 'w"
  readdir :: "'w \<Rightarrow> u8 list option \<times> 'w"
  closedir :: "'w \<Rightarrow> 'w"
  spawn_wait :: "nat \<Rightarrow> nat list \<Rightarrow> mem \<Rightarrow> 'w \<Rightarrow> nat \<times> 'w"

record 'w emu =
  emem :: mem
  dir_fd :: int
  dir :: bool
  argv :: "nat list"
  host :: 'w

subsection \<open>execute\<close>

text \<open>\<open>for (; '\0' != *scan && ' ' != *scan && '\n' != *scan; scan++);\<close>\<close>

partial_function (option) scan_word :: "mem \<Rightarrow> nat \<Rightarrow> nat option" where
  [code]: "scan_word m scan =
     (if m scan \<noteq> 0 \<and> m scan \<noteq> 32 \<and> m scan \<noteq> 10 then scan_word m (scan + 1) else Some scan)"

partial_function (option) scan_blanks :: "mem \<Rightarrow> nat \<Rightarrow> nat option" where
  [code]: "scan_blanks m scan = (if m scan = 32 then scan_blanks m (scan + 1) else Some scan)"

text \<open>The loop over the arguments, which puts terminators behind them.\<close>

partial_function (option) parse_args :: "mem \<Rightarrow> nat \<Rightarrow> nat list \<Rightarrow> (mem \<times> nat list) option" where
  [code]: "parse_args m scan args =
     Option.bind (scan_blanks m scan) (\<lambda>p.
       if m p = 0 \<or> m p = 10 then Some (m(p := 0), args)
       else Option.bind (scan_word m p) (\<lambda>q.
         if m q \<noteq> 0 then parse_args (m(q := 0)) (q + 1) (args @ [p])
         else parse_args m q (args @ [p])))"

text \<open>Exit status of the child, as the macros of sys/wait.h take it apart.\<close>

definition exit_code :: "nat \<Rightarrow> int" where
  "exit_code status =
     (if status mod 128 = 0 then int (status div 256 mod 256)
      else if status mod 128 = 9 then -1
      else 256)"

definition emu_execute :: "'w linux \<Rightarrow> nat \<Rightarrow> nat \<Rightarrow> 'w emu \<Rightarrow> (int \<times> 'w emu) option" where
  "emu_execute os buf command e =
     Option.bind (ece391_strlen (emem e) command) (\<lambda>n.
       if 1023 < n then Some (-1, e)
       else
         let m1 = (emem e)(buf := 46, buf + 1 := 47) in
         Option.bind (ece391_strcpy m1 (buf + 2) command) (\<lambda>m2.
         Option.bind (scan_word m2 (buf + 2)) (\<lambda>scan.
         Option.bind (if m2 scan \<noteq> 0 then parse_args (m2(scan := 0)) (scan + 1) [buf] else Some (m2, [buf])) (\<lambda>(m3, args).
           case spawn_wait os buf args m3 (host e) of (status, w) \<Rightarrow>
             Some (exit_code status, e\<lparr>emem := m3, host := w\<rparr>)))))"

subsection \<open>Files\<close>

definition emu_open :: "'w linux \<Rightarrow> nat \<Rightarrow> nat \<Rightarrow> 'w emu \<Rightarrow> (int \<times> 'w emu) option" where
  "emu_open os dot fn e =
     Option.bind (ece391_strcmp (emem e) fn dot) (\<lambda>c.
       if c = 0 then
         case opendir os (host e) of (d, w1) \<Rightarrow>
         case host_open_null os w1 of (fd, w2) \<Rightarrow> Some (fd, e\<lparr>dir := d, dir_fd := fd, host := w2\<rparr>)
       else case host_open os fn (emem e) (host e) of (rval, w) \<Rightarrow>
         Some (if rval > 0xFFFFC000 then -1 else to_int32 rval, e\<lparr>host := w\<rparr>))"

text \<open>
  \<open>read\<close> of the directory copies the next name, at most \<open>nbytes\<close> and at most 32 bytes, and fills
  up with zeros; the loops count \<open>copied\<close> up.
\<close>

fun read_name :: "u8 list \<Rightarrow> int \<Rightarrow> int \<Rightarrow> u8 list" where
  "read_name [] nbytes copied = replicate (nat (min nbytes 32 - copied)) 0"
| "read_name (c # cs) nbytes copied =
     (if copied + 1 = nbytes \<or> copied + 1 = 32 then [c] else c # read_name cs nbytes (copied + 1))"

definition emu_read :: "'w linux \<Rightarrow> int \<Rightarrow> nat \<Rightarrow> int \<Rightarrow> 'w emu \<Rightarrow> int \<times> 'w emu" where
  "emu_read os fd buf nbytes e =
     (if \<not> dir e \<or> dir_fd e \<noteq> fd then
        case host_read os fd buf nbytes (emem e) (host e) of (r, m, w) \<Rightarrow> (r, e\<lparr>emem := m, host := w\<rparr>)
      else case readdir os (host e) of
        (None, w) \<Rightarrow> (0, e\<lparr>host := w\<rparr>)
      | (Some name, w) \<Rightarrow>
          let bs = read_name name nbytes 0
          in (int (length bs), e\<lparr>emem := store_bytes (emem e) buf bs, host := w\<rparr>))"

definition emu_write :: "'w linux \<Rightarrow> int \<Rightarrow> nat \<Rightarrow> int \<Rightarrow> 'w emu \<Rightarrow> int \<times> 'w emu" where
  "emu_write os fd buf nbytes e =
     (if \<not> dir e \<or> dir_fd e \<noteq> fd then
        case host_write os fd buf nbytes (emem e) (host e) of (r, w) \<Rightarrow> (r, e\<lparr>host := w\<rparr>)
      else (-1, e))"

definition emu_close :: "'w linux \<Rightarrow> int \<Rightarrow> 'w emu \<Rightarrow> int \<times> 'w emu" where
  "emu_close os fd e =
     (if \<not> dir e \<or> dir_fd e \<noteq> fd then
        case host_close os fd (host e) of (r, w) \<Rightarrow> (r, e\<lparr>host := w\<rparr>)
      else case host_close os (dir_fd e) (closedir os (host e)) of (_, w) \<Rightarrow>
        (0, e\<lparr>dir := False, dir_fd := -1, host := w\<rparr>))"

subsection \<open>getargs\<close>

fun getargs_loop :: "mem \<Rightarrow> nat list \<Rightarrow> nat \<Rightarrow> int \<Rightarrow> (int \<times> mem) option" where
  "getargs_loop m [] buf nbytes = Some (if nbytes < 1 then (-1, m) else (0, m(buf := 0)))"
| "getargs_loop m (a # as) buf nbytes =
     Option.bind (ece391_strlen m a) (\<lambda>len.
       if int len > nbytes then Some (-1, m)
       else Option.bind (ece391_strcpy m buf a) (\<lambda>m1.
         let buf1 = buf + len; n1 = nbytes - int len in
         if as = [] then Some (if n1 < 1 then (-1, m1) else (0, m1(buf1 := 0)))
         else if n1 < 1 then Some (-1, m1)
         else getargs_loop (m1(buf1 := 32)) as (buf1 + 1) (n1 - 1)))"

definition emu_getargs :: "nat \<Rightarrow> int \<Rightarrow> 'w emu \<Rightarrow> (int \<times> 'w emu) option" where
  "emu_getargs buf nbytes e =
     map_option (\<lambda>(r, m). (r, e\<lparr>emem := m\<rparr>)) (getargs_loop (emem e) (tl (argv e)) buf nbytes)"

end
