(* ===== verification/UStream.thy ===== *)
theory UStream
  imports UProg
begin

text \<open>
  What cat and ls rely on: the interface of a stream of chunks. A descriptor is read into one
  buffer; every call of \<open>read\<close> delivers the next chunk, and 0 when there is none left. What is
  written to standard output changes what is shown there: \<open>emit bs\<close> is the effect of writing
  the bytes \<open>bs\<close>. The two programs are proved against this interface.
\<close>

locale chunk_stream =
  fixes os :: "'s os"
    and fd :: int
    and buf :: nat
    and req :: int
    and cap :: nat
    and good :: "'s \<Rightarrow> bool"
    and chunks :: "'s \<Rightarrow> u8 list list"
    and out :: "'s \<Rightarrow> 'o"
    and emit :: "u8 list \<Rightarrow> 'o \<Rightarrow> 'o"
  assumes read_end: "good s \<Longrightarrow> chunks s = [] \<Longrightarrow>
      \<exists>s'. ece391_read os fd buf req s = Some (Inr (0, s')) \<and> good s' \<and> out s' = out s"
    and read_next: "good s \<Longrightarrow> chunks s = c # cs \<Longrightarrow>
      \<exists>s'. ece391_read os fd buf req s = Some (Inr (int (length c), s')) \<and> good s' \<and> chunks s' = cs \<and> out s' = out s \<and>
        load_bytes (umem os s') buf (length c) = c"
    and chunk_size: "good s \<Longrightarrow> c \<in> set (chunks s) \<Longrightarrow> c \<noteq> [] \<and> int (length c) \<le> req"
    and req_cap: "req \<le> int cap"
    and write_out: "good s \<Longrightarrow> n \<le> cap \<Longrightarrow>
      \<exists>s' r. ece391_write os 1 buf (int n) s = Some (Inr (r, s')) \<and> r \<noteq> -1 \<and> good s' \<and> chunks s' = chunks s \<and>
        out s' = emit (load_bytes (umem os s) buf n) (out s)"
    and buffer_own: "good s \<Longrightarrow> (\<And>a. a < buf \<or> buf + cap \<le> a \<Longrightarrow> m a = umem os s a) \<Longrightarrow>
      good (set_umem os m s) \<and> chunks (set_umem os m s) = chunks s \<and> out (set_umem os m s) = out s \<and>
      umem os (set_umem os m s) = m"
begin

lemma cat_prints:
  assumes "good s" and "req = 1024"
  shows "\<exists>s'. cat_loop os fd buf s = Some (Inr (0, s')) \<and> good s' \<and> out s' = fold emit (chunks s) (out s)"
  using assms(1)
proof (induction "chunks s" arbitrary: s)
  case Nil
  then obtain s' where "ece391_read os fd buf 1024 s = Some (Inr (0, s'))" "good s'" "out s' = out s"
    using read_end [of s] assms(2) by auto
  then show ?case
    using Nil by (subst cat_loop.simps) (simp add: bnd_def ret_def)
next
  case (Cons c cs)
  then obtain s1 where s1: "ece391_read os fd buf 1024 s = Some (Inr (int (length c), s1))" "good s1" "chunks s1 = cs"
    "out s1 = out s" "load_bytes (umem os s1) buf (length c) = c"
    using read_next [of s c cs] assms(2) by auto
  have c: "c \<noteq> []" "length c \<le> cap"
    using chunk_size [OF Cons.prems, of c] Cons.hyps(2) [symmetric] req_cap by auto
  obtain s2 r where s2: "ece391_write os 1 buf (int (length c)) s1 = Some (Inr (r, s2))" "r \<noteq> -1" "good s2" "chunks s2 = cs"
    "out s2 = emit c (out s)"
    using write_out [OF s1(2), of "length c"] c s1 by auto
  obtain s' where "cat_loop os fd buf s2 = Some (Inr (0, s'))" "good s'" "out s' = fold emit cs (emit c (out s))"
    using Cons.hyps(1) [of s2] s2 by auto
  then show ?case
    using s1(1) s2(1,2) c(1) Cons.hyps(2) [symmetric] by (subst cat_loop.simps) (simp add: bnd_def ret_def)
qed

lemma ls_prints:
  assumes "good s" and "req = 32" and "32 < cap"
  shows "\<exists>s'. ls_loop os fd buf s = Some (Inr (0, s')) \<and> good s' \<and> out s' = fold emit (map (\<lambda>c. c @ [10]) (chunks s)) (out s)"
  using assms(1)
proof (induction "chunks s" arbitrary: s)
  case Nil
  then obtain s' where "ece391_read os fd buf 32 s = Some (Inr (0, s'))" "good s'" "out s' = out s"
    using read_end [of s] assms(2) by auto
  then show ?case
    using Nil by (subst ls_loop.simps) (simp add: bnd_def ret_def ls_SBUFSIZE_def)
next
  case (Cons c cs)
  then obtain s1 where s1: "ece391_read os fd buf 32 s = Some (Inr (int (length c), s1))" "good s1" "chunks s1 = cs"
    "out s1 = out s" "load_bytes (umem os s1) buf (length c) = c"
    using read_next [of s c cs] assms(2) by auto
  have c: "c \<noteq> []" "length c < cap"
    using chunk_size [OF Cons.prems, of c] Cons.hyps(2) [symmetric] assms(2,3) by auto
  let ?m = "(umem os s1)(buf + length c := 10)"
  let ?s2 = "set_umem os ?m s1"
  have own: "?m a = umem os s1 a" if "a < buf \<or> buf + cap \<le> a" for a
    using that c(2) by auto
  have s2: "good ?s2" "chunks ?s2 = cs" "out ?s2 = out s" "umem os ?s2 = ?m"
    using buffer_own [where m = ?m, OF s1(2) own] s1(3,4) by simp_all
  have "load_bytes ?m buf (Suc (length c)) = c @ [10]"
  proof (rule nth_equalityI)
    fix i assume "i < length (load_bytes ?m buf (Suc (length c)))"
    then show "load_bytes ?m buf (Suc (length c)) ! i = (c @ [10]) ! i"
      using arg_cong [OF s1(5), of "\<lambda>xs. xs ! i"] by (auto simp: nth_append less_Suc_eq)
  qed simp
  then obtain s3 r where s3: "ece391_write os 1 buf (int (Suc (length c))) ?s2 = Some (Inr (r, s3))" "r \<noteq> -1" "good s3"
    "chunks s3 = cs" "out s3 = emit (c @ [10]) (out s)"
    using write_out [OF s2(1), of "Suc (length c)"] c(2) s2 by auto
  obtain s' where "ls_loop os fd buf s3 = Some (Inr (0, s'))" "good s'"
    "out s' = fold emit (map (\<lambda>c. c @ [10]) cs) (emit (c @ [10]) (out s))"
    using Cons.hyps(1) [of s3] s3 by auto
  moreover have "addr buf (int (length c)) = buf + length c"
    by (simp add: addr_def nat_add_distrib)
  ultimately show ?case
    using s1(1) s3(1,2) c(1) Cons.hyps(2) [symmetric]
    by (subst ls_loop.simps) (simp add: bnd_def ret_def ls_SBUFSIZE_def poke_def add.commute)
qed

end

end
