(* ===== verification/UKernel.thy ===== *)
theory UKernel
  imports UStream KDescriptors
begin

text \<open>
  The user programs on the kernel: the system calls of the kernel model provide the interface
  of a stream of chunks, for a file of the image (cat) and for its directory (ls).
\<close>

subsection \<open>The system calls of the kernel for a program\<close>

definition kernel_os :: "('g, 'd, 'k) devops \<Rightarrow> ('g, 'd, 'k) sys os \<Rightarrow> ('g, 'd, 'k) sys os" where
  "kernel_os ops o0 = o0\<lparr>umem := (\<lambda>s. kmem (kern s)), set_umem := (\<lambda>m s. s\<lparr>kern := (kern s)\<lparr>kmem := m\<rparr>\<rparr>),
     ece391_read := sys_read ops, ece391_write := sys_write ops, ece391_open := sys_open ops,
     ece391_close := sys_close ops, ece391_getargs := getargs\<rparr>"

text \<open>
  What a terminal shows: \<open>con_state\<close> is its part of the states of the devices, \<open>con_ok\<close> its
  invariant and \<open>con_put\<close> what one character does to it. The driver prints the bytes of a write up
  to the first terminator and returns how many these are, as \<open>Term::write\<close> does (theory KConsole
  proves it for the model of that function).
\<close>

record ('k, 'o) console =
  con_ok :: "'k \<Rightarrow> bool"
  con_state :: "'k \<Rightarrow> 'o"
  con_put :: "u8 \<Rightarrow> 'o \<Rightarrow> 'o"

definition text_part :: "u8 list \<Rightarrow> u8 list" where
  "text_part bs = takeWhile (\<lambda>c. c \<noteq> 0) bs"

definition emits :: "('k, 'o) console \<Rightarrow> u8 list \<Rightarrow> 'o \<Rightarrow> 'o" where
  "emits con bs = fold (con_put con) (text_part bs)"

definition terminal :: "('g, 'd, 'k) devops \<Rightarrow> 'd \<Rightarrow> ('k, 'o) console \<Rightarrow> bool" where
  "terminal ops d con \<longleftrightarrow> (\<forall>bs k. length bs < 2147483648 \<and> con_ok con k \<longrightarrow> (\<exists>k'. dev_write ops d bs k = (int (length (text_part bs)), k') \<and>
     con_ok con k' \<and> con_state con k' = emits con bs (con_state con k)))"

definition shown :: "('k, 'o) console \<Rightarrow> ('g, 'd, 'k) sys \<Rightarrow> 'o" where
  "shown con s = con_state con (devices (kern s))"

lemma length_text_part: "length (text_part bs) \<le> length bs"
  by (simp add: text_part_def length_takeWhile_le)

lemma text_part_id: "0 \<notin> set bs \<Longrightarrow> text_part bs = bs"
  by (auto simp: text_part_def takeWhile_eq_all_conv)

lemma fold_emits: "fold (emits con) cs = fold (con_put con) (concat (map text_part cs))"
  by (induction cs) (simp_all add: emits_def)

text \<open>A buffer in a page of the user, which the kernel does not use itself.\<close>

definition pde_addr :: "nat \<Rightarrow> ('g, 'd, 'k) sys \<Rightarrow> nat" where
  "pde_addr buf s = cr3val s + 4 * (buf div 4194304)"

definition user_buffer :: "nat \<Rightarrow> nat \<Rightarrow> nat \<Rightarrow> nat \<Rightarrow> nat \<Rightarrow> ('g, 'd, 'k) sys \<Rightarrow> bool" where
  "user_buffer start len dbase buf cap s \<longleftrightarrow> 0 < buf \<and>
     (\<forall>a. buf \<le> a \<and> a < buf + cap \<longrightarrow> \<not> boot_area start len dbase (kern s) a) \<and>
     (buf + cap \<le> goodName (kern s) \<or> goodName (kern s) + 70 \<le> buf) \<and>
     HAS_FLAG (PG_4MB_BASE OR PG_USER) (of_nat (read32 (kmem (kern s)) (pde_addr buf s))) \<and>
     (pde_addr buf s + 4 \<le> buf \<or> buf + cap \<le> pde_addr buf s) \<and>
     (pde_addr buf s + 4 \<le> goodName (kern s) \<or> goodName (kern s) + 70 \<le> pde_addr buf s)"

lemma user_buffer_valid: "user_buffer start len dbase buf cap s \<Longrightarrow> validUserPointer buf s"
  by (simp add: user_buffer_def validUserPointer_def pde_addr_def)

lemma user_buffer_mem:
  assumes "user_buffer start len dbase buf cap s" and "k1 = (kern s)\<lparr>kmem := kmem k1, devices := devices k1\<rparr>"
    and "\<And>a. (a < buf \<or> buf + cap \<le> a) \<Longrightarrow> a < goodName (kern s) \<or> goodName (kern s) + 70 \<le> a \<Longrightarrow> kmem k1 a = kmem (kern s) a"
    and "kern t = k1" and "cr3val t = cr3val s"
  shows "user_buffer start len dbase buf cap t"
proof -
  have k1: "goodName k1 = goodName (kern s)" "boot_area start len dbase k1 = boot_area start len dbase (kern s)"
    by (subst assms(2), simp, rule ext, subst assms(2), simp add: boot_area_def)
  have p: "pde_addr buf t = pde_addr buf s"
    using assms(5) by (simp add: pde_addr_def)
  have "read32 (kmem k1) (pde_addr buf s) = read32 (kmem (kern s)) (pde_addr buf s)"
    using assms(1) by (intro read32_cong assms(3)) (auto simp: user_buffer_def)
  with assms(1,4) k1 p show ?thesis by (simp add: user_buffer_def)
qed

text \<open>The process has its standard files; \<open>d\<close> is the device of the terminal.\<close>

definition stdout_ok :: "'d \<Rightarrow> ('g, 'd, 'k) sys \<Rightarrow> bool" where
  "stdout_ok d s \<longleftrightarrow> fd_ok (fds s) \<and> fdInitialized (proc s) \<and> (\<exists>off. content (fds s) ! 1 = Some \<lparr>f_offset = off, f_fs = DevFs, f_data = DevData d\<rparr>)"

lemma with_fd_eq:
  assumes "fd_ok (fds s)" and "fdInitialized (proc s)" and "0 \<le> fd" and "fd < 128" and "content (fds s) ! nat fd = Some f"
  shows "with_fd ops fd s body = body f s"
proof -
  have sz: "to_size fd = nat fd" using assms(3,4) by (simp add: to_size_def)
  have "FileDescArr_isValid (nat fd) (fds s)"
    using fd_isValid_iff [OF assms(1)] assms(4,5) by (simp add: FD_ARRAY_LENGTH_def)
  then show ?thesis
    using assms(2,5) by (simp add: with_fd_def ensureFdInitialized_def sz get_fd_def)
qed

lemma sys_read_eq:
  assumes "validUserPointer buf s" and "fd_ok (fds s)" and "fdInitialized (proc s)" and "0 \<le> fd" and "fd < 128"
    and "content (fds s) ! nat fd = Some f" and "Dispatcher_read ops f buf (to_size n) (kern s) = Some (Inr (r, f1, k1))"
  shows "sys_read ops fd buf n s = Some (Inr (r, set_fd (nat fd) (Some f1) (s\<lparr>kern := k1\<rparr>)))"
proof -
  have "to_size fd = nat fd" using assms(4,5) by (simp add: to_size_def)
  then show ?thesis
    using assms(1,7) by (simp add: sys_read_def with_fd_eq [OF assms(2-6)])
qed

lemma sys_write_stdout:
  assumes "validUserPointer buf s" and "stdout_ok d s" and "terminal ops d con" and "con_ok con (devices (kern s))" and "n < 2147483648"
  obtains s' k' l where "sys_write ops 1 buf (int n) s = Some (Inr (int l, s'))"
    and "kern s' = (kern s)\<lparr>devices := k'\<rparr>" and "con_ok con k'"
    and "con_state con k' = emits con (load_bytes (kmem (kern s)) buf n) (shown con s)"
    and "stdout_ok d s'" and "same_fds s s'" and "cr3val s' = cr3val s"
proof -
  obtain off where f: "content (fds s) ! 1 = Some \<lparr>f_offset = off, f_fs = DevFs, f_data = DevData d\<rparr>"
    and ok: "fd_ok (fds s)" "fdInitialized (proc s)"
    using assms(2) by (auto simp: stdout_ok_def)
  define l where "l = length (text_part (load_bytes (kmem (kern s)) buf n))"
  obtain k' where k': "dev_write ops d (load_bytes (kmem (kern s)) buf n) (devices (kern s)) = (int l, k')"
    "con_ok con k'" "con_state con k' = emits con (load_bytes (kmem (kern s)) buf n) (shown con s)"
    using assms(3,4,5) unfolding terminal_def l_def shown_def by (metis length_load_bytes)
  let ?f = "\<lparr>f_offset = to_size (int off + int l), f_fs = DevFs, f_data = DevData d\<rparr>"
  let ?s = "s\<lparr>kern := (kern s)\<lparr>devices := k'\<rparr>\<rparr>"
  have sz: "to_size (int n) = n" "to_size 1 = 1" using assms(5) by (simp_all add: to_size_def)
  have w: "sys_write ops 1 buf (int n) s = Some (Inr (int l, set_fd 1 (Some ?f) ?s))"
    using assms(1) f k'(1) sz
    by (simp add: sys_write_def with_fd_eq [OF ok, of 1] Dispatcher_write_def fs_write_def DevFS_write_def)
  have same: "same_fds s (set_fd 1 (Some ?f) ?s)"
    using set_fd_fixed [of ?s 1 "Some ?f"] ok(1) by (simp add: same_fds_def FD_FIXED_PART_def)
  then have "stdout_ok d (set_fd 1 (Some ?f) ?s)"
    using ok FileDescArr_put_ok(4) [OF ok(1), of "Some ?f" 1 1] fixed_not_free [OF ok(1), of 1]
    by (simp add: stdout_ok_def same_fds_def FD_FIXED_PART_def FD_ARRAY_LENGTH_def) (simp add: set_fd_def)
  with w same k'(2,3) that show ?thesis by (simp add: set_fd_def)
qed

subsection \<open>Reading into a buffer and printing it\<close>

lemma user_buffer_area:
  "user_buffer start len dbase buf cap s \<Longrightarrow> boot_area start len dbase (kern s) a \<Longrightarrow> a < buf \<or> buf + cap \<le> a"
  unfolding user_buffer_def by (meson not_le)

lemma stdout_other:
  assumes "stdout_ok d s" and "2 \<le> i" and "i < 128" and "content (fds s) ! i \<noteq> None"
  shows "stdout_ok d (set_fd i f (s\<lparr>kern := k\<rparr>))"
  using assms set_fd_used(1,4) [of s i f] by (simp add: stdout_ok_def FD_ARRAY_LENGTH_def) (simp add: set_fd_def)

lemma booted_devices [simp]: "booted m start len dbase (k\<lparr>devices := dv\<rparr>) \<longleftrightarrow> booted m start len dbase k"
  by (simp add: booted_def mounted_def literals_ok_def boot_area_def)

text \<open>
  What a program that reads the descriptor \<open>fd\<close> into the buffer \<open>buf\<close> and prints it relies on,
  and that it stays so when the kernel's memory changes in the buffer only.
\<close>

definition user_io ::
  "mem \<Rightarrow> nat \<Rightarrow> nat \<Rightarrow> nat \<Rightarrow> ('g, 'd, 'k) devops \<Rightarrow> 'd \<Rightarrow> ('k, 'o) console \<Rightarrow> int \<Rightarrow> nat \<Rightarrow> nat \<Rightarrow> ('g, 'd, 'k) sys \<Rightarrow> bool" where
  "user_io m start len dbase ops d con fd buf cap s \<longleftrightarrow> booted m start len dbase (kern s) \<and> terminal ops d con \<and> stdout_ok d s \<and>
     user_buffer start len dbase buf cap s \<and> 2 \<le> fd \<and> fd < 128 \<and> con_ok con (devices (kern s))"

lemma user_ioD:
  assumes "user_io m start len dbase ops d con fd buf cap s"
  shows "booted m start len dbase (kern s)" and "terminal ops d con" and "stdout_ok d s" and "user_buffer start len dbase buf cap s"
    and "2 \<le> fd" and "fd < 128" and "con_ok con (devices (kern s))"
  using assms by (simp_all add: user_io_def)

lemma user_io_step:
  assumes g: "user_io m start len dbase ops d con fd buf cap s"
    and k: "kern s' = (kern s)\<lparr>kmem := mm, devices := dv\<rparr>" and cr: "cr3val s' = cr3val s"
    and mm: "\<And>a. a < buf \<or> buf + cap \<le> a \<Longrightarrow> mm a = kmem (kern s) a" and so: "stdout_ok d s'" and co: "con_ok con dv"
  shows "user_io m start len dbase ops d con fd buf cap s'"
proof -
  have "booted m start len dbase ((kern s)\<lparr>kmem := mm\<rparr>)"
    using user_buffer_area [OF user_ioD(4) [OF g]] by (intro booted_mem [OF user_ioD(1) [OF g]] mm)
  then have "booted m start len dbase (kern s')"
    by (simp add: k)
  moreover have "user_buffer start len dbase buf cap s'"
    using mm by (intro user_buffer_mem [OF user_ioD(4) [OF g] _ _ k cr]) simp_all
  ultimately show ?thesis
    using user_ioD [OF g] so co by (simp add: user_io_def k)
qed

lemma user_io_read:
  assumes g: "user_io m start len dbase ops d con fd buf cap s" and f: "content (fds s) ! nat fd = Some f"
    and rd: "Dispatcher_read ops f buf (to_size n) (kern s) = Some (Inr (r, f1, (kern s)\<lparr>kmem := mm\<rparr>))"
    and mm: "\<And>a. a < buf \<or> buf + cap \<le> a \<Longrightarrow> mm a = kmem (kern s) a"
  obtains s' where "sys_read ops fd buf n s = Some (Inr (r, s'))" and "user_io m start len dbase ops d con fd buf cap s'"
    and "kern s' = (kern s)\<lparr>kmem := mm\<rparr>" and "content (fds s') ! nat fd = Some f1"
proof -
  note gd = user_ioD [OF g]
  let ?s' = "set_fd (nat fd) (Some f1) (s\<lparr>kern := (kern s)\<lparr>kmem := mm\<rparr>\<rparr>)"
  have k': "kern ?s' = (kern s)\<lparr>kmem := mm, devices := devices (kern s)\<rparr>" "cr3val ?s' = cr3val s"
    by (simp_all add: set_fd_def)
  have "sys_read ops fd buf n s = Some (Inr (r, ?s'))"
    using gd(3,5,6) f rd by (intro sys_read_eq [OF user_buffer_valid [OF gd(4)]]) (auto simp: stdout_ok_def)
  moreover have "content (fds ?s') ! nat fd = Some f1" "stdout_ok d ?s'"
    using set_fd_used(4) [of "s\<lparr>kern := (kern s)\<lparr>kmem := mm\<rparr>\<rparr>" "nat fd" "Some f1" "nat fd"]
      stdout_other [OF gd(3), of "nat fd"] gd f by (simp_all add: stdout_ok_def FD_ARRAY_LENGTH_def)
  ultimately show ?thesis
    using that [of ?s'] user_io_step [OF g k' mm] k'(1) gd(7) by simp
qed

lemma user_io_write:
  assumes g: "user_io m start len dbase ops d con fd buf cap s" and "k < 2147483648"
  obtains s' dv l where "sys_write ops 1 buf (int k) s = Some (Inr (int l, s'))"
    and "user_io m start len dbase ops d con fd buf cap s'" and "kern s' = (kern s)\<lparr>devices := dv\<rparr>"
    and "content (fds s') ! nat fd = content (fds s) ! nat fd" and "shown con s' = emits con (load_bytes (kmem (kern s)) buf k) (shown con s)"
proof -
  note gd = user_ioD [OF g]
  obtain s' dv l where w: "sys_write ops 1 buf (int k) s = Some (Inr (int l, s'))"
    and k': "kern s' = (kern s)\<lparr>devices := dv\<rparr>" "con_ok con dv"
      "con_state con dv = emits con (load_bytes (kmem (kern s)) buf k) (shown con s)"
    and s': "stdout_ok d s'" "same_fds s s'" "cr3val s' = cr3val s"
    by (rule sys_write_stdout [OF user_buffer_valid [OF gd(4)] gd(3,2,7) assms(2)])
  have k2: "kern s' = (kern s)\<lparr>kmem := kmem (kern s), devices := dv\<rparr>" by (simp add: k')
  have "content (fds s') ! nat fd = content (fds s) ! nat fd"
    using s'(2) gd(5) by (simp add: same_fds_def FD_FIXED_PART_def)
  then show ?thesis
    using that [OF w user_io_step [OF g k2 s'(3) refl s'(1) k'(2)] k'(1)] k'(1,3) by (simp add: shown_def)
qed

lemma user_io_poke:
  assumes "user_io m start len dbase ops d con fd buf cap s" and "\<And>a. a < buf \<or> buf + cap \<le> a \<Longrightarrow> mm a = kmem (kern s) a"
  shows "user_io m start len dbase ops d con fd buf cap (s\<lparr>kern := (kern s)\<lparr>kmem := mm\<rparr>\<rparr>)"
  using user_ioD(3,7) [OF assms(1)]
  by (intro user_io_step [OF assms(1), where mm = mm and dv = "devices (kern s)"] assms(2)) (simp_all add: stdout_ok_def)

subsection \<open>A file is a stream\<close>

function chop :: "nat \<Rightarrow> 'a list \<Rightarrow> 'a list list" where
  "chop n xs = (if n = 0 \<or> xs = [] then [] else take n xs # chop n (drop n xs))"
  by pat_completeness auto
termination by (relation "measure (\<lambda>(n, xs). length xs)") auto

declare chop.simps [simp del]

lemma chop_Nil [simp]: "chop n [] = []"
  by (simp add: chop.simps)

lemma chop_eq_Nil: "0 < n \<Longrightarrow> chop n xs = [] \<longleftrightarrow> xs = []"
  by (subst chop.simps) simp

lemma chop_Cons: "0 < n \<Longrightarrow> chop n xs = c # cs \<longleftrightarrow> xs \<noteq> [] \<and> c = take n xs \<and> cs = chop n (drop n xs)"
  by (subst chop.simps) auto

lemma chop_size: "0 < n \<Longrightarrow> c \<in> set (chop n xs) \<Longrightarrow> c \<noteq> [] \<and> length c \<le> n"
  by (induction n xs rule: chop.induct) (subst (asm) (2) chop.simps, auto split: if_splits)

lemma concat_chop: "0 < n \<Longrightarrow> concat (chop n xs) = xs"
  by (induction n xs rule: chop.induct) (subst chop.simps, auto)

definition file_inode :: "nat \<Rightarrow> ('g, 'd, 'k) sys \<Rightarrow> inode_t" where
  "file_inode n s = inodes (kissFS (kern s)) ! n"

definition file_bytes :: "mem \<Rightarrow> nat \<Rightarrow> ('g, 'd, 'k) sys \<Rightarrow> u8 list" where
  "file_bytes m n s = file_content m (kissFS (kern s)) (file_inode n s)"

definition file_good ::
  "mem \<Rightarrow> nat \<Rightarrow> nat \<Rightarrow> nat \<Rightarrow> ('g, 'd, 'k) devops \<Rightarrow> 'd \<Rightarrow> ('k, 'o) console \<Rightarrow> int \<Rightarrow> nat \<Rightarrow> nat \<Rightarrow> ('g, 'd, 'k) sys \<Rightarrow> bool" where
  "file_good m start len dbase ops d con fd buf n s \<longleftrightarrow> user_io m start len dbase ops d con fd buf 1024 s \<and> n < image_inodes m start \<and>
     inode_ok (kissFS (kern s)) (file_inode n s) \<and>
     (\<exists>off ty. content (fds s) ! nat fd = Some \<lparr>f_offset = off, f_fs = KissFs, f_data = KissData (FileData ty n)\<rparr> \<and>
       off \<le> fsize (file_inode n s) \<and> (off mod 1024 = 0 \<or> off = fsize (file_inode n s)))"

definition file_rest :: "mem \<Rightarrow> int \<Rightarrow> nat \<Rightarrow> ('g, 'd, 'k) sys \<Rightarrow> u8 list" where
  "file_rest m fd n s = drop (f_offset (the (content (fds s) ! nat fd))) (file_bytes m n s)"

lemma file_goodE:
  assumes "file_good m start len dbase ops d con fd buf n s"
  obtains off ty where "user_io m start len dbase ops d con fd buf 1024 s" and "n < image_inodes m start"
    and "inode_ok (kissFS (kern s)) (file_inode n s)"
    and "content (fds s) ! nat fd = Some \<lparr>f_offset = off, f_fs = KissFs, f_data = KissData (FileData ty n)\<rparr>"
    and "off \<le> fsize (file_inode n s)" and "off mod 1024 = 0 \<or> off = fsize (file_inode n s)"
  using assms unfolding file_good_def by (elim conjE exE) (rule that; assumption)

lemma file_goodI:
  assumes "user_io m start len dbase ops d con fd buf 1024 s'" and "n < image_inodes m start"
    and "inode_ok (kissFS (kern s)) (file_inode n s)" and "kissFS (kern s') = kissFS (kern s)"
    and "content (fds s') ! nat fd = Some \<lparr>f_offset = off, f_fs = KissFs, f_data = KissData (FileData ty n)\<rparr>"
    and "off \<le> fsize (file_inode n s)" and "off mod 1024 = 0 \<or> off = fsize (file_inode n s)"
  shows "file_good m start len dbase ops d con fd buf n s'" and "file_rest m fd n s' = drop off (file_bytes m n s)"
  using assms by (simp_all add: file_good_def file_inode_def file_rest_def file_bytes_def)

lemma file_bytes_length:
  "inode_ok (kissFS (kern s)) (file_inode n s) \<Longrightarrow> length (file_bytes m n s) = fsize (file_inode n s)"
  "inode_ok (kissFS (kern s)) (file_inode n s) \<Longrightarrow> fsize (file_inode n s) < 4294967296"
  by (simp_all add: file_bytes_def content_length inode_ok_def)

text \<open>The chunks of cat do not cross the blocks of the file system.\<close>

lemma chunk_aligned:
  assumes "off mod 1024 = 0 \<or> off = sz"
  shows "off mod BlockSize = 0 \<or> off mod BlockSize + min 1024 (sz - off) \<le> BlockSize"
proof (cases "off = sz")
  case False
  then obtain q where "off = 1024 * q" using assms by auto
  then have "off mod BlockSize = 1024 * (q mod 4)"
    by (simp add: BlockSize_def) (metis mult_mod_right numeral_times_numeral semiring_norm(13) semiring_norm(12) semiring_norm(11))
  moreover have "q mod 4 < 4" by simp
  moreover have "min 1024 (sz - off) \<le> 1024" by simp
  ultimately show ?thesis unfolding BlockSize_def by linarith
qed (simp add: BlockSize_def less_imp_le)

lemma file_dispatch:
  assumes "booted m start len dbase (kern s)" and ino: "inode_ok (kissFS (kern s)) (file_inode n s)"
    and "n < image_inodes m start" and off: "off \<le> fsize (file_inode n s)" "off mod 1024 = 0 \<or> off = fsize (file_inode n s)"
    and bs: "bs = take 1024 (drop off (file_bytes m n s))"
  shows "Dispatcher_read ops \<lparr>f_offset = off, f_fs = KissFs, f_data = KissData (FileData ty n)\<rparr> buf (to_size 1024) (kern s) =
    Some (Inr (int (length bs), \<lparr>f_offset = off + length bs, f_fs = KissFs, f_data = KissData (FileData ty n)\<rparr>,
      (kern s)\<lparr>kmem := store_bytes (kmem (kern s)) buf bs\<rparr>))"
proof -
  have "readData (kmem (kern s)) (kissFS (kern s)) n off 1024 = Inr (int (length bs), bs)"
    using readData_ok [of n "kissFS (kern s)" off 1024 "kmem (kern s)"] booted_inodes(1,2) [OF assms(1)] assms(3) ino off
      chunk_aligned [OF off(2)] booted_content [OF assms(1) ino] bs file_bytes_length [OF ino]
    by (simp add: file_inode_def file_bytes_def)
  moreover have "to_size (int off + int (length bs)) = off + length bs" "to_size 1024 = 1024"
    using off(1) bs file_bytes_length [OF ino] by (simp_all add: to_size_def nat_add_distrib nat_mod_distrib)
  ultimately show ?thesis
    by (simp add: Dispatcher_read_def fs_read_def KissFS_read_def)
qed

lemma file_read:
  assumes g: "file_good m start len dbase ops d con fd buf n s" and bs: "bs = take 1024 (file_rest m fd n s)"
  obtains s' where "sys_read ops fd buf 1024 s = Some (Inr (int (length bs), s'))"
    and "file_good m start len dbase ops d con fd buf n s'" and "file_rest m fd n s' = drop 1024 (file_rest m fd n s)"
    and "shown con s' = shown con s" and "load_bytes (kmem (kern s')) buf (length bs) = bs"
proof (rule file_goodE [OF g])
  fix off ty
  let ?f = "\<lambda>off. \<lparr>f_offset = off, f_fs = KissFs, f_data = KissData (FileData ty n)\<rparr>"
  let ?mm = "store_bytes (kmem (kern s)) buf bs"
  assume io: "user_io m start len dbase ops d con fd buf 1024 s" and n: "n < image_inodes m start"
    and ino: "inode_ok (kissFS (kern s)) (file_inode n s)" and f: "content (fds s) ! nat fd = Some (?f off)"
    and off: "off \<le> fsize (file_inode n s)" "off mod 1024 = 0 \<or> off = fsize (file_inode n s)"
  note len = file_bytes_length [OF ino]
  have rest: "file_rest m fd n s = drop off (file_bytes m n s)"
    by (simp add: file_rest_def f)
  then have lb: "length bs = min 1024 (fsize (file_inode n s) - off)"
    using bs len by simp
  have mm: "?mm a = kmem (kern s) a" if "a < buf \<or> buf + 1024 \<le> a" for a
    using that lb by (auto intro: store_bytes_out)
  obtain s' where s': "sys_read ops fd buf 1024 s = Some (Inr (int (length bs), s'))"
    "user_io m start len dbase ops d con fd buf 1024 s'" "kern s' = (kern s)\<lparr>kmem := ?mm\<rparr>"
    "content (fds s') ! nat fd = Some (?f (off + length bs))"
    by (rule user_io_read [OF io f file_dispatch [OF user_ioD(1) [OF io] ino n off bs [unfolded rest]] mm])
  have off': "off + length bs \<le> fsize (file_inode n s)" "(off + length bs) mod 1024 = 0 \<or> off + length bs = fsize (file_inode n s)"
    using off lb by (auto simp: min_def)
  note good = file_goodI [OF s'(2) n ino _ s'(4) off']
  have "drop (off + length bs) (file_bytes m n s) = drop 1024 (file_rest m fd n s)"
    using rest lb len by (auto simp: min_def add.commute)
  then show ?thesis
    using that [OF s'(1)] good s'(3) by (simp add: load_store shown_def)
qed

lemma file_write:
  assumes g: "file_good m start len dbase ops d con fd buf n s" and "k \<le> 1024"
  obtains s' l where "sys_write ops 1 buf (int k) s = Some (Inr (int l, s'))"
    and "file_good m start len dbase ops d con fd buf n s'" and "file_rest m fd n s' = file_rest m fd n s"
    and "shown con s' = emits con (load_bytes (kmem (kern s)) buf k) (shown con s)"
proof (rule file_goodE [OF g])
  fix off ty
  assume io: "user_io m start len dbase ops d con fd buf 1024 s" and n: "n < image_inodes m start"
    and ino: "inode_ok (kissFS (kern s)) (file_inode n s)"
    and f: "content (fds s) ! nat fd = Some \<lparr>f_offset = off, f_fs = KissFs, f_data = KissData (FileData ty n)\<rparr>"
    and off: "off \<le> fsize (file_inode n s)" "off mod 1024 = 0 \<or> off = fsize (file_inode n s)"
  obtain s' dv l where w: "sys_write ops 1 buf (int k) s = Some (Inr (int l, s'))"
    "user_io m start len dbase ops d con fd buf 1024 s'" "kern s' = (kern s)\<lparr>devices := dv\<rparr>"
    "content (fds s') ! nat fd = content (fds s) ! nat fd" "shown con s' = emits con (load_bytes (kmem (kern s)) buf k) (shown con s)"
    by (rule user_io_write [OF io, of k]) (use assms(2) in auto)
  show ?thesis
    using that [OF w(1)] file_goodI [OF w(2) n ino _ w(4) [unfolded f] off] w(3,5) f by (simp add: file_rest_def)
qed

interpretation file_stream: chunk_stream "kernel_os ops o0" fd buf 1024 1024 "file_good m start len dbase ops d con fd buf n"
  "\<lambda>s. chop 1024 (file_rest m fd n s)" "shown con" "emits con"
proof (unfold_locales, goal_cases)
  case (1 s)
  then show ?case
    using file_read [OF 1(1), of "[]"] by (simp add: chop_eq_Nil kernel_os_def) metis
next
  case (2 s c cs)
  then show ?case
    using file_read [OF 2(1), of c] by (simp add: chop_Cons kernel_os_def) metis
next
  case (3 s c)
  then show ?case using chop_size [of 1024 c] by force
next
  case (5 s k)
  show ?case
    by (rule file_write [OF 5], intro exI conjI, simp_all add: kernel_os_def, presburger)
next
  case (6 s m')
  show ?case
  proof (rule file_goodE [OF 6(1)])
    fix off ty
    assume io: "user_io m start len dbase ops d con fd buf 1024 s" and n: "n < image_inodes m start"
      and ino: "inode_ok (kissFS (kern s)) (file_inode n s)"
      and f: "content (fds s) ! nat fd = Some \<lparr>f_offset = off, f_fs = KissFs, f_data = KissData (FileData ty n)\<rparr>"
      and off: "off \<le> fsize (file_inode n s)" "off mod 1024 = 0 \<or> off = fsize (file_inode n s)"
    let ?s = "s\<lparr>kern := (kern s)\<lparr>kmem := m'\<rparr>\<rparr>"
    have "user_io m start len dbase ops d con fd buf 1024 ?s"
      by (rule user_io_poke [OF io]) (use 6(2) in \<open>simp add: kernel_os_def\<close>)
    then show ?case
      using file_goodI [of m start len dbase ops d con fd buf ?s n s off ty] n ino f off by (simp add: kernel_os_def file_rest_def shown_def)
  qed
qed simp

text \<open>What cat prints of a file: of each chunk the part before the first terminator.\<close>

definition cat_text :: "u8 list \<Rightarrow> u8 list" where
  "cat_text c = concat (map text_part (chop 1024 c))"

lemma cat_text_id: "0 \<notin> set c \<Longrightarrow> cat_text c = c"
proof -
  assume z: "0 \<notin> set c"
  have "map text_part (chop 1024 c) = chop 1024 c"
  proof (intro map_idI text_part_id)
    fix x assume "x \<in> set (chop 1024 c)"
    then have "set x \<subseteq> set (concat (chop 1024 c))" by auto
    then show "0 \<notin> set x" using z by (auto simp: concat_chop)
  qed
  then show ?thesis by (simp add: cat_text_def concat_chop)
qed

lemma fold_emits_chunks: "fold (emits con) (chop 1024 c) = fold (con_put con) (cat_text c)"
  by (simp add: fold_emits cat_text_def)

subsection \<open>The directory is a stream\<close>

text \<open>The names ls can print: its buffer has room for 32 bytes, and an empty name ends the listing.\<close>

definition listable :: "mem \<Rightarrow> nat \<Rightarrow> bool" where
  "listable m start \<longleftrightarrow> (\<forall>i < image_count m start. 0 < length (image_name m start i) \<and> length (image_name m start i) < 32)"

lemma name_text: "text_part (image_name m start i @ [10]) = image_name m start i @ [10]"
  by (intro text_part_id) (auto simp: image_name_def name_at_def dest: set_takeWhileD)

lemma fold_emits_names:
  "fold (emits con) (map (\<lambda>i. image_name m start i @ [10]) is) = fold (con_put con) (concat (map (\<lambda>i. image_name m start i @ [10]) is))"
  by (simp add: fold_emits comp_def name_text)

definition dir_good ::
  "mem \<Rightarrow> nat \<Rightarrow> nat \<Rightarrow> nat \<Rightarrow> ('g, 'd, 'k) devops \<Rightarrow> 'd \<Rightarrow> ('k, 'o) console \<Rightarrow> int \<Rightarrow> nat \<Rightarrow> ('g, 'd, 'k) sys \<Rightarrow> bool" where
  "dir_good m start len dbase ops d con fd buf s \<longleftrightarrow> user_io m start len dbase ops d con fd buf 33 s \<and> listable m start \<and>
     (\<exists>off pos. content (fds s) ! nat fd =
       Some \<lparr>f_offset = off, f_fs = KissFs, f_data = KissData (DirData pos (image_count m start))\<rparr>)"

definition dir_rest :: "mem \<Rightarrow> nat \<Rightarrow> int \<Rightarrow> ('g, 'd, 'k) sys \<Rightarrow> u8 list list" where
  "dir_rest m start fd s = (case f_data (the (content (fds s) ! nat fd)) of
     KissData (DirData pos mx) \<Rightarrow> map (image_name m start) [pos..<mx] | _ \<Rightarrow> [])"

lemma dir_goodE:
  assumes "dir_good m start len dbase ops d con fd buf s"
  obtains off pos where "user_io m start len dbase ops d con fd buf 33 s" and "listable m start"
    and "content (fds s) ! nat fd = Some \<lparr>f_offset = off, f_fs = KissFs, f_data = KissData (DirData pos (image_count m start))\<rparr>"
    and "dir_rest m start fd s = map (image_name m start) [pos..<image_count m start]"
proof -
  obtain off pos where "user_io m start len dbase ops d con fd buf 33 s" "listable m start"
    "content (fds s) ! nat fd = Some \<lparr>f_offset = off, f_fs = KissFs, f_data = KissData (DirData pos (image_count m start))\<rparr>"
    using assms unfolding dir_good_def by (elim conjE exE) (rule that; assumption)
  then show ?thesis using that by (simp add: dir_rest_def)
qed

lemma dir_goodI:
  assumes "user_io m start len dbase ops d con fd buf 33 s" and "listable m start"
    and "content (fds s) ! nat fd = Some \<lparr>f_offset = off, f_fs = KissFs, f_data = KissData (DirData pos (image_count m start))\<rparr>"
  shows "dir_good m start len dbase ops d con fd buf s" and "dir_rest m start fd s = map (image_name m start) [pos..<image_count m start]"
  using assms by (simp_all add: dir_good_def dir_rest_def)

lemma booted_names: "booted m start len dbase k \<Longrightarrow> names_at m start dbase (kissFS k) (kmem k)"
proof -
  assume "booted m start len dbase k"
  then obtain m1 where "image_apart start dbase" "load_image m start len dbase = Some (Inr (kissFS k, m1))"
    and same: "\<And>a. dbase \<le> a \<Longrightarrow> a < dbase + 64 * sizeof_dentry \<Longrightarrow> kmem k a = m1 a"
    by (auto simp: booted_def)
  then have "names_at m start dbase (kissFS k) m1"
    using load_image_names by (simp add: names_at_def)
  then show ?thesis using same by (rule names_at_keep)
qed

lemma user_buffer_apart:
  assumes "user_buffer start len dbase buf cap s" and "0 < cap"
  shows "buf + cap \<le> dbase \<or> dbase + 64 * sizeof_dentry \<le> buf"
proof (rule ccontr)
  assume *: "\<not> ?thesis"
  then have "boot_area start len dbase (kern s) (max buf dbase)"
    by (simp add: boot_area_def sizeof_dentry_def)
  from user_buffer_area [OF assms(1) this] * assms(2) show False by (simp add: max_def split: if_splits)
qed

lemma dir_read:
  assumes g: "dir_good m start len dbase ops d con fd buf s"
  obtains s' where "dir_rest m start fd s = []" and "sys_read ops fd buf 32 s = Some (Inr (0, s'))"
    and "dir_good m start len dbase ops d con fd buf s'" and "shown con s' = shown con s"
  | c cs s' where "dir_rest m start fd s = c # cs" and "sys_read ops fd buf 32 s = Some (Inr (int (length c), s'))"
    and "dir_good m start len dbase ops d con fd buf s'" and "dir_rest m start fd s' = cs"
    and "shown con s' = shown con s" and "load_bytes (kmem (kern s')) buf (length c) = c"
proof (rule dir_goodE [OF g])
  fix off pos
  let ?n = "image_count m start" and ?nm = "image_name m start pos"
  let ?f = "\<lambda>off pos. \<lparr>f_offset = off, f_fs = KissFs, f_data = KissData (DirData pos ?n)\<rparr>"
  assume io: "user_io m start len dbase ops d con fd buf 33 s" and li: "listable m start"
    and f: "content (fds s) ! nat fd = Some (?f off pos)" and rest: "dir_rest m start fd s = map (image_name m start) [pos..<?n]"
  have sz: "to_size 32 = 32" by (simp add: to_size_def)
  show ?thesis
  proof (cases "pos < ?n")
    case False
    have "Dispatcher_read ops (?f off pos) buf (to_size 32) (kern s) =
        Some (Inr (0, ?f (to_size (int off + 0)) pos, (kern s)\<lparr>kmem := kmem (kern s)\<rparr>))"
      using False by (simp add: Dispatcher_read_def fs_read_def KissFS_read_def readDir_def)
    then obtain s' where s': "sys_read ops fd buf 32 s = Some (Inr (0, s'))" "user_io m start len dbase ops d con fd buf 33 s'"
      "kern s' = (kern s)\<lparr>kmem := kmem (kern s)\<rparr>" "content (fds s') ! nat fd = Some (?f (to_size (int off + 0)) pos)"
      by (rule user_io_read [OF io f]) simp_all
    then show ?thesis
      using that(1) [OF _ s'(1) dir_goodI(1) [OF s'(2) li s'(4)]] rest False s'(3) by (simp add: shown_def)
  next
    case True
    then have l: "length ?nm < 32" using li by (simp add: listable_def)
    have "buf + 32 \<le> dbase \<or> dbase + 64 * sizeof_dentry \<le> buf"
      using user_buffer_apart [OF user_ioD(4) [OF io]] by auto
    then obtain mm where mm: "readDir (kmem (kern s)) (kissFS (kern s)) pos ?n buf 32 = Some (mm, DirData (pos + 1) ?n, int (length ?nm))"
      "load_bytes mm buf (length ?nm) = ?nm" "\<And>a. a < buf \<or> buf + 32 \<le> a \<Longrightarrow> mm a = kmem (kern s) a"
      by (rule readDir_entry [OF booted_names [OF user_ioD(1) [OF io]] True _ l]) (simp_all add: sizeof_dentry_def)
    let ?off = "to_size (int off + int (length ?nm))"
    have "Dispatcher_read ops (?f off pos) buf (to_size 32) (kern s) =
        Some (Inr (int (length ?nm), ?f ?off (pos + 1), (kern s)\<lparr>kmem := mm\<rparr>))"
      using mm(1) by (simp add: sz Dispatcher_read_def fs_read_def KissFS_read_def)
    then obtain s' where s': "sys_read ops fd buf 32 s = Some (Inr (int (length ?nm), s'))"
      "user_io m start len dbase ops d con fd buf 33 s'" "kern s' = (kern s)\<lparr>kmem := mm\<rparr>"
      "content (fds s') ! nat fd = Some (?f ?off (pos + 1))"
      by (rule user_io_read [OF io f]) (use mm(3) in auto)
    have "dir_rest m start fd s = ?nm # map (image_name m start) [pos + 1..<?n]"
      using rest True by (simp add: upt_conv_Cons)
    then show ?thesis
      using that(2) [OF _ s'(1)] dir_goodI [OF s'(2) li s'(4)] s'(3) mm(2) by (simp add: shown_def)
  qed
qed

interpretation dir_stream: chunk_stream "kernel_os ops o0" fd buf 32 33 "dir_good m start len dbase ops d con fd buf"
  "dir_rest m start fd" "shown con" "emits con"
proof (unfold_locales, goal_cases)
  case (1 s)
  then show ?case
    using dir_read [OF 1(1)] by (simp add: kernel_os_def) (metis list.distinct(1))
next
  case (2 s c cs)
  then show ?case
    using dir_read [OF 2(1)] by (simp add: kernel_os_def) (metis list.distinct(1) list.inject)
next
  case (3 s c)
  from 3(1) show ?case
    by (rule dir_goodE) (use 3(2) in \<open>fastforce simp: listable_def\<close>)
next
  case (5 s k)
  show ?case
  proof (rule dir_goodE [OF 5(1)])
    fix off pos
    assume io: "user_io m start len dbase ops d con fd buf 33 s" and li: "listable m start"
      and f: "content (fds s) ! nat fd = Some \<lparr>f_offset = off, f_fs = KissFs, f_data = KissData (DirData pos (image_count m start))\<rparr>"
      and r: "dir_rest m start fd s = map (image_name m start) [pos..<image_count m start]"
    obtain s' dv l where w: "sys_write ops 1 buf (int k) s = Some (Inr (int l, s'))"
      "user_io m start len dbase ops d con fd buf 33 s'" "kern s' = (kern s)\<lparr>devices := dv\<rparr>"
      "content (fds s') ! nat fd = content (fds s) ! nat fd" "shown con s' = emits con (load_bytes (kmem (kern s)) buf k) (shown con s)"
      by (rule user_io_write [OF io, of k]) (use 5(2) in auto)
    have "int l \<noteq> -1" by presburger
    then show ?case
      using w dir_goodI [OF w(2) li w(4) [unfolded f]] r by (simp add: kernel_os_def)
  qed
next
  case (6 s m')
  show ?case
  proof (rule dir_goodE [OF 6(1)])
    fix off pos
    let ?s = "s\<lparr>kern := (kern s)\<lparr>kmem := m'\<rparr>\<rparr>"
    assume io: "user_io m start len dbase ops d con fd buf 33 s" and li: "listable m start"
      and f: "content (fds s) ! nat fd = Some \<lparr>f_offset = off, f_fs = KissFs, f_data = KissData (DirData pos (image_count m start))\<rparr>"
      and r: "dir_rest m start fd s = map (image_name m start) [pos..<image_count m start]"
    have "user_io m start len dbase ops d con fd buf 33 ?s"
      by (rule user_io_poke [OF io]) (use 6(2) in \<open>simp add: kernel_os_def\<close>)
    then show ?case
      using dir_goodI [of m start len dbase ops d con fd buf ?s off pos] li f r by (simp add: kernel_os_def shown_def)
  qed
qed simp

subsection \<open>Opening a file\<close>

lemma sys_open_eq:
  assumes v: "validUserPointer path s" and so: "stdout_ok d s" and fr: "0 < fd_count (fds s)"
    and op: "Dispatcher_open ops path (kern s) = Some (Inr (Some f, k1))"
  obtains i t where "sys_open ops path s = Some (Inr (int i, t))" and "2 \<le> i" and "i < 128" and "kern t = k1"
    and "cr3val t = cr3val s" and "stdout_ok d t" and "content (fds t) ! i = Some f"
proof -
  have ok: "fd_ok (fds s)" and e: "ensureFdInitialized ops s = Some (Inr (True, s))"
    using so by (simp_all add: stdout_ok_def ensureFdInitialized_def)
  obtain i b where al: "FileDescArr_alloc (fds s) = (Some i, b)" "fd_isfree (fds s) i" "fd_ok b" "content b = content (fds s)"
    "fd_isfree b = (\<lambda>j. j \<noteq> i \<and> fd_isfree (fds s) j)"
    by (rule FileDescArr_alloc_some [OF ok fr])
  have i: "i < 128" "to_int32 i = int i"
    using fd_okD(5) [OF ok al(2)] by (simp_all add: to_int32_def FD_ARRAY_LENGTH_def)
  have i2: "2 \<le> i"
    by (rule leI) (use fixed_not_free [OF ok, of i] al(2) in \<open>auto simp: FD_FIXED_PART_def\<close>)
  let ?t = "set_fd i (Some f) (s\<lparr>proc := (proc s)\<lparr>fileDescs := b\<rparr>, kern := k1\<rparr>)"
  have "sys_open ops path s = Some (Inr (int i, ?t))"
    using v e al(1) op i(2) by (simp add: sys_open_def dispatch_open_def)
  moreover have "fd_ok (fds ?t)" "content (fds ?t) ! j = (if j = i then Some f else content (fds s) ! j)" for j
    using FileDescArr_put_ok(1,4) [OF al(3), of "Some f" i] al(4,5) i(1) by (simp_all add: FD_ARRAY_LENGTH_def)
  moreover from this have "stdout_ok d ?t"
    using so i2 by (simp add: stdout_ok_def) (simp add: set_fd_def)
  ultimately show ?thesis
    using that [of i ?t] i i2 by (simp add: set_fd_def)
qed

text \<open>The argument of the process, fetched into the buffer.\<close>

lemma getargs_copies:
  assumes ub: "user_buffer start len dbase buf 1024 s" and bk: "booted m start len dbase (kern s)"
    and a: "arg (proc s) \<noteq> 0" "cstring (kmem (kern s)) (arg (proc s)) xs" "length xs < 69" "\<forall>c \<in> set xs. c < 128"
  obtains s1 m1 where "getargs buf 1024 s = Some (Inr (0, s1))" and "s1 = s\<lparr>kern := (kern s)\<lparr>kmem := m1\<rparr>\<rparr>"
    and "path_ok (kern s1) buf xs" and "\<And>a. a < buf \<or> buf + 1024 \<le> a \<Longrightarrow> m1 a = kmem (kern s) a"
    and "user_buffer start len dbase buf 1024 s1" and "booted m start len dbase (kern s1)"
proof -
  let ?m = "(store_bytes (kmem (kern s)) buf (load_bytes (kmem (kern s)) (arg (proc s)) (length xs)))(buf + length xs := 0)"
  let ?s1 = "s\<lparr>kern := (kern s)\<lparr>kmem := ?m\<rparr>\<rparr>"
  have "getargs buf 1024 s = Some (Inr (0, ?s1))"
    using user_buffer_valid [OF ub] a strlen_cstring [OF a(2)] by (simp add: getargs_def Let_def)
  moreover have out: "?m a = kmem (kern s) a" if "a < buf \<or> buf + 1024 \<le> a" for a
    using that a(3) by (auto intro: store_bytes_out)
  moreover have "cstring ?m buf xs"
    using a(2) by (auto simp: cstring_load cstring_def store_bytes_def)
  then have "path_ok (kern ?s1) buf xs"
    using a(3,4) ub by (auto simp: path_ok_def user_buffer_def)
  moreover have "user_buffer start len dbase buf 1024 ?s1"
    by (rule user_buffer_mem [OF ub, of "kern ?s1"]) (use out in simp_all)
  moreover have "booted m start len dbase (kern ?s1)"
    using booted_mem [OF bk, of ?m] out user_buffer_area [OF ub] by simp
  ultimately show ?thesis
    using that [of ?s1 ?m] by blast
qed

text \<open>A user process with a page of its own, and a terminal that keeps what is written to it.\<close>

definition sample_term :: "(unit, unit, u8 list) devops" where
  "sample_term = \<lparr>get_instance = \<lambda>_ k. (None, k), dev_read = \<lambda>_ _ _ k. (0, [], k), dev_write = \<lambda>_ bs k. (int (length (text_part bs)), k @ text_part bs),
     dev_canSeek = \<lambda>_. False, dev_seekCallback = \<lambda>_ _ k. k, dev_delete = \<lambda>_ k. k\<rparr>"

definition sample_user :: "(unit, u8 list) kern \<Rightarrow> (unit, unit, u8 list) sys" where
  "sample_user k = \<lparr>kern = k, proc = \<lparr>fileDescs = FileDescArr_put 1 (Some \<lparr>f_offset = 0, f_fs = DevFs, f_data = DevData ()\<rparr>) FileDescArr_new,
     fdInitialized = True, arg = 500000, isKernel = False\<rparr>, cr3val = 899872\<rparr>"

definition sample_console :: "(u8 list, u8 list) console" where
  "sample_console = \<lparr>con_ok = \<lambda>_. True, con_state = \<lambda>k. k, con_put = \<lambda>c l. l @ [c]\<rparr>"

lemma fold_append: "fold (\<lambda>c l. l @ [c]) xs l = l @ xs"
  by (induction xs arbitrary: l) simp_all

lemma sample_terminal: "terminal sample_term () sample_console" "con_ok sample_console k"
  by (simp_all add: terminal_def sample_term_def sample_console_def emits_def fold_append)

lemma sample_shown: "shown sample_console s = devices (kern s)" "fold (con_put sample_console) xs l = l @ xs"
  "con_put sample_console c l = l @ [c]"
  by (simp_all add: sample_console_def shown_def fold_append)

lemma sample_user_ok:
  shows "kern (sample_user k) = k" and "arg (proc (sample_user k)) = 500000" and "stdout_ok () (sample_user k)"
    and "0 < fd_count (fds (sample_user k))"
proof -
  note put = FileDescArr_put_ok [OF FileDescArr_new_ok(1), of "Some \<lparr>f_offset = 0, f_fs = DevFs, f_data = DevData ()\<rparr>" 1]
    fixed_not_free [OF FileDescArr_new_ok(1), of 1]
  show "kern (sample_user k) = k" and "arg (proc (sample_user k)) = 500000" by (simp_all add: sample_user_def)
  show "stdout_ok () (sample_user k)" and "0 < fd_count (fds (sample_user k))"
    using put by (simp_all add: stdout_ok_def sample_user_def FD_FIXED_PART_def FD_ARRAY_LENGTH_def FileDescArr_new_ok)
qed

lemma sample_user_buffer:
  assumes "goodName k = 600000" and "\<And>a. 450000 \<le> a \<Longrightarrow> \<not> boot_area 0 len 300000 k a" and "read32 (kmem k) 900000 = 0x85"
    and "cap \<le> 1024"
  shows "user_buffer 0 len 300000 134217728 cap (sample_user k)"
  using assms by (auto simp: user_buffer_def sample_user_def pde_addr_def HAS_FLAG_def PG_4MB_BASE_def PG_USER_def)





definition sample_dir :: mem where
  "sample_dir a = (if a = 0 \<or> a = 96 then 1 else if a = 64 \<or> a = 134219728 then 46
     else if 400000 \<le> a \<and> a < 400003 then bytes ''rtc'' ! (a - 400000)
     else if 400100 \<le> a \<and> a < 400108 then bytes ''/dev/rtc'' ! (a - 400100)
     else if a = 900000 then 0x85 else 0)"

lemma sample_dir_facts:
  shows "image_count sample_dir 0 = 1" and "image_inodes sample_dir 0 = 0" and "image_name sample_dir 0 0 = bytes ''.''"
    and "image_type sample_dir 0 0 = DIRECTORY"
proof -
  have "cstring sample_dir 64 [46]"
    by (simp add: cstring_def sample_dir_def)
  then show "image_name sample_dir 0 0 = bytes ''.''"
    using name_at_cstring [of sample_dir 64 "[46]" 32] by (simp add: image_name_def bytes_def)
qed (simp_all add: image_count_def image_inodes_def image_type_def read32_def sample_dir_def DIRECTORY_def)


end
