(* ===== verification/KMemMap.thy ===== *)
theory KMemMap
  imports KPalloc
begin

text \<open>
  The page maps of klibs/palloc.cpp: \<open>MemMap\<close> (a page directory and the map back from physical
  to virtual pages), \<open>TinyMemMap\<close> (the pages of one process) and \<open>MemMapManager\<close>, which
  builds the directory of a process beside the one in use and switches to it. Also the step of
  drivers/txtmode.cpp that maps the video memory of a process, the last of \<open>loadProcessMap\<close>.

  The pointer \<open>global_cr3val\<close> and the register CR3 point to the directory of one of the two
  spare maps or to another one, given by its address. Every operation of the manager runs under
  the lock of the paging structures and is one step.
\<close>

subsection \<open>A page map\<close>

definition PhysIdxLength :: nat where "PhysIdxLength = 12"

record MemMap =
  phys2virt :: "nat list"
  virt2phys :: "u32 list"

definition present :: "u32 \<Rightarrow> bool" where
  "present x \<longleftrightarrow> x AND PAGING_PRESENT \<noteq> 0"

definition pindex :: "PhysAddr \<Rightarrow> nat" where
  "pindex pa = unat (PhysAddr_index pa)"

definition kernel_pde :: u32 where
  "kernel_pde = PhysAddr_new 1 PG_GLOABL"

definition resetVPage0And1 :: "MemMap \<Rightarrow> MemMap" where
  "resetVPage0And1 m = m\<lparr>phys2virt := (phys2virt m)[1 := 1], virt2phys := (virt2phys m)[0 := 0, 1 := kernel_pde]\<rparr>"

definition MemMap_clear :: "MemMap \<Rightarrow> MemMap" where
  "MemMap_clear m = resetVPage0And1 (m\<lparr>phys2virt := replicate (2 ^ PhysIdxLength) 0, virt2phys := replicate PD_NUM_ENTRIES 0\<rparr>)"

definition MemMap_new :: MemMap where
  "MemMap_new = MemMap_clear \<lparr>phys2virt = [], virt2phys = []\<rparr>"

definition translate_phys :: "PhysAddr \<Rightarrow> MemMap \<Rightarrow> VirtAddr" where
  "translate_phys pa m = push_bit 22 (of_nat (phys2virt m ! pindex pa))"

definition translate_virt :: "VirtAddr \<Rightarrow> MemMap \<Rightarrow> PhysAddr" where
  "translate_virt va m = virt2phys m ! vindex va"

definition MemMap_add :: "VirtAddr \<Rightarrow> PhysAddr \<Rightarrow> MemMap \<Rightarrow> bool \<times> MemMap" where
  "MemMap_add virt phys m =
     (let vidx = vindex virt; pidx = pindex phys in
      if pidx \<noteq> 1 \<and> (present (virt2phys m ! vidx) \<or> phys2virt m ! pidx \<noteq> 0) then (False, m)
      else if vidx = 0 \<or> vidx = 1 then (False, m)
      else (True, m\<lparr>phys2virt := (if pidx \<noteq> 1 then (phys2virt m)[pidx := vidx] else phys2virt m),
                    virt2phys := (virt2phys m)[vidx := phys]\<rparr>))"

definition MemMap_remove_virt :: "VirtAddr \<Rightarrow> MemMap \<Rightarrow> bool \<times> MemMap" where
  "MemMap_remove_virt addr m =
     (let vidx = vindex addr in
      if \<not> present (virt2phys m ! vidx) then (False, m)
      else let pidx = pindex (virt2phys m ! vidx) in
        if vidx = 0 \<or> vidx = 1 then (False, m)
        else (True, m\<lparr>virt2phys := (virt2phys m)[vidx := 0], phys2virt := (phys2virt m)[pidx := 0]\<rparr>))"

definition MemMap_remove_phys :: "PhysAddr \<Rightarrow> MemMap \<Rightarrow> bool \<times> MemMap" where
  "MemMap_remove_phys addr m =
     (let pidx = pindex addr in
      if phys2virt m ! pidx = 0 then (False, m)
      else let vidx = phys2virt m ! pidx in
        if vidx = 0 \<or> vidx = 1 then (False, m)
        else (True, m\<lparr>virt2phys := (virt2phys m)[vidx := 0], phys2virt := (phys2virt m)[pidx := 0]\<rparr>))"

text \<open>\<open>operator +=\<close>: the second loop copies one entry of the other map per round.\<close>

definition merge_entry :: "MemMap \<Rightarrow> nat \<Rightarrow> MemMap \<Rightarrow> MemMap" where
  "merge_entry that i m =
     (if present (virt2phys that ! i) then
        let pidx = pindex (virt2phys that ! i)
        in m\<lparr>virt2phys := (virt2phys m)[i := virt2phys that ! i],
             phys2virt := (phys2virt m)[pidx := phys2virt that ! pidx]\<rparr>
      else m)"

definition MemMap_merge :: "MemMap \<Rightarrow> MemMap \<Rightarrow> bool \<times> MemMap" where
  "MemMap_merge that m =
     (if list_ex (\<lambda>i. present (virt2phys m ! i) \<and> present (virt2phys that ! i)) [2..<PD_NUM_ENTRIES] then (False, m)
      else (True, fold (merge_entry that) [2..<PD_NUM_ENTRIES] m))"

definition MemMap_assign :: "MemMap \<Rightarrow> MemMap \<Rightarrow> MemMap" where
  "MemMap_assign other m = m\<lparr>phys2virt := phys2virt other, virt2phys := virt2phys other\<rparr>"

subsection \<open>The pages of a process\<close>

record Mapping =
  map_phys :: PhysAddr
  map_virt :: VirtAddr

definition Mapping_new :: Mapping where
  "Mapping_new = \<lparr>map_phys = PhysAddr_new 0xffff 0, map_virt = 0\<rparr>"

record TinyMemMap =
  pdStack :: "Mapping stack"
  isPageUsed :: bitset

definition TinyMemMap_new :: TinyMemMap where
  "TinyMemMap_new = \<lparr>pdStack = Stack_new 1024 Mapping_new, isPageUsed = BitSet_new 1024\<rparr>"

definition TinyMemMap_add :: "VirtAddr \<Rightarrow> PhysAddr \<Rightarrow> TinyMemMap \<Rightarrow> bool \<times> TinyMemMap" where
  "TinyMemMap_add virt phys t =
     (if BitSet_test 1024 (vindex virt) (isPageUsed t) then (False, t)
      else (True, t\<lparr>isPageUsed := BitSet_set 1024 (vindex virt) (isPageUsed t),
                    pdStack := Stack_push 1024 \<lparr>map_phys = phys, map_virt = virt\<rparr> (pdStack t)\<rparr>))"

definition TinyMemMap_remove :: "VirtAddr \<Rightarrow> PhysAddr \<Rightarrow> TinyMemMap \<Rightarrow> (bool \<times> TinyMemMap) kresult" where
  "TinyMemMap_remove virt physIdx t =
     (if BitSet_test 1024 (vindex virt) (isPageUsed t) then
        let t1 = t\<lparr>isPageUsed := BitSet_clear 1024 (vindex virt) (isPageUsed t)\<rparr>
        in kbind (Stack_dropFirst (\<lambda>mp. PhysAddr_eq (map_phys mp) physIdx) (pdStack t1))
             (\<lambda>(r, s). Inr (r \<noteq> None, t1\<lparr>pdStack := s\<rparr>))
      else Inr (False, t))"

subsection \<open>The manager\<close>

datatype pagedir = SpareDir nat | OtherDir u32

record MemMapManager =
  spareMemMaps :: "MemMap list"
  loadedMap :: nat
  bIsStarted :: bool
  commonMemMap :: MemMap
  global_cr3val :: pagedir
  cr3 :: pagedir
  otherDirs :: "u32 \<Rightarrow> u32 list"
  userFirst4MBTable :: "u32 list"
  userTableAddr :: u32

definition MemMapManager_new :: "u32 \<Rightarrow> (u32 \<Rightarrow> u32 list) \<Rightarrow> u32 list \<Rightarrow> u32 \<Rightarrow> MemMapManager" where
  "MemMapManager_new dir dirs table addr =
     \<lparr>spareMemMaps = [MemMap_new, MemMap_new], loadedMap = 0, bIsStarted = False, commonMemMap = MemMap_new,
      global_cr3val = OtherDir dir, cr3 = OtherDir dir, otherDirs = dirs, userFirst4MBTable = table, userTableAddr = addr\<rparr>"

definition RELOAD_CR3 :: "MemMapManager \<Rightarrow> MemMapManager" where
  "RELOAD_CR3 M = M\<lparr>cr3 := global_cr3val M\<rparr>"

definition spare :: "MemMapManager \<Rightarrow> MemMap" where
  "spare M = spareMemMaps M ! loadedMap M"

definition set_spare :: "nat \<Rightarrow> MemMap \<Rightarrow> MemMapManager \<Rightarrow> MemMapManager" where
  "set_spare i m M = M\<lparr>spareMemMaps := (spareMemMaps M)[i := m]\<rparr>"

text \<open>The entries of a directory, and the assignment \<open>global_cr3val[i] = x\<close>.\<close>

definition dir_of :: "pagedir \<Rightarrow> MemMapManager \<Rightarrow> u32 list" where
  "dir_of d M = (case d of SpareDir i \<Rightarrow> virt2phys (spareMemMaps M ! i) | OtherDir a \<Rightarrow> otherDirs M a)"

definition store_dir :: "nat \<Rightarrow> u32 \<Rightarrow> MemMapManager \<Rightarrow> MemMapManager" where
  "store_dir i x M = (case global_cr3val M of
     SpareDir j \<Rightarrow> set_spare j ((spareMemMaps M ! j)\<lparr>virt2phys := (virt2phys (spareMemMaps M ! j))[i := x]\<rparr>) M
   | OtherDir a \<Rightarrow> M\<lparr>otherDirs := (otherDirs M)(a := (otherDirs M a)[i := x])\<rparr>)"

definition loadToCR3 :: "nat \<Rightarrow> MemMapManager \<Rightarrow> MemMapManager" where
  "loadToCR3 i M = RELOAD_CR3 ((set_spare i (resetVPage0And1 (spareMemMaps M ! i)) M)\<lparr>global_cr3val := SpareDir i\<rparr>)"

definition isLoadedToCR3 :: "nat \<Rightarrow> MemMapManager \<Rightarrow> bool" where
  "isLoadedToCR3 i M \<longleftrightarrow> global_cr3val M = SpareDir i"

definition addCommonPage :: "VirtAddr \<Rightarrow> PhysAddr \<Rightarrow> MemMapManager \<Rightarrow> bool \<times> MemMapManager" where
  "addCommonPage virt phys0 M =
     (let phys = (if HAS_FLAG PG_4MB_BASE phys0 \<or> HAS_FLAG PG_4KB_BASE phys0 then phys0 OR PG_GLOABL else phys0)
      in case MemMap_add virt phys (commonMemMap M) of
           (False, _) \<Rightarrow> (False, M)
         | (True, c) \<Rightarrow>
             (case MemMap_add virt phys (spare M) of
                (False, _) \<Rightarrow> (False, M\<lparr>commonMemMap := snd (MemMap_remove_virt virt c)\<rparr>)
              | (True, sp) \<Rightarrow>
                  let M1 = set_spare (loadedMap M) sp (M\<lparr>commonMemMap := c\<rparr>);
                      M2 = (if \<not> bIsStarted M1 then store_dir (vindex virt) phys M1 else M1)
                  in (True, RELOAD_CR3 M2)))"

definition delCommonPage :: "VirtAddr \<Rightarrow> PhysAddr \<Rightarrow> MemMapManager \<Rightarrow> bool \<times> MemMapManager" where
  "delCommonPage virt phys M =
     (case MemMap_remove_virt virt (commonMemMap M) of
        (False, _) \<Rightarrow> (False, M)
      | (True, c) \<Rightarrow>
          (case MemMap_remove_virt virt (spare M) of
             (False, _) \<Rightarrow> (False, M\<lparr>commonMemMap := snd (MemMap_add virt phys c)\<rparr>)
           | (True, sp) \<Rightarrow>
               let M1 = set_spare (loadedMap M) sp (M\<lparr>commonMemMap := c\<rparr>);
                   M2 = (if \<not> bIsStarted M1 then store_dir (vindex virt) 0 M1 else M1)
               in (True, RELOAD_CR3 M2)))"

definition delCommonPage_virt :: "VirtAddr \<Rightarrow> MemMapManager \<Rightarrow> bool \<times> MemMapManager" where
  "delCommonPage_virt virt M = delCommonPage virt (translate_virt virt (commonMemMap M)) M"

definition delCommonPage_phys :: "PhysAddr \<Rightarrow> MemMapManager \<Rightarrow> bool \<times> MemMapManager" where
  "delCommonPage_phys phys M = delCommonPage (translate_phys phys (commonMemMap M)) phys M"

subsection \<open>Mapping the video memory of a process\<close>

definition PRE_INIT_VIDEO :: u32 where "PRE_INIT_VIDEO = 0xB8000"

text \<open>
  The fields of a painter that matter here and the globals it tests; \<open>vidmapOwner\<close> is the
  address of a thread's control block, or 0.
\<close>

record Vidmap =
  isLoadedInVmem :: bool
  bIsVidmapEnabled :: bool
  vidmapOwner :: nat
  backupAddr :: u32
  pcbLoadable :: bool
  canUseCpp :: bool
  isFallbackTerm :: bool

definition tryMapVidmapNolock :: "Vidmap \<Rightarrow> nat \<Rightarrow> MemMapManager \<Rightarrow> MemMapManager" where
  "tryMapVidmapNolock p pcb M =
     (if \<not> pcbLoadable p \<or> \<not> canUseCpp p \<or> isFallbackTerm p then M
      else if pcb \<noteq> vidmapOwner p then M
      else if bIsVidmapEnabled p then
        let a = (if isLoadedInVmem p then PRE_INIT_VIDEO else backupAddr p);
            M1 = M\<lparr>userFirst4MBTable := (userFirst4MBTable M)
              [unat (drop_bit 12 PRE_INIT_VIDEO) := PG_4KB_BASE OR PG_WRITABLE OR PG_USER OR (a AND ALIGN_4KB_ADDR)]\<rparr>
        in RELOAD_CR3 (store_dir 0 (PT_BASE OR (userTableAddr M1 AND ALIGN_4KB_ADDR) OR (PT_WRITABLE OR PT_USER)) M1)
      else RELOAD_CR3 (store_dir 0 0 M))"

subsection \<open>Switching to the pages of a process\<close>

definition map_conflict :: "TinyMemMap \<Rightarrow> MemMapManager \<Rightarrow> Mapping \<Rightarrow> int option" where
  "map_conflict t M v =
     (let virtIdx = vindex (map_virt v);
          ours = present (virt2phys (commonMemMap M) ! virtIdx);
          theirs = BitSet_test 1024 virtIdx (isPageUsed t)
      in if 2 \<le> virtIdx \<and> ours \<and> theirs \<and> \<not> PhysAddr_eq (translate_virt (map_virt v) (commonMemMap M)) (map_phys v)
         then Some 0 else None)"

definition load_mapping :: "Mapping \<Rightarrow> MemMap \<Rightarrow> MemMap" where
  "load_mapping v m = snd (MemMap_add (map_virt v) (map_phys v) m)"

text \<open>The process: its pages, the painter of its terminal (if it has one) and its control block.\<close>

definition loadProcessMap :: "TinyMemMap \<Rightarrow> Vidmap option \<Rightarrow> nat \<Rightarrow> MemMapManager \<Rightarrow> bool \<times> MemMapManager" where
  "loadProcessMap t term pcb M =
     (if \<not> bIsStarted M then (False, M)
      else let i = 1 - loadedMap M;
               m0 = MemMap_clear (spareMemMaps M ! i)
           in if fst (Stack_first 0 (map_conflict t M) (pdStack t)) \<noteq> None then (False, set_spare i m0 M)
              else let m1 = fold load_mapping (take (idx (pdStack t)) (arr (pdStack t))) m0;
                       m2 = snd (MemMap_merge (commonMemMap M) m1);
                       M3 = (loadToCR3 i (set_spare i m2 M))\<lparr>loadedMap := i\<rparr>
                   in (True, case term of None \<Rightarrow> M3 | Some p \<Rightarrow> tryMapVidmapNolock p pcb M3))"

definition MemMapManager_start :: "MemMapManager \<Rightarrow> MemMapManager" where
  "MemMapManager_start M = (loadToCR3 (loadedMap M) M)\<lparr>bIsStarted := True\<rparr>"

definition MemMapManager_stop :: "u32 \<Rightarrow> MemMapManager \<Rightarrow> MemMapManager" where
  "MemMapManager_stop pageDir M = (RELOAD_CR3 (M\<lparr>global_cr3val := OtherDir (REDIRECT_PAGE_DIR pageDir)\<rparr>))\<lparr>bIsStarted := False\<rparr>"

definition MemMapManager_translate_phys :: "PhysAddr \<Rightarrow> MemMapManager \<Rightarrow> VirtAddr" where
  "MemMapManager_translate_phys pa M = translate_phys pa (spare M)"

definition MemMapManager_translate_virt :: "VirtAddr \<Rightarrow> MemMapManager \<Rightarrow> PhysAddr" where
  "MemMapManager_translate_virt va M = translate_virt va (spare M)"

text \<open>The region of virtual addresses \<open>virtLast1G\<close> has 255 pages from 0xc0000000 on.\<close>

definition virtOfPage0 :: "VirtualMemRegion \<Rightarrow> MemMapManager \<Rightarrow> u32 option \<times> VirtualMemRegion \<times> MemMapManager" where
  "virtOfPage0 R M =
     (if \<not> bIsStarted M then (Some 0, R, M)
      else let page0 = PhysAddr_new 0 PG_WRITABLE;
               base = MemMapManager_translate_phys page0 M
           in if base = 0 then
                case virt_allocPage 0xc0000000 255 True R of
                  (None, R1) \<Rightarrow> (None, R1, M)
                | (Some a, R1) \<Rightarrow> (Some a, R1, snd (addCommonPage a page0 M))
              else (Some base, R, M))"

subsection \<open>One page, one address\<close>

lemma vindex_push: "n < 1024 \<Longrightarrow> vindex (push_bit 22 (of_nat n)) = n"
  by (simp add: vindex_div push_bit_eq_mult unat_word_ariths unat_of_nat)

lemma pindex_less: "pindex pa < 4096"
proof -
  have "take_bit 12 (PhysAddr_index pa) = PhysAddr_index pa"
    by (rule bit_eqI) (auto simp: bit_take_bit_iff PhysAddr_index_bit)
  then have "take_bit 12 (unat (PhysAddr_index pa)) = unat (PhysAddr_index pa)"
    by (metis unsigned_take_bit_eq)
  then have "unat (PhysAddr_index pa) < 2 ^ 12"
    by (metis take_bit_nat_less_exp)
  then show ?thesis by (simp add: pindex_def)
qed

definition mm_sized :: "MemMap \<Rightarrow> bool" where
  "mm_sized m \<longleftrightarrow> length (phys2virt m) = 4096 \<and> length (virt2phys m) = 1024"

text \<open>
  The two arrays agree, from the second virtual page on and apart from the kernel's page 1,
  which may be mapped twice.
\<close>

definition mm_ok :: "MemMap \<Rightarrow> bool" where
  "mm_ok m \<longleftrightarrow> mm_sized m \<and> phys2virt m ! 1 \<le> 1 \<and>
     (\<forall>v. 2 \<le> v \<and> v < 1024 \<and> present (virt2phys m ! v) \<and> pindex (virt2phys m ! v) \<noteq> 1 \<longrightarrow>
        phys2virt m ! pindex (virt2phys m ! v) = v) \<and>
     (\<forall>p. p < 4096 \<and> p \<noteq> 1 \<and> phys2virt m ! p \<noteq> 0 \<longrightarrow> 2 \<le> phys2virt m ! p \<and> phys2virt m ! p < 1024 \<and>
        present (virt2phys m ! (phys2virt m ! p)) \<and> pindex (virt2phys m ! (phys2virt m ! p)) = p)"

lemma present_0 [simp]: "\<not> present 0"
  by (simp add: present_def)

lemma mm_ok_new: "mm_ok MemMap_new"
  by (auto simp: mm_ok_def mm_sized_def MemMap_new_def MemMap_clear_def resetVPage0And1_def PhysIdxLength_def
      PD_NUM_ENTRIES_def nth_list_update)

lemma mm_ok_add:
  assumes "mm_ok m" and "present phys" and "pindex phys \<noteq> 1"
  shows "mm_ok (snd (MemMap_add virt phys m))"
  using assms pindex_less [of phys] vindex_less [of virt]
  by (auto simp: MemMap_add_def Let_def mm_ok_def mm_sized_def nth_list_update split: if_splits)

lemma mm_okD:
  assumes "mm_ok m"
  shows "mm_sized m" and "phys2virt m ! 1 \<le> 1"
    and "2 \<le> v \<Longrightarrow> v < 1024 \<Longrightarrow> present (virt2phys m ! v) \<Longrightarrow> pindex (virt2phys m ! v) \<noteq> 1 \<Longrightarrow>
      phys2virt m ! pindex (virt2phys m ! v) = v"
    and "p < 4096 \<Longrightarrow> p \<noteq> 1 \<Longrightarrow> phys2virt m ! p \<noteq> 0 \<Longrightarrow> 2 \<le> phys2virt m ! p \<and> phys2virt m ! p < 1024 \<and>
      present (virt2phys m ! (phys2virt m ! p)) \<and> pindex (virt2phys m ! (phys2virt m ! p)) = p"
  using assms unfolding mm_ok_def by blast+

text \<open>Taking out a page and the entry that leads back to it.\<close>

lemma mm_ok_unlink:
  assumes ok: "mm_ok m" and v: "2 \<le> v" "v < 1024" and p: "p = pindex (virt2phys m ! v)" and pr: "present (virt2phys m ! v)"
  shows "mm_ok (m\<lparr>virt2phys := (virt2phys m)[v := 0], phys2virt := (phys2virt m)[p := 0]\<rparr>)"
proof -
  have sz: "length (phys2virt m) = 4096" "length (virt2phys m) = 1024"
    using mm_okD(1) [OF ok] by (simp_all add: mm_sized_def)
  have other: "pindex (virt2phys m ! w) \<noteq> p" if "2 \<le> w" "w < 1024" "w \<noteq> v" "present (virt2phys m ! w)" "pindex (virt2phys m ! w) \<noteq> 1" for w
    using mm_okD(3) [OF ok that(1,2,4,5)] mm_okD(3) [OF ok v pr] that(3,5) p by auto
  have rev: "phys2virt m ! q \<noteq> v" if "q < 4096" "q \<noteq> 1" "phys2virt m ! q \<noteq> 0" "q \<noteq> p" for q
    using mm_okD(4) [OF ok that(1-3)] that(4) p by auto
  have pv: "(phys2virt m)[p := 0] ! q = (if q = p then 0 else phys2virt m ! q)" for q
    using sz pindex_less [of "virt2phys m ! v"] p by simp
  have vp: "(virt2phys m)[v := 0] ! w = (if w = v then 0 else virt2phys m ! w)" for w
    using sz v by simp
  have "(phys2virt m)[p := 0] ! pindex ((virt2phys m)[v := 0] ! w) = w"
    if "2 \<le> w" "w < 1024" "present ((virt2phys m)[v := 0] ! w)" "pindex ((virt2phys m)[v := 0] ! w) \<noteq> 1" for w
    using that other [of w] mm_okD(3) [OF ok, of w] unfolding pv vp by (auto split: if_splits)
  moreover have "2 \<le> (phys2virt m)[p := 0] ! q \<and> (phys2virt m)[p := 0] ! q < 1024 \<and>
      present ((virt2phys m)[v := 0] ! ((phys2virt m)[p := 0] ! q)) \<and> pindex ((virt2phys m)[v := 0] ! ((phys2virt m)[p := 0] ! q)) = q"
    if "q < 4096" "q \<noteq> 1" "(phys2virt m)[p := 0] ! q \<noteq> 0" for q
    using that rev [of q] mm_okD(4) [OF ok, of q] unfolding pv vp by (auto split: if_splits)
  moreover have "(phys2virt m)[p := 0] ! 1 \<le> 1"
    using mm_okD(2) [OF ok] unfolding pv by simp
  ultimately show ?thesis
    using sz by (simp add: mm_ok_def mm_sized_def)
qed

lemma mm_ok_remove_virt: "mm_ok m \<Longrightarrow> mm_ok (snd (MemMap_remove_virt virt m))"
  using mm_ok_unlink [of m "vindex virt"] vindex_less [of virt] by (auto simp: MemMap_remove_virt_def Let_def)

lemma mm_ok_remove_phys:
  assumes "mm_ok m"
  shows "mm_ok (snd (MemMap_remove_phys pa m))"
proof (cases "phys2virt m ! pindex pa \<le> 1")
  case True
  then show ?thesis using assms by (auto simp: MemMap_remove_phys_def Let_def)
next
  case False
  then have "pindex pa \<noteq> 1" using mm_okD(2) [OF assms] by auto
  with False mm_okD(4) [OF assms pindex_less, of pa] mm_ok_unlink [OF assms, of "phys2virt m ! pindex pa" "pindex pa"] assms
  show ?thesis by (auto simp: MemMap_remove_phys_def Let_def)
qed

text \<open>Any sequence of changes to a page map.\<close>

datatype map_op = MapAdd VirtAddr PhysAddr | MapDelVirt VirtAddr | MapDelPhys PhysAddr

fun map_step :: "map_op \<Rightarrow> MemMap \<Rightarrow> MemMap" where
  "map_step (MapAdd v p) m = snd (MemMap_add v p m)"
| "map_step (MapDelVirt v) m = snd (MemMap_remove_virt v m)"
| "map_step (MapDelPhys p) m = snd (MemMap_remove_phys p m)"

lemma map_steps_ok:
  assumes "\<forall>v p. MapAdd v p \<in> set ops \<longrightarrow> present p \<and> pindex p \<noteq> 1" and "mm_ok m"
  shows "mm_ok (fold map_step ops m)"
  using assms
proof (induction ops arbitrary: m)
  case (Cons x ops)
  then have "mm_ok (map_step x m)"
  proof (cases x)
    case (MapAdd v p)
    then show ?thesis
      using Cons.prems(1) mm_ok_add [OF Cons.prems(2), of p v] by simp
  qed (use Cons.prems(2) mm_ok_remove_virt mm_ok_remove_phys in simp_all)
  with Cons show ?case by simp
qed simp


lemma sample_pde: "present (PhysAddr_new 5 6)" "pindex (PhysAddr_new 5 6) = 5" "present (PhysAddr_new 7 6)" "pindex (PhysAddr_new 7 6) = 7"
  by (simp_all add: present_def pindex_def PhysAddr_new_def PhysAddr_index_def PG_4MB_BASE_def PAGING_PRESENT_def)


subsection \<open>The pages of a process\<close>

abbreviation mappings :: "TinyMemMap \<Rightarrow> Mapping list" where
  "mappings t \<equiv> Stack_list (pdStack t)"

definition page_map :: "Mapping list \<Rightarrow> nat \<rightharpoonup> u32" where
  "page_map vs = map_of (map (\<lambda>x. (vindex (map_virt x), map_phys x)) vs)"

text \<open>The stack holds every used virtual page once and the bit set marks these pages.\<close>

definition tiny_ok :: "TinyMemMap \<Rightarrow> bool" where
  "tiny_ok t \<longleftrightarrow> Stack_inv 1024 (pdStack t) \<and> BitSet_inv 1024 (isPageUsed t) \<and> distinct (map (\<lambda>x. vindex (map_virt x)) (mappings t)) \<and>
     (\<forall>k. BitSet_test 1024 k (isPageUsed t) \<longleftrightarrow> k \<in> (\<lambda>x. vindex (map_virt x)) ` set (mappings t))"

lemma tiny_ok_new: "tiny_ok TinyMemMap_new" "mappings TinyMemMap_new = []"
  by (simp_all add: tiny_ok_def TinyMemMap_new_def)

lemma tiny_room:
  assumes "tiny_ok t" and "\<not> BitSet_test 1024 k (isPageUsed t)" and "k < 1024"
  shows "length (mappings t) < 1024"
proof -
  let ?ks = "map (\<lambda>x. vindex (map_virt x)) (mappings t)"
  have "set ?ks \<subseteq> {..<1024} - {k}"
    using assms vindex_less by (auto simp: tiny_ok_def)
  then have "card (set ?ks) \<le> card ({..<1024 :: nat} - {k})"
    by (intro card_mono) auto
  moreover have "card (set ?ks) = length (mappings t)"
    using assms(1) distinct_card [of ?ks] by (simp add: tiny_ok_def)
  ultimately show ?thesis using assms(3) by simp
qed

lemma tiny_add:
  assumes "tiny_ok t" and "TinyMemMap_add virt phys t = (r, t')"
  shows "tiny_ok t'" and "r \<longleftrightarrow> vindex virt \<notin> (\<lambda>x. vindex (map_virt x)) ` set (mappings t)"
    and "mappings t' = (if r then mappings t @ [\<lparr>map_phys = phys, map_virt = virt\<rparr>] else mappings t)"
proof -
  show r: "r \<longleftrightarrow> vindex virt \<notin> (\<lambda>x. vindex (map_virt x)) ` set (mappings t)"
    using assms by (auto simp: TinyMemMap_add_def tiny_ok_def split: if_splits)
  show m: "mappings t' = (if r then mappings t @ [\<lparr>map_phys = phys, map_virt = virt\<rparr>] else mappings t)"
    using assms tiny_room [OF assms(1), of "vindex virt"] vindex_less [of virt]
    by (auto simp: TinyMemMap_add_def tiny_ok_def Stack_push_list split: if_splits)
  show "tiny_ok t'"
  proof (cases r)
    case True
    then have "t' = t\<lparr>isPageUsed := BitSet_set 1024 (vindex virt) (isPageUsed t),
        pdStack := Stack_push 1024 \<lparr>map_phys = phys, map_virt = virt\<rparr> (pdStack t)\<rparr>"
      using assms(2) by (auto simp: TinyMemMap_add_def split: if_splits)
    with True r m assms(1) vindex_less [of virt] show ?thesis
      by (auto simp: tiny_ok_def Stack_push_inv BitSet_test_set)
  qed (use assms in \<open>auto simp: TinyMemMap_add_def split: if_splits\<close>)
qed

subsection \<open>The directory of a process\<close>

lemma clear_entries:
  assumes "v < 1024" and "p < 4096"
  shows "virt2phys (MemMap_clear m) ! v = (if v = 1 then kernel_pde else 0)"
    and "phys2virt (MemMap_clear m) ! p = (if p = 1 then 1 else 0)" and "mm_sized (MemMap_clear m)"
  using assms by (auto simp: MemMap_clear_def resetVPage0And1_def PhysIdxLength_def PD_NUM_ENTRIES_def nth_list_update mm_sized_def)

text \<open>Adding the pages of a process to a map in which neither their addresses nor they occur.\<close>

lemma load_mappings:
  assumes "mm_sized m" and "distinct (map (\<lambda>x. vindex (map_virt x)) vs)" and "distinct (map (\<lambda>x. pindex (map_phys x)) vs)"
    and "\<forall>x \<in> set vs. 2 \<le> vindex (map_virt x) \<and> pindex (map_phys x) \<noteq> 1 \<and> \<not> present (virt2phys m ! vindex (map_virt x)) \<and>
      phys2virt m ! pindex (map_phys x) = 0"
  shows "mm_sized (fold load_mapping vs m) \<and> (\<forall>v < 1024. virt2phys (fold load_mapping vs m) ! v =
    (case page_map vs v of Some pde \<Rightarrow> pde | None \<Rightarrow> virt2phys m ! v))"
  using assms
proof (induction vs arbitrary: m)
  case (Cons x vs)
  let ?v = "vindex (map_virt x)" and ?p = "pindex (map_phys x)"
  have m1: "load_mapping x m = m\<lparr>phys2virt := (phys2virt m)[?p := ?v], virt2phys := (virt2phys m)[?v := map_phys x]\<rparr>"
    using Cons.prems(4) by (simp add: load_mapping_def MemMap_add_def Let_def)
  have v: "virt2phys (load_mapping x m) ! w = (if w = ?v then map_phys x else virt2phys m ! w)" for w
    using Cons.prems(1) vindex_less [of "map_virt x"] by (simp add: m1 mm_sized_def)
  have p: "phys2virt (load_mapping x m) ! q = (if q = ?p then ?v else phys2virt m ! q)" for q
    using Cons.prems(1) pindex_less [of "map_phys x"] by (simp add: m1 mm_sized_def)
  have sz: "mm_sized (load_mapping x m)"
    using Cons.prems(1) by (simp add: m1 mm_sized_def)
  have "2 \<le> vindex (map_virt y) \<and> pindex (map_phys y) \<noteq> 1 \<and> \<not> present (virt2phys (load_mapping x m) ! vindex (map_virt y)) \<and>
      phys2virt (load_mapping x m) ! pindex (map_phys y) = 0" if "y \<in> set vs" for y
  proof -
    have "vindex (map_virt y) \<noteq> ?v" "pindex (map_phys y) \<noteq> ?p" using Cons.prems(2,3) that by (force simp: image_iff)+
    moreover have "2 \<le> vindex (map_virt y) \<and> pindex (map_phys y) \<noteq> 1 \<and> \<not> present (virt2phys m ! vindex (map_virt y)) \<and>
      phys2virt m ! pindex (map_phys y) = 0" using Cons.prems(4) that by (metis list.set_intros(2))
    ultimately show ?thesis by (simp add: v p)
  qed
  then have IH: "mm_sized (fold load_mapping vs (load_mapping x m)) \<and> (\<forall>w < 1024. virt2phys (fold load_mapping vs (load_mapping x m)) ! w =
      (case page_map vs w of Some pde \<Rightarrow> pde | None \<Rightarrow> virt2phys (load_mapping x m) ! w))"
    using Cons.prems(2,3) sz by (intro Cons.IH) simp_all
  have "page_map vs ?v = None"
    using Cons.prems(2) by (auto simp: page_map_def map_of_eq_None_iff)
  with IH show ?case
    by (auto simp: v page_map_def split: option.splits)
qed (simp add: page_map_def)

lemma merge_entries:
  assumes "mm_sized m" and "\<forall>i \<in> set is. i < 1024"
  shows "mm_sized (fold (merge_entry that) is m) \<and> (\<forall>v < 1024. virt2phys (fold (merge_entry that) is m) ! v =
    (if v \<in> set is \<and> present (virt2phys that ! v) then virt2phys that ! v else virt2phys m ! v))"
  using assms
proof (induction "is" arbitrary: m)
  case (Cons i "is")
  have 1: "mm_sized (merge_entry that i m)"
    using Cons.prems(1) by (simp add: merge_entry_def Let_def mm_sized_def)
  have "virt2phys (merge_entry that i m) ! v = (if v = i \<and> present (virt2phys that ! v) then virt2phys that ! v else virt2phys m ! v)" for v
    using Cons.prems by (auto simp: merge_entry_def Let_def mm_sized_def)
  with Cons.IH [OF 1] Cons.prems(2) show ?case by auto
qed simp

definition man_ok :: "MemMapManager \<Rightarrow> bool" where
  "man_ok M \<longleftrightarrow> length (spareMemMaps M) = 2 \<and> loadedMap M < 2 \<and> mm_sized (commonMemMap M)"

text \<open>The pages a process may have: present entries for different pages, none of them 0 or 1.\<close>

definition user_pages :: "Mapping list \<Rightarrow> bool" where
  "user_pages vs \<longleftrightarrow> distinct (map (\<lambda>x. pindex (map_phys x)) vs) \<and>
     (\<forall>x \<in> set vs. 2 \<le> vindex (map_virt x) \<and> present (map_phys x) \<and> pindex (map_phys x) \<noteq> 1)"

definition apart_from :: "MemMap \<Rightarrow> Mapping list \<Rightarrow> bool" where
  "apart_from c vs \<longleftrightarrow> (\<forall>x \<in> set vs. \<not> present (virt2phys c ! vindex (map_virt x)))"

lemma page_map_in: "page_map vs v = Some pde \<Longrightarrow> \<exists>x \<in> set vs. vindex (map_virt x) = v \<and> map_phys x = pde"
  unfolding page_map_def by (drule map_of_SomeD) auto

text \<open>The map that \<open>loadProcessMap\<close> builds, before it is loaded.\<close>

lemma process_map:
  assumes "mm_sized c" and "tiny_ok t" and up: "user_pages (mappings t)" and "apart_from c (mappings t)"
    and m1: "m1 = fold load_mapping (mappings t) (MemMap_clear m)"
  shows "mm_sized (snd (MemMap_merge c m1))" and "v < 1024 \<Longrightarrow> 2 \<le> v \<Longrightarrow> virt2phys (snd (MemMap_merge c m1)) ! v =
    (case page_map (mappings t) v of Some pde \<Rightarrow> pde | None \<Rightarrow> if present (virt2phys c ! v) then virt2phys c ! v else 0)"
proof -
  have fresh: "\<forall>x \<in> set (mappings t). 2 \<le> vindex (map_virt x) \<and> pindex (map_phys x) \<noteq> 1 \<and>
      \<not> present (virt2phys (MemMap_clear m) ! vindex (map_virt x)) \<and> phys2virt (MemMap_clear m) ! pindex (map_phys x) = 0"
    using up clear_entries [OF vindex_less pindex_less] by (auto simp: user_pages_def)
  have m: "mm_sized m1" "\<And>w. w < 1024 \<Longrightarrow> virt2phys m1 ! w =
      (case page_map (mappings t) w of Some pde \<Rightarrow> pde | None \<Rightarrow> virt2phys (MemMap_clear m) ! w)"
    using load_mappings [OF clear_entries(3) [of 0 0] _ _ fresh] assms(2) up m1 by (auto simp: tiny_ok_def user_pages_def)
  have old: "virt2phys m1 ! w = (case page_map (mappings t) w of Some pde \<Rightarrow> pde | None \<Rightarrow> 0)" if "w < 1024" "2 \<le> w" for w
    using m(2) [OF that(1)] clear_entries(1) [OF that(1), of 0 m] that(2) by (simp split: option.splits)
  have apart: "\<not> present (virt2phys c ! w)" if "page_map (mappings t) w = Some pde" for w pde
    using page_map_in [OF that] assms(4) by (auto simp: apart_from_def)
  have rng: "i \<in> set [2..<PD_NUM_ENTRIES] \<longleftrightarrow> 2 \<le> i \<and> i < 1024" for i
    by (simp only: set_upt atLeastLessThan_iff PD_NUM_ENTRIES_def)
  have "\<not> (present (virt2phys m1 ! w) \<and> present (virt2phys c ! w))" if "w < 1024" "2 \<le> w" for w
    using old [OF that] apart [of w] by (cases "page_map (mappings t) w") auto
  then have "\<not> list_ex (\<lambda>i. present (virt2phys m1 ! i) \<and> present (virt2phys c ! i)) [2..<PD_NUM_ENTRIES]"
    using rng by (auto simp only: list_ex_iff)
  then have mg: "snd (MemMap_merge c m1) = fold (merge_entry c) [2..<PD_NUM_ENTRIES] m1"
    by (simp add: MemMap_merge_def)
  note * = merge_entries [OF m(1), of "[2..<PD_NUM_ENTRIES]" c, unfolded Ball_def rng]
  show "mm_sized (snd (MemMap_merge c m1))" using * mg by simp
  show "virt2phys (snd (MemMap_merge c m1)) ! v =
    (case page_map (mappings t) v of Some pde \<Rightarrow> pde | None \<Rightarrow> if present (virt2phys c ! v) then virt2phys c ! v else 0)"
    if "v < 1024" "2 \<le> v"
    using * mg that old [OF that] apart [of v] by (cases "page_map (mappings t) v") simp_all
qed

lemma no_conflict:
  assumes "apart_from (commonMemMap M) (mappings t)"
  shows "fst (Stack_first 0 (map_conflict t M) (pdStack t)) = None"
  using assms by (auto simp: Stack_first_def first_loop_None map_conflict_def Let_def apart_from_def Stack_list_def)

text \<open>What the step for the video memory leaves alone: everything but entry 0 of the directory in use.\<close>

lemma vidmap_entry:
  assumes "global_cr3val M = SpareDir i" and "cr3 M = SpareDir i" and "i < length (spareMemMaps M)"
  shows "cr3 (tryMapVidmapNolock p pcb M) = SpareDir i" and "loadedMap (tryMapVidmapNolock p pcb M) = loadedMap M"
    and "commonMemMap (tryMapVidmapNolock p pcb M) = commonMemMap M"
    and "0 < v \<or> pcb \<noteq> vidmapOwner p \<Longrightarrow> dir_of (SpareDir i) (tryMapVidmapNolock p pcb M) ! v = dir_of (SpareDir i) M ! v"
  using assms by (auto simp: tryMapVidmapNolock_def Let_def RELOAD_CR3_def store_dir_def set_spare_def dir_of_def)

lemma load_spare:
  assumes "i < length (spareMemMaps M)" and "mm_sized m" and M': "M' = (loadToCR3 i (set_spare i m M))\<lparr>loadedMap := i\<rparr>"
  shows "global_cr3val M' = SpareDir i" and "cr3 M' = SpareDir i" and "i < length (spareMemMaps M')" and "commonMemMap M' = commonMemMap M"
    and "loadedMap M' = i" and "dir_of (SpareDir i) M' ! 0 = 0" and "dir_of (SpareDir i) M' ! 1 = kernel_pde"
    and "2 \<le> v \<Longrightarrow> dir_of (SpareDir i) M' ! v = virt2phys m ! v"
  using assms by (auto simp: loadToCR3_def set_spare_def RELOAD_CR3_def dir_of_def resetVPage0And1_def mm_sized_def)

text \<open>
  C36: switching to a process. When its pages are different present pages at addresses from the
  second page on that the common map does not use, \<open>loadProcessMap\<close> succeeds and the directory
  in CR3 has exactly: the page of the kernel at 1, the pages of the process, the common pages,
  and nothing else. So no page of another process stays mapped. Page 0 is not present unless
  the process owns the video memory of its terminal.
\<close>

theorem process_directory:
  assumes ok: "man_ok M" "bIsStarted M" and t: "tiny_ok t" "user_pages (mappings t)" "apart_from (commonMemMap M) (mappings t)"
  shows "\<exists>M'. loadProcessMap t term pcb M = (True, M') \<and> loadedMap M' = 1 - loadedMap M \<and> cr3 M' = SpareDir (loadedMap M') \<and>
    commonMemMap M' = commonMemMap M \<and> dir_of (cr3 M') M' ! 1 = kernel_pde \<and>
    (\<forall>v. 2 \<le> v \<and> v < 1024 \<longrightarrow> dir_of (cr3 M') M' ! v = (case page_map (mappings t) v of
      Some pde \<Rightarrow> pde | None \<Rightarrow> if present (virt2phys (commonMemMap M) ! v) then virt2phys (commonMemMap M) ! v else 0)) \<and>
    ((\<forall>p. term = Some p \<longrightarrow> vidmapOwner p \<noteq> pcb) \<longrightarrow> dir_of (cr3 M') M' ! 0 = 0)"
proof -
  define i where "i = 1 - loadedMap M"
  define m2 where "m2 = snd (MemMap_merge (commonMemMap M) (fold load_mapping (mappings t) (MemMap_clear (spareMemMaps M ! i))))"
  define M3 where "M3 = (loadToCR3 i (set_spare i m2 M))\<lparr>loadedMap := i\<rparr>"
  have i: "i < length (spareMemMaps M)" and c: "mm_sized (commonMemMap M)" using ok(1) by (simp_all add: man_ok_def i_def)
  note pm = process_map [OF c t refl, where m = "spareMemMaps M ! i", folded m2_def]
  note ld = load_spare [OF i pm(1) M3_def]
  have l: "loadProcessMap t term pcb M = (True, case term of None \<Rightarrow> M3 | Some p \<Rightarrow> tryMapVidmapNolock p pcb M3)"
    using ok(2) no_conflict [OF t(3)] by (cases "term") (simp_all add: loadProcessMap_def Let_def Stack_list_def M3_def m2_def i_def)
  show ?thesis
  proof (cases "term")
    case None
    then show ?thesis unfolding l i_def [symmetric] using ld pm(2) by auto
  next
    case (Some p)
    then show ?thesis unfolding l i_def [symmetric] using ld pm(2) vidmap_entry [OF ld(1-3), where p = p and pcb = pcb] by auto
  qed
qed

definition sample_manager :: MemMapManager where
  "sample_manager = MemMapManager_start (snd (addCommonPage 0xc0000000 (PhysAddr_new 7 2) (MemMapManager_new 0x400000 (\<lambda>_. replicate 1024 0) [] 0)))"

definition sample_tiny :: TinyMemMap where
  "sample_tiny = snd (TinyMemMap_add 0x8000000 (PhysAddr_new 5 6) TinyMemMap_new)"

lemma sample_tiny_ok: "tiny_ok sample_tiny" "mappings sample_tiny = [\<lparr>map_phys = PhysAddr_new 5 6, map_virt = 0x8000000\<rparr>]"
  using tiny_add [OF tiny_ok_new(1), of "0x8000000" "PhysAddr_new 5 6"] tiny_ok_new(2)
  by (auto simp: sample_tiny_def prod_eq_iff)

lemma sample_manager_common:
  "commonMemMap sample_manager = snd (MemMap_add 0xc0000000 (PhysAddr_new 7 2 OR PG_GLOABL) MemMap_new)"
  "bIsStarted sample_manager" "length (spareMemMaps sample_manager) = 2" "loadedMap sample_manager = 0"
proof -
  have h: "HAS_FLAG PG_4MB_BASE (PhysAddr_new 7 2)"
    by (simp add: HAS_FLAG_def PhysAddr_new_def PG_4MB_BASE_def)
  obtain c where c: "MemMap_add 0xc0000000 (PhysAddr_new 7 2 OR PG_GLOABL) MemMap_new = (True, c)"
    by (simp add: MemMap_add_def Let_def MemMap_new_def MemMap_clear_def resetVPage0And1_def PhysIdxLength_def PD_NUM_ENTRIES_def
        nth_list_update vindex_div pindex_def PhysAddr_new_def PhysAddr_index_def PG_4MB_BASE_def PG_GLOABL_def)
  show "commonMemMap sample_manager = snd (MemMap_add 0xc0000000 (PhysAddr_new 7 2 OR PG_GLOABL) MemMap_new)"
    "bIsStarted sample_manager" "length (spareMemMaps sample_manager) = 2" "loadedMap sample_manager = 0"
    by (simp_all add: sample_manager_def MemMapManager_start_def loadToCR3_def RELOAD_CR3_def set_spare_def addCommonPage_def Let_def h
        MemMapManager_new_def c spare_def store_dir_def)
qed

theorem process_directory_witness:
  "\<exists>M'. loadProcessMap sample_tiny None 9 sample_manager = (True, M') \<and> dir_of (cr3 M') M' ! 0 = 0 \<and> dir_of (cr3 M') M' ! 1 = kernel_pde \<and>
    dir_of (cr3 M') M' ! 32 = PhysAddr_new 5 6 \<and> dir_of (cr3 M') M' ! 33 = 0"
proof -
  have v: "vindex 0x8000000 = 32" "vindex 0xc0000000 = 768" by (simp_all add: vindex_div)
  have c: "virt2phys (commonMemMap sample_manager) ! w = 0" if "w \<noteq> 768" "2 \<le> w" "w < 1024" for w
    unfolding sample_manager_common(1) using that
    by (simp add: MemMap_add_def Let_def v MemMap_new_def MemMap_clear_def resetVPage0And1_def PhysIdxLength_def PD_NUM_ENTRIES_def nth_list_update)
  have "mm_sized (commonMemMap sample_manager)"
    unfolding sample_manager_common(1) using clear_entries(3) [of 0 0]
    by (simp add: MemMap_add_def Let_def mm_sized_def MemMap_new_def)
  then have ok: "man_ok sample_manager" by (simp add: man_ok_def sample_manager_common)
  have up: "user_pages (mappings sample_tiny)" "apart_from (commonMemMap sample_manager) (mappings sample_tiny)"
    using c [of 32] by (simp_all add: user_pages_def apart_from_def sample_tiny_ok(2) v sample_pde)
  have pm: "page_map (mappings sample_tiny) 32 = Some (PhysAddr_new 5 6)" "page_map (mappings sample_tiny) 33 = None"
    by (simp_all add: sample_tiny_ok(2) page_map_def v)
  obtain M' where "loadProcessMap sample_tiny None 9 sample_manager = (True, M')" "dir_of (cr3 M') M' ! 1 = kernel_pde"
    "\<And>v. 2 \<le> v \<Longrightarrow> v < 1024 \<Longrightarrow> dir_of (cr3 M') M' ! v = (case page_map (mappings sample_tiny) v of
      Some pde \<Rightarrow> pde | None \<Rightarrow> if present (virt2phys (commonMemMap sample_manager) ! v) then virt2phys (commonMemMap sample_manager) ! v else 0)"
    "dir_of (cr3 M') M' ! 0 = 0"
    using process_directory [OF ok sample_manager_common(2) sample_tiny_ok(1) up, of None 9] by auto
  then show ?thesis using c [of 33] pm by simp
qed

end
