(* ===== verification/KTerm.thy ===== *)
theory KTerm
  imports KMemMap
begin

text \<open>
  The terminal: class \<open>Term\<close> of drivers/terminal.cpp with its line buffer, and the text mode
  painter of drivers/txtmode.cpp that it draws with.

  A terminal draws on the video memory when it is shown and on its own buffer otherwise; both
  are lists of bytes, two per cell, and a store outside of the list is a \<open>Fault\<close>. The
  position in the hardware cursor registers is a number. \<open>videoMem()\<close> is the buffer its
  pointer leads to; \<open>page0_mapped\<close> says that \<open>virtOfPage0()\<close> gives an address, and when
  it gives none the pointer is null and a store faults. Every public operation holds the lock of the terminal and is one step. The
  table of shifted characters (drivers/terminal-asm.S) is an argument.
\<close>

subsection \<open>State\<close>

definition TAB_WIDTH :: nat where "TAB_WIDTH = 4"
definition SCREEN_WIDTH :: nat where "SCREEN_WIDTH = 80"
definition SCREEN_HEIGHT :: nat where "SCREEN_HEIGHT = 25"
definition TEXT_STYLE :: u8 where "TEXT_STYLE = 7"
definition TERM_BUFFER_SIZE :: nat where "TERM_BUFFER_SIZE = 128"
definition EFOPS :: int where "EFOPS = 1"

lemmas term_consts = TAB_WIDTH_def SCREEN_WIDTH_def SCREEN_HEIGHT_def TERM_BUFFER_SIZE_def

record term_buf_item =
  displayed_char :: u8
  x_offset :: nat
  y_offset :: nat

record TextModePainter = Vidmap +
  backupBuffer :: "u8 list"
  cursorX :: nat
  cursorY :: nat

record Term =
  next_char_x :: nat
  next_char_y :: nat
  term_buf_pos :: nat
  term_buf :: "term_buf_item list"
  OwnedByPid :: int
  UserWaitingRead :: bool
  UserWaitingBuffer :: nat
  UserWaitingLen :: int
  painter :: TextModePainter

record tty = Term +
  video :: "u8 list"
  hw_cursor :: nat
  page0_mapped :: bool

subsection \<open>The painter\<close>

definition videoMem :: "tty \<Rightarrow> u8 list" where
  "videoMem T = (if \<not> page0_mapped T then [] else if isLoadedInVmem (painter T) then video T else backupBuffer (painter T))"

definition set_videoMem :: "u8 list \<Rightarrow> tty \<Rightarrow> tty" where
  "set_videoMem v T = (if isLoadedInVmem (painter T) then T\<lparr>video := v\<rparr> else T\<lparr>painter := (painter T)\<lparr>backupBuffer := v\<rparr>\<rparr>)"

definition store_cells :: "nat \<Rightarrow> u8 list \<Rightarrow> tty \<Rightarrow> tty kresult" where
  "store_cells off bs T =
     (let v = videoMem T in
      if off + length bs \<le> length v then Inr (set_videoMem (take off v @ bs @ drop (off + length bs) v) T) else Inl Fault)"

definition blanks :: "nat \<Rightarrow> u8 list" where
  "blanks n = concat (replicate n [32, TEXT_STYLE])"

definition helpSetCursor :: "nat \<Rightarrow> nat \<Rightarrow> tty \<Rightarrow> tty" where
  "helpSetCursor x y T =
     (if x \<ge> SCREEN_WIDTH then T else if y \<ge> SCREEN_HEIGHT then T else T\<lparr>hw_cursor := SCREEN_WIDTH * y + x\<rparr>)"

definition set_cursorXY :: "nat \<Rightarrow> nat \<Rightarrow> tty \<Rightarrow> tty" where
  "set_cursorXY x y T = T\<lparr>painter := (painter T)\<lparr>cursorX := x, cursorY := y\<rparr>\<rparr>"

definition clearScreen :: "tty \<Rightarrow> tty kresult" where
  "clearScreen T = kbind (store_cells 0 (blanks (SCREEN_WIDTH * SCREEN_HEIGHT)) T) (\<lambda>T1.
     let T2 = set_cursorXY 0 0 T1
     in Inr (if isLoadedInVmem (painter T2) then helpSetCursor 0 0 T2 else T2))"

definition scrollDown :: "tty \<Rightarrow> tty kresult" where
  "scrollDown T = (let n = (SCREEN_HEIGHT - 1) * SCREEN_WIDTH * 2; v = videoMem T in
     if 2 * SCREEN_WIDTH + n \<le> length v then
       kbind (store_cells 0 (take n (drop (2 * SCREEN_WIDTH) v)) T) (store_cells n (blanks SCREEN_WIDTH))
     else Inl Fault)"

definition setCursor :: "nat \<Rightarrow> nat \<Rightarrow> tty \<Rightarrow> tty" where
  "setCursor x y T = (let T1 = set_cursorXY x y T in if isLoadedInVmem (painter T1) then helpSetCursor x y T1 else T1)"

definition showChar :: "nat \<Rightarrow> nat \<Rightarrow> u8 \<Rightarrow> tty \<Rightarrow> tty kresult" where
  "showChar x y c = store_cells (mul32 2 (add32 (mul32 SCREEN_WIDTH y) x)) [c, TEXT_STYLE]"

definition clearLine :: "nat \<Rightarrow> tty \<Rightarrow> tty kresult" where
  "clearLine y = store_cells (mul32 (mul32 y SCREEN_WIDTH) 2) (blanks SCREEN_WIDTH)"

text \<open>
  \<open>show\<close> and \<open>hide\<close> copy the screen between the buffer and the video memory, and then map
  the right one for the current thread, whose control block is \<open>pcb\<close>.
\<close>

definition map_vidmap :: "nat \<Rightarrow> tty \<Rightarrow> MemMapManager \<Rightarrow> MemMapManager" where
  "map_vidmap pcb T M = tryMapVidmapNolock (Vidmap.truncate (painter T)) pcb M"

definition painter_show :: "nat \<Rightarrow> tty \<Rightarrow> MemMapManager \<Rightarrow> tty \<times> MemMapManager" where
  "painter_show pcb T M =
     (if isLoadedInVmem (painter T) \<or> \<not> page0_mapped T then (T, M)
      else let n = SCREEN_HEIGHT * SCREEN_WIDTH * 2;
               T1 = T\<lparr>video := take n (backupBuffer (painter T)) @ drop n (video T), painter := (painter T)\<lparr>isLoadedInVmem := True\<rparr>\<rparr>;
               T2 = helpSetCursor (cursorX (painter T1)) (cursorY (painter T1)) T1
           in (T2, map_vidmap pcb T2 M))"

definition painter_hide :: "nat \<Rightarrow> tty \<Rightarrow> MemMapManager \<Rightarrow> tty \<times> MemMapManager" where
  "painter_hide pcb T M =
     (if \<not> isLoadedInVmem (painter T) \<or> \<not> page0_mapped T then (T, M)
      else let n = SCREEN_HEIGHT * SCREEN_WIDTH * 2;
               T1 = T\<lparr>painter := (painter T)\<lparr>backupBuffer := take n (video T) @ drop n (backupBuffer (painter T)), isLoadedInVmem := False\<rparr>\<rparr>
           in (T1, map_vidmap pcb T1 M))"

definition enableVidmap :: "nat \<Rightarrow> tty \<Rightarrow> MemMapManager \<Rightarrow> (u32 \<times> tty \<times> MemMapManager) kresult" where
  "enableVidmap theThread T M =
     (if vidmapOwner (painter T) \<noteq> 0 then Inr (0, T, M)
      else kbind (clearScreen (T\<lparr>painter := (painter T)\<lparr>vidmapOwner := theThread\<rparr>\<rparr>)) (\<lambda>T1.
        Inr (PRE_INIT_VIDEO, T1\<lparr>painter := (painter T1)\<lparr>bIsVidmapEnabled := True\<rparr>\<rparr>,
             RELOAD_CR3 (store_dir 0 (PT_BASE OR (userTableAddr M AND ALIGN_4KB_ADDR) OR (PT_WRITABLE OR PT_USER)) M))))"

definition tryDisableVidmap :: "nat \<Rightarrow> tty \<Rightarrow> MemMapManager \<Rightarrow> tty \<times> MemMapManager" where
  "tryDisableVidmap theThread T M =
     (if vidmapOwner (painter T) \<noteq> theThread then (T, M)
      else (T\<lparr>painter := (painter T)\<lparr>vidmapOwner := 0, bIsVidmapEnabled := False\<rparr>\<rparr>, RELOAD_CR3 (store_dir 0 0 M)))"

subsection \<open>Drawing characters\<close>

definition goto_x :: "nat \<Rightarrow> tty \<Rightarrow> tty" where
  "goto_x x T = T\<lparr>next_char_x := x\<rparr>"

definition next_row :: "tty \<Rightarrow> tty kresult" where
  "next_row T = (if next_char_y T < SCREEN_HEIGHT - 1 then Inr (T\<lparr>next_char_y := next_char_y T + 1\<rparr>) else scrollDown T)"

definition new_line :: "tty \<Rightarrow> tty kresult" where
  "new_line T =
     (if next_char_y T < SCREEN_HEIGHT - 1 then Inr (T\<lparr>next_char_y := next_char_y T + 1, next_char_x := 0\<rparr>)
      else scrollDown (goto_x 0 T))"

definition update_cursor :: "tty \<Rightarrow> tty" where
  "update_cursor T = setCursor (next_char_x T) (next_char_y T) T"

definition put_char :: "u8 \<Rightarrow> tty \<Rightarrow> tty kresult" where
  "put_char c T =
     (if c = 0 then Inr T
      else if c = 10 \<or> c = 13 then new_line T
      else if c = 9 then
        let x = next_char_x T + (4 - next_char_x T mod TAB_WIDTH)
        in if x \<ge> SCREEN_WIDTH then next_row (goto_x (x mod SCREEN_WIDTH) T) else Inr (goto_x x T)
      else kbind (showChar (next_char_x T) (next_char_y T) c T) (\<lambda>T1.
        let x = next_char_x T1 + 1
        in if x = SCREEN_WIDTH then next_row (goto_x 0 T1) else Inr (goto_x x T1)))"

definition nolock_putc :: "u8 \<Rightarrow> tty \<Rightarrow> tty kresult" where
  "nolock_putc c T = kbind (put_char c (T\<lparr>term_buf_pos := 0\<rparr>)) (\<lambda>T1. Inr (update_cursor T1))"

text \<open>\<open>Term::write\<close> prints up to a terminator; \<open>bs\<close> are the bytes of the buffer. From 2^31 on \<open>nbytes\<close> is negative.\<close>

fun write_loop :: "u8 list \<Rightarrow> nat \<Rightarrow> tty \<Rightarrow> (int \<times> tty) kresult" where
  "write_loop [] i T = Inr (int i, T)"
| "write_loop (c # cs) i T = (if c = 0 then Inr (int i, T) else kbind (nolock_putc c T) (write_loop cs (i + 1)))"

definition Term_write :: "u8 list \<Rightarrow> tty \<Rightarrow> (int \<times> tty) kresult" where
  "Term_write bs T = (if length bs < 2147483648 then write_loop bs 0 T else Inr (int (length bs) - 4294967296, T))"

definition nolock_cls :: "tty \<Rightarrow> tty kresult" where
  "nolock_cls T = kbind (clearScreen (T\<lparr>term_buf_pos := 0, next_char_x := 0, next_char_y := 0\<rparr>)) (\<lambda>T1. Inr (update_cursor T1))"

definition setOwner :: "int \<Rightarrow> 'a Term_scheme \<Rightarrow> 'a Term_scheme" where
  "setOwner upid T = T\<lparr>OwnedByPid := upid, UserWaitingRead := False, UserWaitingBuffer := 0, UserWaitingLen := -1\<rparr>"

definition canBeOwnedBy :: "int \<Rightarrow> 'a Term_scheme \<Rightarrow> bool" where
  "canBeOwnedBy tid T \<longleftrightarrow> OwnedByPid T = -1 \<or> OwnedByPid T = tid"

subsection \<open>The line buffer\<close>

definition buf_push :: "term_buf_item \<Rightarrow> tty \<Rightarrow> tty kresult" where
  "buf_push r T = kbind (wr (term_buf T) (term_buf_pos T) r) (\<lambda>b. Inr (T\<lparr>term_buf := b, term_buf_pos := term_buf_pos T + 1\<rparr>))"

text \<open>Blanks drawn over the cells of a row, one call of \<open>showChar\<close> each.\<close>

fun show_blanks :: "nat list \<Rightarrow> nat \<Rightarrow> tty \<Rightarrow> tty kresult" where
  "show_blanks [] y T = Inr T"
| "show_blanks (j # js) y T = kbind (showChar j y 32 T) (show_blanks js y)"

definition nolock_backspace_handler :: "tty \<Rightarrow> tty kresult" where
  "nolock_backspace_handler T =
     (if term_buf_pos T > 0 then
        kbind (rd (term_buf T) (term_buf_pos T - 1)) (\<lambda>i.
          kbind (if y_offset i \<noteq> 0 then
                   kbind (clearLine (next_char_y T) T) (\<lambda>T1.
                     let T2 = T1\<lparr>next_char_y := sub32 (next_char_y T1) 1, next_char_x := sub32 SCREEN_WIDTH (x_offset i)\<rparr>
                     in show_blanks [next_char_x T2..<SCREEN_WIDTH] (next_char_y T2) T2)
                 else
                   let orig_x = next_char_x T; T1 = goto_x (sub32 orig_x (x_offset i)) T
                   in show_blanks [next_char_x T1..<orig_x + 1] (next_char_y T1) T1)
            (\<lambda>T2. Inr (T2\<lparr>term_buf_pos := term_buf_pos T2 - 1\<rparr>)))
      else Inr T)"

definition nolock_tab_handler :: "tty \<Rightarrow> tty kresult" where
  "nolock_tab_handler T =
     (if term_buf_pos T \<ge> TERM_BUFFER_SIZE - 1 then Inr T
      else let old_x = next_char_x T; x = old_x + (4 - old_x mod TAB_WIDTH) in
        if x \<ge> SCREEN_WIDTH then
          kbind (next_row (goto_x 0 T)) (buf_push \<lparr>displayed_char = 9, x_offset = sub32 SCREEN_WIDTH old_x, y_offset = 1\<rparr>)
        else buf_push \<lparr>displayed_char = 9, x_offset = x - old_x, y_offset = 0\<rparr> (goto_x x T))"

text \<open>The cast \<open>(size_t) nbytes\<close> of an \<open>int32_t\<close>.\<close>

definition to_size_t :: "int \<Rightarrow> nat" where
  "to_size_t n = nat (n mod 4294967296)"

text \<open>\<open>helpFinishRead\<close>: the result, the bytes stored to the buffer of the caller, and the terminal.\<close>

definition helpFinishRead :: "nat \<Rightarrow> int \<Rightarrow> tty \<Rightarrow> (int \<times> u8 list \<times> tty) kresult" where
  "helpFinishRead buffer nbytes T =
     (if buffer = 0 then Inr (- EFOPS, [], T)
      else let copylen = (if to_size_t nbytes < term_buf_pos T then to_size_t nbytes else term_buf_pos T) in
        if copylen \<le> length (term_buf T) then
          Inr (int copylen, map displayed_char (take copylen (term_buf T)), T\<lparr>term_buf_pos := 0\<rparr>)
        else Inl Fault)"

text \<open>
  The enter key. When a process waits, the line goes to its buffer and it wakes up: the third
  component is its pid, the address of the buffer, the bytes and the value of its \<open>read\<close>.
  The source leaves the offsets of the newline item unset; nothing reads them.
\<close>

definition nolock_enter_handler :: "tty \<Rightarrow> (tty \<times> (int \<times> nat \<times> u8 list \<times> int) option) kresult" where
  "nolock_enter_handler T =
     kbind (new_line T) (\<lambda>T1.
       kbind (buf_push \<lparr>displayed_char = 10, x_offset = 0, y_offset = 0\<rparr> T1) (\<lambda>T2.
         if UserWaitingRead T2 then
           let T3 = T2\<lparr>UserWaitingRead := False\<rparr>
           in kbind (helpFinishRead (UserWaitingBuffer T3) (UserWaitingLen T3) T3) (\<lambda>(r, bs, T4).
                Inr (T4, Some (OwnedByPid T3, UserWaitingBuffer T3, bs, r)))
         else Inr (T2\<lparr>term_buf_pos := 0\<rparr>, None)))"

text \<open>
  \<open>Term::read\<close> for the process \<open>pid\<close>: the value, the bytes read now, whether the caller is
  blocked until the line is complete, and the terminal.
\<close>

definition Term_read :: "int \<Rightarrow> nat \<Rightarrow> int \<Rightarrow> tty \<Rightarrow> (int \<times> u8 list \<times> bool \<times> tty) kresult" where
  "Term_read pid cbuf nbytes T =
     (if OwnedByPid T \<noteq> -1 \<and> OwnedByPid T \<noteq> pid then Inr (- EFOPS, [], False, T)
      else let T1 = (if OwnedByPid T = -1 then T\<lparr>OwnedByPid := pid, UserWaitingRead := False\<rparr> else T) in
        if term_buf_pos T1 < to_size_t nbytes then
          Inr (0, [], True, T1\<lparr>UserWaitingRead := True, UserWaitingBuffer := cbuf, UserWaitingLen := nbytes\<rparr>)
        else kbind (helpFinishRead cbuf nbytes T1) (\<lambda>(r, bs, T2). Inr (r, bs, False, T2)))"

subsection \<open>Keys\<close>

definition KKC_ASCII_MASK :: u32 where "KKC_ASCII_MASK = 0x000000FF"
definition KKC_SPECIAL_MASK :: u32 where "KKC_SPECIAL_MASK = 0x0000FF00"
definition KKC_COMBINE_MASK :: u32 where "KKC_COMBINE_MASK = 0x7FFF0000"
definition KKC_RELEASE :: u32 where "KKC_RELEASE = 0x80000000"
definition KKC_CTRL :: u32 where "KKC_CTRL = 0x010000"
definition KKC_ALT :: u32 where "KKC_ALT = 0x020000"
definition KKC_SHIFT :: u32 where "KKC_SHIFT = 0x040000"
definition KKC_ENTER :: u32 where "KKC_ENTER = 0x000100"
definition KKC_BACKSPACE :: u32 where "KKC_BACKSPACE = 0x000200"
definition KKC_TAB :: u32 where "KKC_TAB = 0x000800"
definition KKC_CAPSLOCK :: u32 where "KKC_CAPSLOCK = 0x000900"
definition KKC_F1 :: u32 where "KKC_F1 = 0x000B00"

text \<open>The character of a key: the shift table and caps lock. A char from 128 on is negative and indexes outside of the table.\<close>

definition key_char :: "u8 list \<Rightarrow> u32 \<Rightarrow> bool \<Rightarrow> u8 kresult" where
  "key_char shift kkc capslock =
     (let c0 = (ucast (kkc AND KKC_ASCII_MASK) :: u8) in
      kbind (if kkc AND KKC_SHIFT \<noteq> 0 then
               (if c0 < 128 then kbind (rd shift (unat c0)) (\<lambda>t. Inr (if t \<noteq> 0 then t else c0)) else Inl Fault)
             else Inr c0)
        (\<lambda>c. Inr (if capslock then
                    if 97 \<le> c \<and> c \<le> 122 then c - 97 + 65 else if 65 \<le> c \<and> c \<le> 90 then c - 65 + 97 else c
                  else c)))"

definition type_char :: "u8 \<Rightarrow> tty \<Rightarrow> tty kresult" where
  "type_char c T =
     kbind (showChar (next_char_x T) (next_char_y T) c T) (\<lambda>T1.
       let old_x = next_char_x T1; x = old_x + 1 in
       if x = SCREEN_WIDTH then
         kbind (next_row (goto_x 0 T1)) (buf_push \<lparr>displayed_char = c, x_offset = sub32 SCREEN_WIDTH old_x, y_offset = 1\<rparr>)
       else buf_push \<lparr>displayed_char = c, x_offset = x - old_x, y_offset = 0\<rparr> (goto_x x T1))"

definition Term_key :: "u8 list \<Rightarrow> u32 \<Rightarrow> bool \<Rightarrow> tty \<Rightarrow> (tty \<times> (int \<times> nat \<times> u8 list \<times> int) option) kresult" where
  "Term_key shift kkc capslock T =
     kbind (if kkc AND NOT KKC_ASCII_MASK AND NOT KKC_SHIFT \<noteq> 0 then
              if kkc AND NOT KKC_SPECIAL_MASK \<noteq> 0 then
                if kkc = (KKC_CTRL OR 108) then
                  kbind (clearScreen (T\<lparr>next_char_x := 0, next_char_y := 0, term_buf_pos := 0\<rparr>)) (\<lambda>T1. Inr (T1, None))
                else Inr (T, None)
              else if kkc AND KKC_SPECIAL_MASK = KKC_BACKSPACE then kbind (nolock_backspace_handler T) (\<lambda>T1. Inr (T1, None))
              else if kkc AND KKC_SPECIAL_MASK = KKC_TAB then kbind (nolock_tab_handler T) (\<lambda>T1. Inr (T1, None))
              else if kkc AND KKC_SPECIAL_MASK = KKC_ENTER then nolock_enter_handler T
              else Inr (T, None)
            else if term_buf_pos T < TERM_BUFFER_SIZE - 1 then
              kbind (key_char shift kkc capslock) (\<lambda>c. kbind (type_char c T) (\<lambda>T1. Inr (T1, None)))
            else Inr (T, None))
       (\<lambda>(T1, w). Inr (update_cursor T1, w))"

subsection \<open>Drawing stays on the screen\<close>

definition cells_ok :: "tty \<Rightarrow> bool" where
  "cells_ok T \<longleftrightarrow> page0_mapped T \<and> length (video T) = 4000 \<and> length (backupBuffer (painter T)) = 4000"

text \<open>Two states of a terminal between which only something was drawn.\<close>

definition drawn :: "tty \<Rightarrow> tty \<Rightarrow> bool" where
  "drawn T T' \<longleftrightarrow> cells_ok T' \<and> next_char_x T' = next_char_x T \<and> next_char_y T' = next_char_y T \<and> term_buf_pos T' = term_buf_pos T \<and>
     term_buf T' = term_buf T \<and> OwnedByPid T' = OwnedByPid T \<and> UserWaitingRead T' = UserWaitingRead T \<and>
     UserWaitingBuffer T' = UserWaitingBuffer T \<and> UserWaitingLen T' = UserWaitingLen T \<and>
     isLoadedInVmem (painter T') = isLoadedInVmem (painter T)"

lemma drawn_refl: "cells_ok T \<Longrightarrow> drawn T T"
  by (simp add: drawn_def)

lemma drawn_trans: "drawn T U \<Longrightarrow> drawn U V \<Longrightarrow> drawn T V"
  by (simp add: drawn_def)

lemma store_cells_drawn:
  assumes "cells_ok T" and "off + length bs \<le> 4000"
  shows "\<exists>T'. store_cells off bs T = Inr T' \<and> drawn T T'"
  using assms by (auto simp: store_cells_def Let_def videoMem_def set_videoMem_def cells_ok_def drawn_def)

lemma length_blanks [simp]: "length (blanks n) = 2 * n"
  by (induction n) (simp_all add: blanks_def)

lemma showChar_drawn: "cells_ok T \<Longrightarrow> x < 80 \<Longrightarrow> y < 25 \<Longrightarrow> \<exists>T'. showChar x y c T = Inr T' \<and> drawn T T'"
  unfolding showChar_def by (intro store_cells_drawn) (simp_all add: SCREEN_WIDTH_def wrap_simps)

lemma clearLine_drawn: "cells_ok T \<Longrightarrow> y < 25 \<Longrightarrow> \<exists>T'. clearLine y T = Inr T' \<and> drawn T T'"
  unfolding clearLine_def by (intro store_cells_drawn) (simp_all add: SCREEN_WIDTH_def wrap_simps)

lemma scrollDown_drawn:
  assumes "cells_ok T"
  shows "\<exists>T'. scrollDown T = Inr T' \<and> drawn T T'"
proof -
  have v: "length (videoMem T) = 4000" using assms by (simp add: cells_ok_def videoMem_def)
  obtain T1 where 1: "store_cells 0 (take 3840 (drop 160 (videoMem T))) T = Inr T1" "drawn T T1"
    using store_cells_drawn [OF assms, of 0 "take 3840 (drop 160 (videoMem T))"] v by auto
  obtain T2 where "store_cells 3840 (blanks 80) T1 = Inr T2" "drawn T1 T2"
    using store_cells_drawn [of T1 3840 "blanks 80"] 1 by (auto simp: drawn_def)
  with 1 v drawn_trans show ?thesis by (auto simp: scrollDown_def Let_def SCREEN_WIDTH_def SCREEN_HEIGHT_def)
qed

lemma update_cursor_drawn: "cells_ok T \<Longrightarrow> drawn T (update_cursor T)"
  by (simp add: update_cursor_def setCursor_def set_cursorXY_def helpSetCursor_def Let_def drawn_def cells_ok_def)

lemma clearScreen_drawn:
  assumes "cells_ok T"
  shows "\<exists>T'. clearScreen T = Inr T' \<and> drawn T T'"
proof -
  obtain T1 where 1: "store_cells 0 (blanks 2000) T = Inr T1" "drawn T T1"
    using store_cells_drawn [OF assms, of 0 "blanks 2000"] by auto
  then show ?thesis
    by (auto simp: clearScreen_def SCREEN_WIDTH_def SCREEN_HEIGHT_def set_cursorXY_def helpSetCursor_def Let_def drawn_def cells_ok_def)
qed

lemma show_blanks_drawn: "cells_ok T \<Longrightarrow> \<forall>j \<in> set js. j < 80 \<Longrightarrow> y < 25 \<Longrightarrow> \<exists>T'. show_blanks js y T = Inr T' \<and> drawn T T'"
proof (induction js arbitrary: T)
  case (Cons j js)
  obtain T1 where 1: "showChar j y 32 T = Inr T1" "drawn T T1"
    using showChar_drawn [OF Cons.prems(1), of j y 32] Cons.prems by auto
  then obtain T2 where "show_blanks js y T1 = Inr T2" "drawn T1 T2"
    using Cons.IH [of T1] Cons.prems by (auto simp: drawn_def)
  with 1 drawn_trans show ?case by auto
qed (simp add: drawn_refl)

text \<open>The next row: the cursor moves down or the screen scrolls.\<close>

lemma next_row_drawn:
  assumes "cells_ok T" and "next_char_y T < 25"
  shows "\<exists>T'. next_row T = Inr T' \<and> drawn (T\<lparr>next_char_y := min 24 (next_char_y T + 1)\<rparr>) T'"
proof (cases "next_char_y T < 24")
  case True
  with assms show ?thesis by (simp add: next_row_def SCREEN_HEIGHT_def drawn_def cells_ok_def)
next
  case False
  then have "T\<lparr>next_char_y := min 24 (next_char_y T + 1)\<rparr> = T" using assms(2) by simp
  with False scrollDown_drawn [OF assms(1)] show ?thesis by (simp add: next_row_def SCREEN_HEIGHT_def)
qed

lemma new_line_eq: "new_line T = next_row (goto_x 0 T)"
  by (simp add: new_line_def next_row_def goto_x_def)

subsection \<open>Editing a line\<close>

text \<open>
  The cursor can walk back over the items of the line, given from the last one on: an item that
  ended its row is undone to the row before. \<open>wraps\<close> counts these.
\<close>

fun back_ok :: "term_buf_item list \<Rightarrow> nat \<Rightarrow> bool" where
  "back_ok [] x \<longleftrightarrow> x < 80"
| "back_ok (i # is) x \<longleftrightarrow> x < 80 \<and> 0 < x_offset i \<and> x_offset i \<le> 4 \<and>
     (if y_offset i \<noteq> 0 then x = 0 \<and> back_ok is (80 - x_offset i) else x_offset i \<le> x \<and> back_ok is (x - x_offset i))"

definition wraps :: "term_buf_item list \<Rightarrow> nat" where
  "wraps is = length (filter (\<lambda>i. y_offset i \<noteq> 0) is)"

lemma wraps_simps [simp]:
  "wraps [] = 0" "wraps (is @ js) = wraps is + wraps js" "wraps (rev is) = wraps is" "wraps [i] = (if y_offset i \<noteq> 0 then 1 else 0)"
  by (simp_all add: wraps_def rev_filter [symmetric])

lemma back_ok_x: "back_ok is x \<Longrightarrow> x < 80"
  by (cases "is") simp_all

lemma back_ok_cols: "back_ok is x \<Longrightarrow> 80 * wraps is + x \<le> 79 + 4 * length is"
proof (induction "is" arbitrary: x)
  case (Cons i "is")
  show ?case
  proof (cases "y_offset i = 0")
    case True
    with Cons show ?thesis by (fastforce simp: wraps_def)
  next
    case False
    with Cons.prems Cons.IH [of "80 - x_offset i"]
    have "80 * wraps is + (80 - x_offset i) \<le> 79 + 4 * length is" "x = 0" "x_offset i \<le> 4" by simp_all
    with False show ?thesis by (simp add: wraps_def)
  qed
qed (simp add: wraps_def)

definition items :: "tty \<Rightarrow> term_buf_item list" where
  "items T = take (term_buf_pos T) (term_buf T)"

definition tty_ok :: "tty \<Rightarrow> bool" where
  "tty_ok T \<longleftrightarrow> cells_ok T \<and> next_char_y T < 25 \<and> length (term_buf T) = 128 \<and> term_buf_pos T \<le> 127 \<and>
     back_ok (rev (items T)) (next_char_x T) \<and> wraps (items T) \<le> next_char_y T"

lemma tty_okD:
  assumes "tty_ok T"
  shows "cells_ok T" and "next_char_y T < 25" and "length (term_buf T) = 128" and "term_buf_pos T \<le> 127" and "next_char_x T < 80"
    and "back_ok (rev (items T)) (next_char_x T)" and "wraps (items T) \<le> next_char_y T"
  using assms back_ok_x by (auto simp: tty_ok_def)

lemma drawn_ok: "tty_ok T \<Longrightarrow> drawn T T' \<Longrightarrow> tty_ok T'"
  by (simp add: tty_ok_def drawn_def items_def)

lemma wraps_few: "tty_ok T \<Longrightarrow> wraps (items T) \<le> 7"
  using back_ok_cols [OF tty_okD(6), of T] tty_okD(3,4) [of T] by (simp add: items_def)

definition same_wait :: "tty \<Rightarrow> tty \<Rightarrow> bool" where
  "same_wait T T' \<longleftrightarrow> OwnedByPid T' = OwnedByPid T \<and> UserWaitingRead T' = UserWaitingRead T \<and>
     UserWaitingBuffer T' = UserWaitingBuffer T \<and> UserWaitingLen T' = UserWaitingLen T"

text \<open>One more item, after the cursor has moved over its cells.\<close>

lemma edit_push:
  assumes ok: "tty_ok T" and pos: "term_buf_pos T < 127" and xo: "0 < x_offset r" "x_offset r \<le> 4"
    and mv: "y_offset r = 0 \<and> x = next_char_x T + x_offset r \<and> x < 80 \<and> y = next_char_y T \<or>
      y_offset r \<noteq> 0 \<and> x = 0 \<and> next_char_x T + x_offset r = 80 \<and> y = min 24 (next_char_y T + 1)"
    and dr: "drawn (T\<lparr>next_char_x := x, next_char_y := y\<rparr>) T1"
  shows "\<exists>T2. buf_push r T1 = Inr T2 \<and> tty_ok T2 \<and> items T2 = items T @ [r] \<and> same_wait T T2"
proof -
  note d = tty_okD [OF ok]
  define T2 where "T2 = T1\<lparr>term_buf := (term_buf T1)[term_buf_pos T1 := r], term_buf_pos := term_buf_pos T1 + 1\<rparr>"
  have f: "term_buf T1 = term_buf T" "term_buf_pos T1 = term_buf_pos T" "next_char_x T1 = x" "next_char_y T1 = y" "cells_ok T1"
    "same_wait T T1" using dr by (simp_all add: drawn_def same_wait_def)
  have p: "buf_push r T1 = Inr T2"
    using f d(3) pos by (simp add: buf_push_def T2_def)
  have it: "items T2 = items T @ [r]"
    using f d(3) pos by (simp add: items_def list_simps T2_def)
  have "80 - x_offset r = next_char_x T" if "next_char_x T + x_offset r = 80" using that by simp
  then have "back_ok (rev (items T2)) x"
    using mv xo d(6) by (auto simp: it)
  moreover have "wraps (items T2) \<le> y" "y < 25"
    using mv wraps_few [OF ok] d(2,7) by (auto simp: it)
  ultimately have "tty_ok T2"
    using f d(3) pos by (simp add: tty_ok_def cells_ok_def T2_def)
  moreover have "same_wait T T2" using f(6) by (simp add: same_wait_def T2_def)
  ultimately show ?thesis using p it by blast
qed

lemma type_char_edit:
  assumes ok: "tty_ok T" and pos: "term_buf_pos T < 127"
  obtains T' r where "type_char c T = Inr T'" and "tty_ok T'" and "items T' = items T @ [r]" and "displayed_char r = c" and "same_wait T T'"
proof -
  note d = tty_okD [OF ok]
  obtain T1 where 1: "showChar (next_char_x T) (next_char_y T) c T = Inr T1" "drawn T T1"
    using showChar_drawn [OF d(1,5,2)] by blast
  note ok1 = drawn_ok [OF ok 1(2)]
  have f: "next_char_x T1 = next_char_x T" "term_buf_pos T1 = term_buf_pos T" "items T1 = items T" "cells_ok T1" "next_char_y T1 = next_char_y T"
    "same_wait T T1" using 1(2) by (simp_all add: drawn_def items_def same_wait_def)
  show ?thesis
  proof (cases "next_char_x T + 1 = 80")
    case True
    let ?r = "\<lparr>displayed_char = c, x_offset = 1, y_offset = 1\<rparr>"
    obtain T2 where 2: "next_row (goto_x 0 T1) = Inr T2" "drawn (T1\<lparr>next_char_x := 0, next_char_y := min 24 (next_char_y T1 + 1)\<rparr>) T2"
      using next_row_drawn [of "goto_x 0 T1"] f d(2) by (auto simp: goto_x_def cells_ok_def)
    have "sub32 SCREEN_WIDTH (next_char_x T1) = 1" using True f(1) by (simp add: SCREEN_WIDTH_def wrap_simps)
    then show ?thesis
      using edit_push [OF ok1 _ _ _ _ 2(2), of ?r] that [of _ ?r] 1 2(1) True f pos
      by (auto simp: type_char_def SCREEN_WIDTH_def same_wait_def)
  next
    case False
    let ?r = "\<lparr>displayed_char = c, x_offset = 1, y_offset = 0\<rparr>"
    have dr: "drawn (T1\<lparr>next_char_x := next_char_x T1 + 1, next_char_y := next_char_y T1\<rparr>) (goto_x (next_char_x T1 + 1) T1)"
      using f(4) by (simp add: drawn_def goto_x_def cells_ok_def)
    show ?thesis
      using edit_push [OF ok1 _ _ _ _ dr, of ?r] that [of _ ?r] 1 False f pos d(5)
      by (auto simp: type_char_def SCREEN_WIDTH_def same_wait_def)
  qed
qed

lemma tab_edit:
  assumes ok: "tty_ok T" and pos: "term_buf_pos T < 127"
  obtains T' r where "nolock_tab_handler T = Inr T'" and "tty_ok T'" and "items T' = items T @ [r]" and "displayed_char r = 9" and "same_wait T T'"
proof -
  note d = tty_okD [OF ok]
  let ?x = "next_char_x T + (4 - next_char_x T mod 4)"
  have m: "0 < 4 - next_char_x T mod 4" "4 - next_char_x T mod 4 \<le> 4" by (simp_all add: mod_less_divisor)
  have le: "?x \<le> 80"
  proof -
    have "next_char_x T div 4 < 20" using d(5) by (simp add: less_mult_imp_div_less)
    then show ?thesis using div_mult_mod_eq [of "next_char_x T" 4] m by linarith
  qed
  show ?thesis
  proof (cases "?x = 80")
    case True
    let ?r = "\<lparr>displayed_char = 9, x_offset = 80 - next_char_x T, y_offset = 1\<rparr> :: term_buf_item"
    obtain T2 where 2: "next_row (goto_x 0 T) = Inr T2" "drawn (T\<lparr>next_char_x := 0, next_char_y := min 24 (next_char_y T + 1)\<rparr>) T2"
      using next_row_drawn [of "goto_x 0 T"] d(1,2) by (auto simp: goto_x_def cells_ok_def)
    have "nolock_tab_handler T = buf_push ?r T2"
      using pos True d(5) 2(1) by (simp add: nolock_tab_handler_def term_consts Let_def wrap_simps)
    moreover have "80 - next_char_x T \<le> 4" using True m by linarith
    then obtain T' where "buf_push ?r T2 = Inr T'" "tty_ok T'" "items T' = items T @ [?r]" "same_wait T T'"
      using edit_push [OF ok pos _ _ _ 2(2), of ?r] d(5) by auto
    ultimately show ?thesis using that [of T' ?r] by simp
  next
    case False
    let ?r = "\<lparr>displayed_char = 9, x_offset = 4 - next_char_x T mod 4, y_offset = 0\<rparr> :: term_buf_item"
    have dr: "drawn (T\<lparr>next_char_x := ?x, next_char_y := next_char_y T\<rparr>) (goto_x ?x T)"
      using d(1) by (simp add: drawn_def goto_x_def cells_ok_def)
    have "nolock_tab_handler T = buf_push ?r (goto_x ?x T)"
      using pos False le by (simp add: nolock_tab_handler_def term_consts Let_def)
    moreover obtain T' where "buf_push ?r (goto_x ?x T) = Inr T'" "tty_ok T'" "items T' = items T @ [?r]" "same_wait T T'"
      using edit_push [OF ok pos _ _ _ dr, of ?r] False le m by auto
    ultimately show ?thesis using that [of T' ?r] by simp
  qed
qed

text \<open>Backspace takes the last item back: first the screen, then the line.\<close>

lemma backspace_draws:
  assumes c: "cells_ok T" "next_char_y T < 25" "next_char_x T < 80" and pos: "0 < term_buf_pos T" "term_buf_pos T \<le> length (term_buf T)"
    and i: "term_buf T ! (term_buf_pos T - 1) = i" "0 < x_offset i" "x_offset i \<le> 4"
    and w: "y_offset i \<noteq> 0 \<Longrightarrow> 0 < next_char_y T" "y_offset i = 0 \<Longrightarrow> x_offset i \<le> next_char_x T"
    and x: "x = (if y_offset i \<noteq> 0 then 80 - x_offset i else next_char_x T - x_offset i)"
    and y: "y = (if y_offset i \<noteq> 0 then next_char_y T - 1 else next_char_y T)"
  shows "\<exists>T2. drawn (T\<lparr>next_char_x := x, next_char_y := y\<rparr>) T2 \<and>
    nolock_backspace_handler T = Inr (T2\<lparr>term_buf_pos := term_buf_pos T2 - 1\<rparr>)"
proof -
  have xy: "x < 80" "y < 25" using c i(2) by (auto simp: x y)
  have rd_ok: "rd (term_buf T) (term_buf_pos T - 1) = Inr i" using pos i(1) by simp
  have h: "nolock_backspace_handler T = kbind (if y_offset i \<noteq> 0 then kbind (clearLine (next_char_y T) T)
        (\<lambda>T1. show_blanks [sub32 SCREEN_WIDTH (x_offset i)..<SCREEN_WIDTH] (sub32 (next_char_y T1) 1)
          (T1\<lparr>next_char_y := sub32 (next_char_y T1) 1, next_char_x := sub32 SCREEN_WIDTH (x_offset i)\<rparr>))
      else show_blanks [sub32 (next_char_x T) (x_offset i)..<next_char_x T + 1] (next_char_y T) (goto_x (sub32 (next_char_x T) (x_offset i)) T))
      (\<lambda>T2. Inr (T2\<lparr>term_buf_pos := term_buf_pos T2 - 1\<rparr>))"
    using pos i(1) rd_ok by (simp add: nolock_backspace_handler_def goto_x_def Let_def)
  show ?thesis
  proof (cases "y_offset i = 0")
    case True
    let ?U = "goto_x x T"
    have js: "\<forall>j \<in> set [x..<next_char_x T + 1]. j < 80" using c(3) by (simp del: upt_Suc)
    have "cells_ok ?U" using c(1) by (simp add: goto_x_def cells_ok_def)
    then obtain T2 where "show_blanks [x..<next_char_x T + 1] y ?U = Inr T2" "drawn ?U T2"
      using show_blanks_drawn [OF _ js xy(2)] by blast
    moreover have "sub32 (next_char_x T) (x_offset i) = x"
      using w(2) True c(3) by (simp add: x wrap_simps)
    ultimately show ?thesis
      unfolding h using True by (auto simp: goto_x_def y simp del: upt_Suc)
  next
    case False
    obtain T1 where 1: "clearLine (next_char_y T) T = Inr T1" "drawn T T1" using clearLine_drawn [OF c(1,2)] by blast
    let ?U = "T1\<lparr>next_char_y := y, next_char_x := x\<rparr>"
    obtain T2 where 2: "show_blanks [x..<80] y ?U = Inr T2" "drawn ?U T2"
      using show_blanks_drawn [of ?U "[x..<80]" y] 1(2) xy by (auto simp: drawn_def cells_ok_def)
    have "sub32 (next_char_y T1) 1 = y" "sub32 SCREEN_WIDTH (x_offset i) = x"
      using i(2,3) w(1) False c(2) 1(2) by (simp_all add: x y wrap_simps SCREEN_WIDTH_def drawn_def)
    moreover have "drawn (T\<lparr>next_char_x := x, next_char_y := y\<rparr>) T2"
      using 1(2) 2(2) by (simp add: drawn_def)
    ultimately show ?thesis
      unfolding h using False 1(1) 2(1) by (auto simp: SCREEN_WIDTH_def)
  qed
qed

lemma backspace_edit:
  assumes ok: "tty_ok T"
  obtains T' where "nolock_backspace_handler T = Inr T'" and "tty_ok T'" and "items T' = butlast (items T)" and "same_wait T T'"
proof (cases "term_buf_pos T = 0")
  case True
  with ok that [of T] show ?thesis by (simp add: nolock_backspace_handler_def items_def same_wait_def)
next
  case False
  note d = tty_okD [OF ok]
  define i where "i = term_buf T ! (term_buf_pos T - 1)"
  have "last (items T) = i" "items T \<noteq> []"
    using False d(3,4) nth_pred_last [of "term_buf_pos T" "term_buf T"] by (auto simp: items_def i_def)
  then have it: "items T = butlast (items T) @ [i]"
    using append_butlast_last_id [of "items T"] by simp
  have bl: "butlast (items T) = take (term_buf_pos T - 1) (term_buf T)"
    using False d(3,4) by (simp add: items_def butlast_take)
  have i: "0 < x_offset i" "x_offset i \<le> 4" "y_offset i \<noteq> 0 \<Longrightarrow> next_char_x T = 0 \<and> back_ok (rev (butlast (items T))) (80 - x_offset i) \<and> 0 < next_char_y T"
    "y_offset i = 0 \<Longrightarrow> x_offset i \<le> next_char_x T \<and> back_ok (rev (butlast (items T))) (next_char_x T - x_offset i)"
    using d(6,7) by (subst (asm) (1 2) it, simp split: if_splits)+
  define x y where "x = (if y_offset i \<noteq> 0 then 80 - x_offset i else next_char_x T - x_offset i)"
    and "y = (if y_offset i \<noteq> 0 then next_char_y T - 1 else next_char_y T)"
  have xy: "x < 80" "y < 25" "back_ok (rev (butlast (items T))) x" "wraps (butlast (items T)) \<le> y"
    using i d(2,5,7) by (auto simp: x_def y_def) (subst (asm) (1 2) it, simp)+
  obtain T2 where T2: "drawn (T\<lparr>next_char_x := x, next_char_y := y\<rparr>) T2"
    "nolock_backspace_handler T = Inr (T2\<lparr>term_buf_pos := term_buf_pos T2 - 1\<rparr>)"
    using backspace_draws [OF d(1,2,5) _ _ i_def [symmetric] i(1,2) _ _ x_def y_def] i(3,4) False d(3,4) by auto
  then have "items (T2\<lparr>term_buf_pos := term_buf_pos T2 - 1\<rparr>) = butlast (items T)"
    by (simp add: items_def [of "T2\<lparr>term_buf_pos := _\<rparr>"] bl drawn_def)
  with T2 xy d(3,4) that show ?thesis
    by (simp add: tty_ok_def drawn_def same_wait_def cells_ok_def)
qed

subsection \<open>What the keys do to the line\<close>

text \<open>
  The line as the user sees it: its characters, the process that reads from this terminal (or
  -1) and, when it waits, its buffer and the length it asked for. A key gives a new line and
  what is delivered.
\<close>

record line =
  chars :: "u8 list"
  reader :: int
  waiting :: "(nat \<times> int) option"

type_synonym delivery = "(int \<times> nat \<times> u8 list \<times> int) option"

definition term_line :: "tty \<Rightarrow> line" where
  "term_line T = \<lparr>chars = map displayed_char (items T), reader = OwnedByPid T,
     waiting = (if UserWaitingRead T then Some (UserWaitingBuffer T, UserWaitingLen T) else None)\<rparr>"

definition line_add :: "u8 \<Rightarrow> line \<Rightarrow> line" where
  "line_add c l = (if length (chars l) < 127 then l\<lparr>chars := chars l @ [c]\<rparr> else l)"

definition line_enter :: "line \<Rightarrow> line \<times> delivery" where
  "line_enter l = (l\<lparr>chars := [], waiting := None\<rparr>, case waiting l of
     None \<Rightarrow> None
   | Some (buf, n) \<Rightarrow> let bs = take (to_size_t n) (chars l @ [10]) in Some (reader l, buf, bs, int (length bs)))"

definition line_read :: "int \<Rightarrow> nat \<Rightarrow> int \<Rightarrow> line \<Rightarrow> int \<times> u8 list \<times> bool \<times> line" where
  "line_read pid buf n l =
     (if reader l \<noteq> -1 \<and> reader l \<noteq> pid then (- EFOPS, [], False, l)
      else let l1 = l\<lparr>reader := pid, waiting := (if reader l = -1 then None else waiting l)\<rparr> in
        if length (chars l) < to_size_t n then (0, [], True, l1\<lparr>waiting := Some (buf, n)\<rparr>)
        else let bs = take (to_size_t n) (chars l) in (int (length bs), bs, False, l1\<lparr>chars := []\<rparr>))"

definition line_key :: "u8 list \<Rightarrow> u32 \<Rightarrow> bool \<Rightarrow> line \<Rightarrow> line \<times> delivery" where
  "line_key shift kkc capslock l =
     (if kkc AND NOT KKC_ASCII_MASK AND NOT KKC_SHIFT \<noteq> 0 then
        if kkc AND NOT KKC_SPECIAL_MASK \<noteq> 0 then (if kkc = (KKC_CTRL OR 108) then l\<lparr>chars := []\<rparr> else l, None)
        else if kkc AND KKC_SPECIAL_MASK = KKC_BACKSPACE then (l\<lparr>chars := butlast (chars l)\<rparr>, None)
        else if kkc AND KKC_SPECIAL_MASK = KKC_TAB then (line_add 9 l, None)
        else if kkc AND KKC_SPECIAL_MASK = KKC_ENTER then line_enter l
        else (l, None)
      else (line_add (projr (key_char shift kkc capslock)) l, None))"

lemma term_line_cong: "items T' = items T \<Longrightarrow> same_wait T T' \<Longrightarrow> term_line T' = term_line T"
  by (simp add: term_line_def same_wait_def)

lemma drawn_line: "drawn T T' \<Longrightarrow> term_line T' = term_line T"
  by (rule term_line_cong) (simp_all add: drawn_def items_def same_wait_def)

lemma line_length: "tty_ok T \<Longrightarrow> length (chars (term_line T)) = term_buf_pos T"
  by (simp add: term_line_def items_def tty_ok_def)

lemma line_push: "items T' = items T @ [r] \<Longrightarrow> same_wait T T' \<Longrightarrow> tty_ok T \<Longrightarrow> term_buf_pos T < 127 \<Longrightarrow>
    term_line T' = line_add (displayed_char r) (term_line T)"
  using line_length [of T] by (simp add: term_line_def line_add_def same_wait_def)

lemma helpFinishRead_eq:
  assumes "buffer \<noteq> 0" and "term_buf_pos T \<le> length (term_buf T)"
  shows "helpFinishRead buffer n T =
    Inr (int (min (to_size_t n) (term_buf_pos T)), map displayed_char (take (min (to_size_t n) (term_buf_pos T)) (term_buf T)), T\<lparr>term_buf_pos := 0\<rparr>)"
  using assms by (auto simp: helpFinishRead_def Let_def min_def)

lemma enter_edit:
  assumes ok: "tty_ok T" and w: "UserWaitingRead T \<Longrightarrow> UserWaitingBuffer T \<noteq> 0"
  obtains T' where "nolock_enter_handler T = Inr (T', snd (line_enter (term_line T)))" and "tty_ok T'"
    and "term_line T' = fst (line_enter (term_line T))"
proof -
  note d = tty_okD [OF ok]
  obtain T1 where 1: "new_line T = Inr T1" "drawn (T\<lparr>next_char_x := 0, next_char_y := min 24 (next_char_y T + 1)\<rparr>) T1"
    using next_row_drawn [of "goto_x 0 T"] d(1,2) by (auto simp: new_line_eq goto_x_def cells_ok_def)
  have f: "term_buf T1 = term_buf T" "term_buf_pos T1 = term_buf_pos T" "cells_ok T1" "same_wait T T1" "next_char_x T1 = 0" "next_char_y T1 < 25"
    using 1(2) d(2) by (simp_all add: drawn_def same_wait_def)
  define T2 where "T2 = T1\<lparr>term_buf := (term_buf T1)[term_buf_pos T1 := \<lparr>displayed_char = 10, x_offset = 0, y_offset = 0\<rparr>],
    term_buf_pos := term_buf_pos T1 + 1\<rparr>"
  have p: "buf_push \<lparr>displayed_char = 10, x_offset = 0, y_offset = 0\<rparr> T1 = Inr T2"
    using f d(3,4) by (simp add: buf_push_def T2_def)
  have b: "length (term_buf T2) = 128" "term_buf_pos T2 = term_buf_pos T + 1" "same_wait T T2"
    "map displayed_char (take (term_buf_pos T + 1) (term_buf T2)) = chars (term_line T) @ [10]"
    using f d(3,4) by (simp_all add: T2_def same_wait_def term_line_def items_def list_simps)
  have ok': "tty_ok (T2\<lparr>term_buf_pos := 0, UserWaitingRead := u\<rparr>)" "items (T2\<lparr>term_buf_pos := 0, UserWaitingRead := u\<rparr>) = []" for u
    using f d(3) by (simp_all add: tty_ok_def items_def T2_def cells_ok_def)
  show ?thesis
  proof (cases "UserWaitingRead T")
    case False
    then have "nolock_enter_handler T = Inr (T2\<lparr>term_buf_pos := 0, UserWaitingRead := False\<rparr>, None)"
      using 1(1) p b(3) by (simp add: nolock_enter_handler_def same_wait_def)
    with False ok' [of False] b(3) that show ?thesis by (simp add: term_line_def line_enter_def same_wait_def)
  next
    case True
    let ?n = "to_size_t (UserWaitingLen T)" and ?U = "T2\<lparr>UserWaitingRead := False\<rparr>"
    have "map displayed_char (take (min ?n (term_buf_pos T + 1)) (term_buf T2)) = take ?n (chars (term_line T) @ [10])"
      using b(4) by (metis min.commute take_map take_take)
    moreover have "length (take ?n (chars (term_line T) @ [10])) = min ?n (term_buf_pos T + 1)"
      using line_length [OF ok] by simp
    ultimately have fin: "helpFinishRead (UserWaitingBuffer ?U) (UserWaitingLen ?U) ?U =
        Inr (int (length (take ?n (chars (term_line T) @ [10]))), take ?n (chars (term_line T) @ [10]), ?U\<lparr>term_buf_pos := 0\<rparr>)"
      using helpFinishRead_eq [of "UserWaitingBuffer ?U" ?U "UserWaitingLen ?U"] w [OF True] b(1-3) d(4)
      by (simp add: same_wait_def del: take_append)
    have "nolock_enter_handler T = Inr (T2\<lparr>term_buf_pos := 0, UserWaitingRead := False\<rparr>, snd (line_enter (term_line T)))"
      using 1(1) p b(3) True fin
      by (simp add: nolock_enter_handler_def same_wait_def line_enter_def) (simp add: term_line_def)
    with ok' [of False] b(3) that show ?thesis by (simp add: term_line_def line_enter_def same_wait_def)
  qed
qed

lemma word_less_128: "\<not> bit (w :: u8) 7 \<Longrightarrow> w < 128"
proof -
  assume "\<not> bit w 7"
  then have "take_bit 7 w = w"
    by (intro bit_eqI) (auto simp: bit_take_bit_iff less_Suc_eq numeral_eq_Suc dest: bit_imp_le_length)
  then have "take_bit 7 (unat w) = unat w"
    by (metis unsigned_take_bit_eq)
  then have "unat w < 2 ^ 7"
    by (metis take_bit_nat_less_exp)
  then show ?thesis by (simp add: word_less_nat_alt)
qed

lemma key_char_ok:
  assumes "length shift = 128" and "kkc AND 0x80 = 0"
  shows "key_char shift kkc capslock = Inr (projr (key_char shift kkc capslock))"
proof -
  have "\<not> bit (ucast (kkc AND KKC_ASCII_MASK) :: u8) 7"
  proof -
    have "bit (kkc AND 0x80) 7 \<longleftrightarrow> bit kkc 7" by (simp add: bit_and_iff)
    then show ?thesis using assms(2) by (simp add: bit_unsigned_iff bit_and_iff)
  qed
  then have "(ucast (kkc AND KKC_ASCII_MASK) :: u8) < 128"
    using word_less_128 by blast
  moreover from this have "unat (ucast (kkc AND KKC_ASCII_MASK) :: u8) < 128"
    by (simp add: word_less_nat_alt)
  ultimately show ?thesis
    using assms(1) by (simp add: key_char_def Let_def)
qed

lemma update_cursor_line: "tty_ok T \<Longrightarrow> tty_ok (update_cursor T) \<and> term_line (update_cursor T) = term_line T"
  using drawn_ok drawn_line update_cursor_drawn tty_okD(1) by blast

lemma cls_line:
  assumes "tty_ok T"
  obtains T' where "clearScreen (T\<lparr>next_char_x := 0, next_char_y := 0, term_buf_pos := 0\<rparr>) = Inr T'" and "tty_ok T'"
    and "term_line T' = (term_line T)\<lparr>chars := []\<rparr>"
proof -
  let ?T = "T\<lparr>next_char_x := 0, next_char_y := 0, term_buf_pos := 0\<rparr>"
  have ok: "tty_ok ?T" and l: "term_line ?T = (term_line T)\<lparr>chars := []\<rparr>"
    using assms by (simp_all add: tty_ok_def items_def cells_ok_def term_line_def)
  obtain T' where "clearScreen ?T = Inr T'" "drawn ?T T'"
    using clearScreen_drawn [OF tty_okD(1) [OF ok]] by blast
  with ok l that drawn_ok drawn_line show ?thesis by metis
qed

definition wait_ok :: "line \<Rightarrow> bool" where
  "wait_ok l \<longleftrightarrow> (\<forall>buf n. waiting l = Some (buf, n) \<longrightarrow> buf \<noteq> 0)"

lemma key_refines:
  assumes ok: "tty_ok T" and w: "wait_ok (term_line T)" and k: "length shift = 128" "kkc AND 0x80 = 0"
  shows "\<exists>T'. Term_key shift kkc capslock T = Inr (T', snd (line_key shift kkc capslock (term_line T))) \<and> tty_ok T' \<and>
    term_line T' = fst (line_key shift kkc capslock (term_line T))"
proof -
  let ?sp = "kkc AND NOT KKC_ASCII_MASK AND NOT KKC_SHIFT \<noteq> 0" and ?co = "kkc AND NOT KKC_SPECIAL_MASK \<noteq> 0"
  let ?s = "kkc AND KKC_SPECIAL_MASK" and ?l = "term_line T"
  note uc = update_cursor_line
  have w': "UserWaitingRead T \<Longrightarrow> UserWaitingBuffer T \<noteq> 0" using w by (simp add: wait_ok_def term_line_def)
  have full: "line_add c ?l = ?l" if "\<not> term_buf_pos T < 127" for c
    using that line_length [OF ok] by (simp add: line_add_def)
  consider (cls) "?sp" "?co" "kkc = (KKC_CTRL OR 108)" | (combo) "?sp" "?co" "kkc \<noteq> (KKC_CTRL OR 108)"
    | (bksp) "?sp" "\<not> ?co" "?s = KKC_BACKSPACE" | (tab) "?sp" "\<not> ?co" "?s = KKC_TAB" | (ent) "?sp" "\<not> ?co" "?s = KKC_ENTER"
    | (other) "?sp" "\<not> ?co" "?s \<noteq> KKC_BACKSPACE" "?s \<noteq> KKC_TAB" "?s \<noteq> KKC_ENTER" | (char) "\<not> ?sp" by blast
  then show ?thesis
  proof cases
    case cls
    obtain T' where "clearScreen (T\<lparr>next_char_x := 0, next_char_y := 0, term_buf_pos := 0\<rparr>) = Inr T'" "tty_ok T'"
      "term_line T' = ?l\<lparr>chars := []\<rparr>" using cls_line [OF ok] .
    with cls uc [of T'] show ?thesis by (simp add: Term_key_def line_key_def)
  next
    case combo
    with ok uc [of T] show ?thesis by (simp add: Term_key_def line_key_def)
  next
    case bksp
    obtain T' where "nolock_backspace_handler T = Inr T'" "tty_ok T'" "items T' = butlast (items T)" "same_wait T T'"
      using backspace_edit [OF ok] .
    with bksp uc [of T'] show ?thesis
      by (simp add: Term_key_def line_key_def) (simp add: term_line_def same_wait_def map_butlast)
  next
    case tab
    have "KKC_TAB \<noteq> KKC_BACKSPACE" by (simp add: KKC_TAB_def KKC_BACKSPACE_def)
    moreover have "\<exists>T'. nolock_tab_handler T = Inr T' \<and> tty_ok T' \<and> term_line T' = line_add 9 ?l"
    proof (cases "term_buf_pos T < 127")
      case True
      show ?thesis by (rule tab_edit [OF ok True]) (use line_push [OF _ _ ok True] in auto)
    next
      case False
      with full ok show ?thesis by (simp add: nolock_tab_handler_def TERM_BUFFER_SIZE_def)
    qed
    ultimately show ?thesis using tab uc by (auto simp: Term_key_def line_key_def)
  next
    case ent
    have "KKC_ENTER \<noteq> KKC_BACKSPACE" "KKC_ENTER \<noteq> KKC_TAB" by (simp_all add: KKC_TAB_def KKC_BACKSPACE_def KKC_ENTER_def)
    moreover obtain T' where "nolock_enter_handler T = Inr (T', snd (line_enter ?l))" "tty_ok T'" "term_line T' = fst (line_enter ?l)"
      using enter_edit [OF ok w'] .
    ultimately show ?thesis using ent uc [of T'] by (simp add: Term_key_def line_key_def)
  next
    case other
    with ok uc [of T] show ?thesis by (simp add: Term_key_def line_key_def)
  next
    case char
    show ?thesis
    proof (cases "term_buf_pos T < 127")
      case True
      obtain c where c: "key_char shift kkc capslock = Inr c" using key_char_ok [OF k] by blast
      obtain T' r where "type_char c T = Inr T'" "tty_ok T'" "items T' = items T @ [r]" "displayed_char r = c" "same_wait T T'"
        using type_char_edit [OF ok True] .
      with char True c uc [of T'] line_push [OF _ _ ok True, of T' r] show ?thesis
        by (simp add: Term_key_def line_key_def TERM_BUFFER_SIZE_def)
    next
      case False
      with char full ok uc [of T] show ?thesis by (simp add: Term_key_def line_key_def TERM_BUFFER_SIZE_def)
    qed
  qed
qed

lemma putc_line:
  assumes ok: "tty_ok T"
  shows "\<exists>T'. nolock_putc c T = Inr T' \<and> tty_ok T' \<and> term_line T' = (term_line T)\<lparr>chars := []\<rparr>"
proof -
  define T0 where "T0 = T\<lparr>term_buf_pos := 0\<rparr>"
  note d = tty_okD [OF ok]
  have T0: "cells_ok T0" "next_char_y T0 < 25" "next_char_x T0 < 80" using d by (simp_all add: T0_def cells_ok_def)
  have fin: "tty_ok U \<and> term_line U = (term_line T)\<lparr>chars := []\<rparr>"
    if "drawn (T0\<lparr>next_char_x := x, next_char_y := y\<rparr>) U" "x < 80" "y < 25" for U x y
    using that d(3) by (simp add: tty_ok_def drawn_def items_def term_line_def T0_def)
  have row: "\<exists>U. next_row (goto_x x V) = Inr U \<and> drawn (T0\<lparr>next_char_x := x, next_char_y := min 24 (next_char_y T0 + 1)\<rparr>) U"
    if "drawn T0 V" for x V
    using next_row_drawn [of "goto_x x V"] that T0(2) by (auto simp: goto_x_def drawn_def cells_ok_def)
  have col: "drawn (T0\<lparr>next_char_x := x, next_char_y := next_char_y T0\<rparr>) (goto_x x V)" if "drawn T0 V" for x V
    using that by (simp add: drawn_def goto_x_def cells_ok_def)
  have y: "min 24 (next_char_y T0 + 1) < 25" by simp
  obtain T1 where 1: "showChar (next_char_x T0) (next_char_y T0) c T0 = Inr T1" "drawn T0 T1"
    using showChar_drawn [OF T0(1,3,2)] by blast
  note 0 = drawn_refl [OF T0(1)]
  have a: "tty_ok T0 \<and> term_line T0 = (term_line T)\<lparr>chars := []\<rparr>"
    using fin [where x = "next_char_x T0" and y = "next_char_y T0" and U = T0] 0 T0 by simp
  have b: "\<exists>U. next_row (goto_x x V) = Inr U \<and> tty_ok U \<and> term_line U = (term_line T)\<lparr>chars := []\<rparr>" if "x < 80" "drawn T0 V" for x V
    using row [OF that(2), of x] fin [OF _ that(1) y] by blast
  have e: "tty_ok (goto_x x V) \<and> term_line (goto_x x V) = (term_line T)\<lparr>chars := []\<rparr>" if "x < 80" "drawn T0 V" for x V
    using fin [OF col [OF that(2)] that(1) T0(2)] .
  have "next_char_x T1 = next_char_x T0" using 1(2) by (simp add: drawn_def)
  then have "\<exists>U. put_char c T0 = Inr U \<and> tty_ok U \<and> term_line U = (term_line T)\<lparr>chars := []\<rparr>"
    using a b [OF _ 0] e [OF _ 0] b [OF _ 1(2)] e [OF _ 1(2)] 1(1) T0(3)
    by (auto simp: put_char_def Let_def new_line_eq SCREEN_WIDTH_def)
  then show ?thesis
    using update_cursor_line unfolding nolock_putc_def T0_def [symmetric] by fastforce
qed

lemma read_line:
  assumes ok: "tty_ok T" and "cbuf \<noteq> 0"
  shows "\<exists>r bs bl T'. Term_read pid cbuf n T = Inr (r, bs, bl, T') \<and> tty_ok T' \<and>
    (r, bs, bl, term_line T') = line_read pid cbuf n (term_line T)"
proof -
  define T1 where "T1 = (if OwnedByPid T = -1 then T\<lparr>OwnedByPid := pid, UserWaitingRead := False\<rparr> else T)"
  note d = tty_okD [OF ok]
  have c: "take (to_size_t n) (chars (term_line T)) = map displayed_char (take (min (to_size_t n) (term_buf_pos T)) (term_buf T))"
    by (simp add: term_line_def items_def take_map)
  have ok1: "tty_ok (T1\<lparr>term_buf_pos := 0\<rparr>)" "tty_ok (T1\<lparr>UserWaitingRead := True, UserWaitingBuffer := cbuf, UserWaitingLen := n\<rparr>)"
    "tty_ok T" using ok d(5) by (simp_all add: tty_ok_def T1_def items_def cells_ok_def)
  have fin: "helpFinishRead cbuf n T1 = Inr (int (min (to_size_t n) (term_buf_pos T)), take (to_size_t n) (chars (term_line T)), T1\<lparr>term_buf_pos := 0\<rparr>)"
    using helpFinishRead_eq [OF assms(2), of T1 n] d(3,4) by (simp add: c T1_def)
  have rdr: "reader (term_line T) = OwnedByPid T" by (simp add: term_line_def)
  consider (foreign) "OwnedByPid T \<noteq> -1" "OwnedByPid T \<noteq> pid" | (wait) "OwnedByPid T = -1 \<or> OwnedByPid T = pid" "term_buf_pos T < to_size_t n"
    | (now) "OwnedByPid T = -1 \<or> OwnedByPid T = pid" "\<not> term_buf_pos T < to_size_t n" by blast
  then show ?thesis
  proof cases
    case foreign
    with ok show ?thesis by (auto simp: Term_read_def line_read_def rdr)
  next
    case wait
    then have "Term_read pid cbuf n T = Inr (0, [], True, T1\<lparr>UserWaitingRead := True, UserWaitingBuffer := cbuf, UserWaitingLen := n\<rparr>)"
      by (auto simp: Term_read_def T1_def Let_def)
    with ok1(2) wait line_length [OF ok] show ?thesis
      by (simp add: line_read_def Let_def rdr) (auto simp: T1_def term_line_def items_def)
  next
    case now
    then have "Term_read pid cbuf n T = Inr (int (to_size_t n), take (to_size_t n) (chars (term_line T)), False, T1\<lparr>term_buf_pos := 0\<rparr>)"
      using fin by (auto simp: Term_read_def T1_def [symmetric] Let_def) (auto simp: T1_def split: if_splits)
    moreover have "term_line (T1\<lparr>term_buf_pos := 0\<rparr>) =
        (term_line T)\<lparr>reader := pid, waiting := (if OwnedByPid T = -1 then None else waiting (term_line T)), chars := []\<rparr>"
      using now by (auto simp: T1_def term_line_def items_def)
    ultimately show ?thesis
      using ok1(1) now line_length [OF ok] by (auto simp: line_read_def Let_def rdr)
  qed
qed

subsection \<open>Sequences of events\<close>

text \<open>A terminal gets keys, characters to print and calls of \<open>read\<close>.\<close>

datatype term_event = TKey u32 bool | TPut u8 | TRead int nat int

datatype term_output = Done | Deliver delivery | Result int "u8 list" bool

fun term_step :: "u8 list \<Rightarrow> term_event \<Rightarrow> tty \<Rightarrow> (term_output \<times> tty) kresult" where
  "term_step shift (TKey kkc caps) T = kbind (Term_key shift kkc caps T) (\<lambda>(T', w). Inr (Deliver w, T'))"
| "term_step shift (TPut c) T = kbind (nolock_putc c T) (\<lambda>T'. Inr (Done, T'))"
| "term_step shift (TRead pid buf n) T = kbind (Term_read pid buf n T) (\<lambda>(r, bs, bl, T'). Inr (Result r bs bl, T'))"

fun term_run :: "u8 list \<Rightarrow> term_event list \<Rightarrow> tty \<Rightarrow> (term_output list \<times> tty) kresult" where
  "term_run shift [] T = Inr ([], T)"
| "term_run shift (e # es) T = kbind (term_step shift e T) (\<lambda>(w, T1). kbind (term_run shift es T1) (\<lambda>(ws, T2). Inr (w # ws, T2)))"

fun line_step :: "u8 list \<Rightarrow> term_event \<Rightarrow> line \<Rightarrow> term_output \<times> line" where
  "line_step shift (TKey kkc caps) l = (case line_key shift kkc caps l of (l', w) \<Rightarrow> (Deliver w, l'))"
| "line_step shift (TPut c) l = (Done, l\<lparr>chars := []\<rparr>)"
| "line_step shift (TRead pid buf n) l = (case line_read pid buf n l of (r, bs, bl, l') \<Rightarrow> (Result r bs bl, l'))"

fun line_run :: "u8 list \<Rightarrow> term_event list \<Rightarrow> line \<Rightarrow> term_output list \<times> line" where
  "line_run shift [] l = ([], l)"
| "line_run shift (e # es) l = (case line_step shift e l of (w, l1) \<Rightarrow> case line_run shift es l1 of (ws, l2) \<Rightarrow> (w # ws, l2))"

definition event_ok :: "term_event \<Rightarrow> bool" where
  "event_ok e \<longleftrightarrow> (case e of TKey kkc caps \<Rightarrow> kkc AND 0x80 = 0 | TPut c \<Rightarrow> True | TRead pid buf n \<Rightarrow> buf \<noteq> 0)"

lemma line_step_wait: "wait_ok l \<Longrightarrow> event_ok e \<Longrightarrow> wait_ok (snd (line_step shift e l))"
  by (cases e) (auto simp: wait_ok_def event_ok_def line_key_def line_add_def line_enter_def line_read_def Let_def split: if_splits)

lemma step_refines:
  assumes "tty_ok T" and "wait_ok (term_line T)" and "length shift = 128" and "event_ok e"
  shows "\<exists>w T'. term_step shift e T = Inr (w, T') \<and> tty_ok T' \<and> (w, term_line T') = line_step shift e (term_line T)"
proof (cases e)
  case (TKey kkc caps)
  then show ?thesis
    using key_refines [OF assms(1-3), of kkc caps] assms(4) by (auto simp: event_ok_def split: prod.splits)
next
  case (TPut c)
  then show ?thesis using putc_line [OF assms(1), of c] by auto
next
  case (TRead pid buf n)
  then show ?thesis
    using read_line [OF assms(1), of buf pid n] assms(4) by (auto simp: event_ok_def split: prod.splits)
qed

text \<open>
  C1: under any sequence of keys, printed characters and reads a terminal behaves as a line of
  at most 127 characters: typing appends, backspace takes the last one back, also over the end
  of a row and after scrolling, printing or clearing empties it, enter delivers it with a
  newline to the waiting process. Nothing is ever drawn or stored outside of the screen and of
  the line buffer. The keys have ASCII codes below 128 and the buffers of reads are not null.
\<close>

theorem terminal_line_discipline:
  assumes "tty_ok T" and "wait_ok (term_line T)" and "length shift = 128" and "\<forall>e \<in> set es. event_ok e"
  shows "\<exists>ws T'. term_run shift es T = Inr (ws, T') \<and> tty_ok T' \<and> (ws, term_line T') = line_run shift es (term_line T)"
  using assms(1,2,4)
proof (induction es arbitrary: T)
  case (Cons e es)
  obtain w T1 where 1: "term_step shift e T = Inr (w, T1)" "tty_ok T1" "(w, term_line T1) = line_step shift e (term_line T)"
    using step_refines [OF Cons.prems(1,2) assms(3), of e] Cons.prems(3) by auto
  have "wait_ok (term_line T1)"
    using line_step_wait [OF Cons.prems(2), of e shift] Cons.prems(3) 1(3) by (metis list.set_intros(1) snd_conv)
  then obtain ws T' where "term_run shift es T1 = Inr (ws, T')" "tty_ok T'" "(ws, term_line T') = line_run shift es (term_line T1)"
    using Cons.IH [OF 1(2)] Cons.prems(3) by auto
  with 1 show ?case by (auto split: prod.splits)
qed simp

definition sample_tty :: tty where
  "sample_tty = \<lparr>next_char_x = 78, next_char_y = 24, term_buf_pos = 0,
     term_buf = replicate 128 \<lparr>displayed_char = 0, x_offset = 0, y_offset = 0\<rparr>, OwnedByPid = -1, UserWaitingRead = False,
     UserWaitingBuffer = 0, UserWaitingLen = -1,
     painter = \<lparr>isLoadedInVmem = True, bIsVidmapEnabled = False, vidmapOwner = 0, backupAddr = 0, pcbLoadable = True, canUseCpp = True,
       isFallbackTerm = False, backupBuffer = blanks 2000, cursorX = 0, cursorY = 0\<rparr>, video = blanks 2000, hw_cursor = 0, page0_mapped = True\<rparr>"

theorem terminal_line_discipline_witness:
  "\<exists>T'. term_run (replicate 128 0) [TRead 3 5000 100, TKey 97 False, TKey 98 True, TKey 99 False, TKey KKC_BACKSPACE False, TKey KKC_ENTER False]
     sample_tty = Inr ([Result 0 [] True, Deliver None, Deliver None, Deliver None, Deliver None, Deliver (Some (3, 5000, [97, 66, 10], 3))], T')"
proof -
  let ?es = "[TRead 3 5000 100, TKey 97 False, TKey 98 True, TKey 99 False, TKey KKC_BACKSPACE False, TKey KKC_ENTER False]"
  have l: "term_line sample_tty = \<lparr>chars = [], reader = -1, waiting = None\<rparr>"
    by (simp add: sample_tty_def term_line_def items_def)
  have "tty_ok sample_tty" by (simp add: sample_tty_def tty_ok_def items_def cells_ok_def)
  moreover have "wait_ok (term_line sample_tty)" by (simp add: l wait_ok_def)
  moreover have "\<forall>e \<in> set ?es. event_ok e" by (simp add: event_ok_def KKC_BACKSPACE_def KKC_ENTER_def)
  ultimately obtain ws T' where "term_run (replicate 128 0) ?es sample_tty = Inr (ws, T')"
    "(ws, term_line T') = line_run (replicate 128 0) ?es \<lparr>chars = [], reader = -1, waiting = None\<rparr>"
    using terminal_line_discipline [of sample_tty "replicate 128 0" ?es] l by auto
  then show ?thesis
    by (simp add: line_read_def line_key_def line_add_def line_enter_def key_char_def Let_def to_size_t_def KKC_BACKSPACE_def
        KKC_ENTER_def KKC_TAB_def KKC_ASCII_MASK_def KKC_SHIFT_def KKC_SPECIAL_MASK_def KKC_CTRL_def)
qed

end
