(* ===== verification/Spec2Isabelle.thy ===== *)
theory Spec2Isabelle
  imports Prelude KBitSet KStack KDeque KRingBuf KLib ULib KHashTable KPrefixTree KPaging KPalloc USha1 KKissFS UList UCreatefs UImage UElf KFiles KSyscalls KBoot KDescriptors UProg UTests UGrep UEmulate UStream UKernel KMemMap KTerm
begin

text \<open>
  Verification development of TedkOS, a small operating system for the i386: a kernel in C++
  (src/student-distrib), the programs that build its disk image (src/createfs.c,
  src/elfconvert.c) and user programs (src/syscalls, src/fish, src/userland).

  \<^bold>\<open>Parts and theories.\<close> A theory whose name starts with K models kernel code, one with U code
  that runs outside the kernel. Functions keep the names they have in the source; a method
  \<open>C::m\<close> is \<open>C_m\<close>.

    \<^item> \<open>Prelude\<close>: machine types, failures as values (\<open>kresult\<close>), 32-bit arithmetic on natural numbers.
    \<^item> \<open>KBitSet\<close>, \<open>KStack\<close>, \<open>KRing\<close>, \<open>KDeque\<close>, \<open>KRingBuf\<close>, \<open>KHashTable\<close>, \<open>KPrefixTree\<close>: the containers of
      inc/klibs (bitset.h, stack.h, memory_pool.h, deque.h, ringbuf.h, lphashtable.h, prefixtree.h).
    \<^item> \<open>KLib\<close>, \<open>ULib\<close>: strings and numbers of klibs/lib.cpp and of the user library, on a byte memory.
    \<^item> \<open>KPaging\<close>, \<open>KPalloc\<close>: page directory entries (inc/x86/paging.h) and the page managers of
      klibs/palloc.cpp.
    \<^item> \<open>KKissFS\<close>: the read-only file system (inc/fs/kiss.h, fs/kissfs.cpp).
    \<^item> \<open>KFiles\<close>: descriptors (proc/tasks.cpp), devices (fs/devfs.cpp), dispatcher (fs/filesystem.cpp).
    \<^item> \<open>KSyscalls\<close>: system calls on files, user pointers, getargs, and the part of exec that splits the
      command line, checks the executable and loads it.
    \<^item> \<open>KBoot\<close>: what a path leads to once the image is loaded and the file systems are mounted.
    \<^item> \<open>KDescriptors\<close>: what sequences of system calls do to the descriptors of a process.
    \<^item> \<open>UList\<close>, \<open>UCreatefs\<close>, \<open>UImage\<close>: the linked list, createfs.c, and the image it writes read back by
      the kernel.
    \<^item> \<open>UElf\<close>: elfconvert.c.
    \<^item> \<open>USha1\<close>: the SHA-1 of userland/shafile.

  \<^bold>\<open>How the parts interact.\<close> createfs writes an image; the boot loader puts it into memory; KissFS
  reads it into its tables, with the hash table for the names; the dispatcher keeps the mounted
  file systems in the prefix tree and hands each operation to KissFS or to a device; the system
  calls keep the open files of a process in the descriptor array, whose free list is a stack
  beside a bit set; exec opens a file through the dispatcher and copies it into memory.

  \<^bold>\<open>State.\<close> An object is a record with the fields of the class; an operation takes the object and
  returns it updated. Memory is a function from addresses to bytes. Failures are values: \<open>Inl Fault\<close>
  is an access outside an array or through a dead pointer, \<open>Inl Panic\<close> and \<open>Inl (Trap n)\<close> are the
  kernel's own ways to stop. Counters and indices are natural numbers with the reduction modulo
  2^32 written where it can matter; bit patterns are words.

  \<^bold>\<open>Interfaces.\<close> \<open>index_set\<close> (a bounded set of indices; the bit set), \<open>lifo\<close> and \<open>free_list\<close> (the
  stack, and the stack beside the bit set, which carries the memory pool, the page managers and
  the descriptors), \<open>rr_queue\<close> (the queue of the scheduler; the deque), \<open>hashing\<close> (what
  a key type promises to the hash table; file names) are locales, each interpreted on the model.

  \<^bold>\<open>What is shown.\<close> Containers refine sets, lists and maps, with their failures stated exactly. No
  page is handed out twice. KissFS loads every image or faults on an oversized inode, finds names
  and returns the bytes of files, except for reads that cross the end of a block, which are shown
  to return other bytes. createfs and KissFS are inverse to each other. The converter lays the
  segments of a program out at their addresses; the loader copies the file to memory unchanged and
  returns the entry point. The descriptors of a process stay consistent under all system calls.
  SHA-1 is computed correctly for every way of splitting the input. The properties named in the
  text blocks with a number are the claims; the other lemmas carry their proofs.

  \<^bold>\<open>Loops.\<close> Loops that always end are functions with a measure or recursion on a list of rounds.
  Loops that may run for ever (string functions on memory without a terminator, probing of a full
  hash table) are partial functions with values in \<open>option\<close>: \<open>None\<close> is a run that does not end, and
  termination is proved where the code has it. There is no fuel.

  \<^bold>\<open>Not modelled.\<close> Assembly (boot, interrupt entry, context switch), the hardware drivers (PIT, RTC,
  PCI, ATA, VGA, PS/2: port I/O), the compositor and desktop (pixel output), process creation
  (kernel stacks, page directories of processes), locks and interrupts. Vendored code (boost,
  newlib, libgloss) is not part of the program's own logic.
\<close>

end
